(* ===== verification/Go_Prelude.thy ===== *)
theory Go_Prelude
  imports Main "HOL-Library.Word"
begin

unbundle bit_operations_syntax

text \<open>
  What every component of the gateway shares: the outcomes of a Go call, indexing and slicing
  with their run-time checks, machine integers, Go maps read with the comma-ok form, channels
  and the generic lemmas on lists and words that the component proofs rewrite with.

  \<^item> A call returns (\<open>Ret\<close>), panics, ends the process (\<open>Exit\<close>, what \<open>log.Fatal\<close> does) or
    waits forever on a channel or a lock (\<open>Block\<close>).
  \<^item> A function with results \<open>(T, error)\<close> returns the pair; \<open>nil\<close> errors are \<open>None\<close>.
  \<^item> Pointers are natural numbers; a pointer that may be \<open>nil\<close> has an \<open>option\<close> type.
\<close>

section \<open>Machine integers and byte slices\<close>

type_synonym u8 = "8 word"
type_synonym u16 = "16 word"
type_synonym u32 = "32 word"
type_synonym i8 = "8 word" \<comment> \<open>int8, read with \<open>sint\<close>\<close>
type_synonym i64 = "64 word" \<comment> \<open>Go's int on the 64-bit targets, read with \<open>sint\<close>\<close>
type_synonym bytes = "u8 list"
type_synonym error = string
type_synonym ptr = nat

section \<open>Outcomes of a Go call\<close>

datatype gopanic =
    IndexOutOfRange
  | SliceOutOfRange
  | NilDereference
  | DivideByZero
  | CloseOfClosedChannel
  | Panicked \<comment> \<open>an explicit \<open>panic(err)\<close>\<close>

datatype 'a go = Ret 'a | Panic gopanic | Exit | Block

primrec go_bind :: "'a go \<Rightarrow> ('a \<Rightarrow> 'b go) \<Rightarrow> 'b go" where
  "go_bind (Ret x) f = f x"
| "go_bind (Panic p) f = Panic p"
| "go_bind Exit f = Exit"
| "go_bind Block f = Block"

definition returns :: "'a go \<Rightarrow> bool" where
  "returns m \<longleftrightarrow> (case m of Ret _ \<Rightarrow> True | _ \<Rightarrow> False)"

text \<open>\<open>*p\<close> and \<open>p.f\<close> on a pointer that may be nil.\<close>

definition deref :: "'a option \<Rightarrow> 'a go" where
  "deref p = (case p of None \<Rightarrow> Panic NilDereference | Some a \<Rightarrow> Ret a)"

text \<open>\<open>xs[i]\<close> with the bounds check of the run time.\<close>

definition index :: "'a list \<Rightarrow> int \<Rightarrow> 'a go" where
  "index xs i = (if 0 \<le> i \<and> nat i < length xs then Ret (xs ! nat i) else Panic IndexOutOfRange)"

text \<open>The \<open>copy\<close> builtin on two slices: it overwrites a prefix of the destination.\<close>

definition go_copy :: "'a list \<Rightarrow> 'a list \<Rightarrow> 'a list" where
  "go_copy dst src = take (length dst) src @ drop (length src) dst"

text \<open>
  A buffered channel is the list of the values in it, oldest first. A send on a full channel
  waits; so does a receive from an empty one.
\<close>

definition chan_send :: "nat \<Rightarrow> 'a list \<Rightarrow> 'a \<Rightarrow> 'a list go" where
  "chan_send cap ch x = (if length ch < cap then Ret (ch @ [x]) else Block)"

definition chan_recv :: "'a list \<Rightarrow> ('a \<times> 'a list) go" where
  "chan_recv ch = (case ch of [] \<Rightarrow> Block | x # rest \<Rightarrow> Ret (x, rest))"

text \<open>Calling a stateful operation \<open>n\<close> times in a row, collecting the results.\<close>

fun go_repeat :: "nat \<Rightarrow> ('s \<Rightarrow> ('a \<times> 's) go) \<Rightarrow> 's \<Rightarrow> ('a list \<times> 's) go" where
  "go_repeat 0 f s = Ret ([], s)"
| "go_repeat (Suc n) f s =
     go_bind (f s) (\<lambda>(x, s'). go_bind (go_repeat n f s') (\<lambda>(xs, s''). Ret (x # xs, s'')))"

section \<open>Rewriting with outcomes\<close>

named_theorems go_simps \<open>evaluation of Go expressions: binds, indexing, dereferencing\<close>

lemma go_bind_assoc [simp]: "go_bind (go_bind m f) g = go_bind m (\<lambda>x. go_bind (f x) g)"
  by (cases m) auto

lemma go_bind_Ret_right [simp]: "go_bind m Ret = m"
  by (cases m) auto

lemma go_bind_eq_Ret:
  "go_bind m f = Ret y \<longleftrightarrow> (\<exists>x. m = Ret x \<and> f x = Ret y)"
  by (cases m) auto

lemma go_bind_RetE [elim!]:
  assumes "go_bind m f = Ret y"
  obtains x where "m = Ret x" and "f x = Ret y"
  using assms by (auto simp: go_bind_eq_Ret)

lemma returns_simps [simp]:
  "returns (Ret x)" "\<not> returns (Panic p)" "\<not> returns Exit" "\<not> returns Block"
  by (simp_all add: returns_def)

lemma returns_iff: "returns m \<longleftrightarrow> (\<exists>x. m = Ret x)"
  by (cases m) auto

lemma go_bind_if [simp]:
  "go_bind (if b then m else m') f = (if b then go_bind m f else go_bind m' f)"
  by simp

lemma deref_simps [simp]: "deref (Some a) = Ret a" "deref None = Panic NilDereference"
  by (simp_all add: deref_def)

lemma deref_eq_Ret [simp]: "deref p = Ret a \<longleftrightarrow> p = Some a"
  by (cases p) auto

lemma index_in [go_simps]: "0 \<le> i \<Longrightarrow> nat i < length xs \<Longrightarrow> index xs i = Ret (xs ! nat i)"
  by (simp add: index_def)

lemma index_out [go_simps]: "length xs \<le> nat i \<Longrightarrow> index xs i = Panic IndexOutOfRange"
  by (simp add: index_def)

lemma chan_send_eq_Ret [simp]:
  "chan_send cap ch x = Ret ch' \<longleftrightarrow> length ch < cap \<and> ch' = ch @ [x]"
  by (auto simp: chan_send_def)

lemma chan_recv_simps [simp]:
  "chan_recv [] = Block" "chan_recv (x # ch) = Ret (x, ch)"
  by (simp_all add: chan_recv_def)

lemma chan_recv_eq_Ret [simp]: "chan_recv ch = Ret (x, ch') \<longleftrightarrow> ch = x # ch'"
  by (cases ch) auto

lemma length_go_copy [simp]: "length (go_copy dst src) = length dst"
  by (auto simp: go_copy_def)

section \<open>Words\<close>

lemma bytes_of_u16:
  "ucast (drop_bit 8 (push_bit 8 (ucast (b1 :: u8)) OR ucast (b2 :: u8) :: u16)) = b1"
  "ucast ((push_bit 8 (ucast (b1 :: u8)) OR ucast (b2 :: u8) :: u16) AND 255) = b2"
proof -
  have m: "(255 :: u16) = mask 8" by (simp add: mask_eq_exp_minus_1)
  show "ucast (drop_bit 8 (push_bit 8 (ucast b1) OR ucast b2 :: u16)) = b1"
    by (rule bit_word_eqI) (auto simp: bit_simps dest: bit_imp_le_length)
  show "ucast ((push_bit 8 (ucast b1) OR ucast b2 :: u16) AND 255) = b2"
    unfolding m by (rule bit_word_eqI) (auto simp: bit_simps dest: bit_imp_le_length)
qed

lemma u16_of_bytes:
  "push_bit 8 (ucast (ucast (drop_bit 8 (w :: u16)) :: u8)) OR ucast (ucast (w AND 255) :: u8) = w"
proof -
  have m: "(255 :: u16) = mask 8" by (simp add: mask_eq_exp_minus_1)
  show ?thesis unfolding m
    by (rule bit_word_eqI) (auto simp: bit_simps dest: bit_imp_le_length)
qed

lemma sint_eqD: "sint a = sint b \<Longrightarrow> a = b" for a b :: "'a::len word"
  using word_eq_iff_signed [where 'a = int, of a b] by blast

lemma sint_bounds:
  fixes w :: "'a::len word"
  shows "- (2 ^ (LENGTH('a) - 1)) \<le> sint w" and "sint w < 2 ^ (LENGTH('a) - 1)"
  by (simp_all add: sint_greater_eq sint_less)

lemma sint_add_small:
  fixes a b :: "'a::len word"
  assumes "- (2 ^ (LENGTH('a) - 1)) \<le> sint a + sint b" and "sint a + sint b < 2 ^ (LENGTH('a) - 1)"
  shows "sint (a + b) = sint a + sint b"
  using assms by (simp add: sint_word_ariths signed_take_bit_int_eq_self)

lemma sint_sub_small:
  fixes a b :: "'a::len word"
  assumes "- (2 ^ (LENGTH('a) - 1)) \<le> sint a - sint b" and "sint a - sint b < 2 ^ (LENGTH('a) - 1)"
  shows "sint (a - b) = sint a - sint b"
  using assms by (simp add: sint_word_ariths signed_take_bit_int_eq_self)

lemma sint_dec: "0 < sint (i :: 64 word) \<Longrightarrow> sint (i - 1) = sint i - 1"
  using sint_bounds [of i] by (subst sint_sub_small) auto

section \<open>Lists\<close>

lemma take_drop_nths:
  "i + 4 \<le> length xs \<Longrightarrow> take 4 (drop i xs) = [xs ! i, xs ! (i + 1), xs ! (i + 2), xs ! (i + 3)]"
  by (rule nth_equalityI) (auto simp: less_Suc_eq numeral_eq_Suc)

text \<open>
  The neighbours of a ring: the pairs of consecutive elements of a list read as a circle.
\<close>

definition ring_pairs :: "'a list \<Rightarrow> ('a \<times> 'a) set" where
  "ring_pairs xs = set (zip xs (rotate1 xs))"

lemma ring_pairs_Nil [simp]: "ring_pairs [] = {}"
  by (simp add: ring_pairs_def)

lemma ring_pairs_single [simp]: "ring_pairs [x] = {(x, x)}"
  by (simp add: ring_pairs_def)

lemma ring_pairs_nth:
  "(a, b) \<in> ring_pairs xs \<longleftrightarrow> (\<exists>i < length xs. a = xs ! i \<and> b = xs ! (Suc i mod length xs))"
  by (auto simp: ring_pairs_def set_zip nth_rotate1)

lemma ring_pairs_in: "(a, b) \<in> ring_pairs xs \<Longrightarrow> a \<in> set xs \<and> b \<in> set xs"
  by (auto simp: ring_pairs_def dest: set_zip_leftD set_zip_rightD)

lemma ring_pairs_functional:
  "distinct xs \<Longrightarrow> (a, b) \<in> ring_pairs xs \<Longrightarrow> (a, c) \<in> ring_pairs xs \<Longrightarrow> b = c"
  by (auto simp: ring_pairs_def set_zip nth_eq_iff_index_eq)

lemma ring_pairs_injective:
  assumes "distinct xs" and "(a, c) \<in> ring_pairs xs" and "(b, c) \<in> ring_pairs xs"
  shows "a = b"
proof -
  have "distinct (rotate1 xs)" using assms(1) by simp
  with assms(2,3) show ?thesis by (auto simp: ring_pairs_def set_zip nth_eq_iff_index_eq)
qed

lemma zip_rotate1: "length xs = length ys \<Longrightarrow> zip (rotate1 xs) (rotate1 ys) = rotate1 (zip xs ys)"
  by (cases xs; cases ys) auto

lemma ring_pairs_rotate1: "ring_pairs (rotate1 xs) = ring_pairs xs"
  by (simp add: ring_pairs_def zip_rotate1)

lemma ring_pairs_swap: "ring_pairs (as @ bs) = ring_pairs (bs @ as)"
proof -
  have "ring_pairs (rotate n xs) = ring_pairs xs" for n and xs :: "'a list"
    by (induction n) (simp_all add: ring_pairs_rotate1)
  from this [of "length as" "as @ bs"] show ?thesis by (simp add: rotate_append)
qed

text \<open>A path with both ends closed by the same new element, and the ring without it.\<close>

lemma zip_path: "set (zip (n # zs) (zs @ [c])) = set (zip (n # zs) zs) \<union> {(last (n # zs), c)}"
  by (induction zs arbitrary: n) auto

lemma ring_pairs_Cons:
  assumes "ys \<noteq> []"
  shows "ring_pairs ys = set (zip ys (tl ys)) \<union> {(last ys, hd ys)}"
    and "ring_pairs (x # ys) = insert (x, hd ys) (set (zip ys (tl ys)) \<union> {(last ys, x)})"
  using assms by (cases ys; simp add: ring_pairs_def zip_path)+

lemma zip_tl_inner:
  assumes d: "distinct xs" and ab: "(a, b) \<in> set (zip xs (tl xs))"
  shows "a \<noteq> last xs" and "b \<noteq> hd xs" and "a \<in> set xs" and "b \<in> set xs"
proof -
  have ne: "xs \<noteq> []" using ab by auto
  have mem: "(a, b) \<in> ring_pairs xs" "(last xs, hd xs) \<in> ring_pairs xs"
    using ab ring_pairs_Cons(1) [OF ne] by auto
  have "b \<in> set (tl xs)" using ab by (rule set_zip_rightD)
  then show b: "b \<noteq> hd xs" using d ne by (cases xs) auto
  show "a \<noteq> last xs" using ring_pairs_functional [OF d, of "last xs" "hd xs" b] mem b by blast
  show "a \<in> set xs" and "b \<in> set xs" using ring_pairs_in [OF mem(1)] by auto
qed

end
