(* ===== verification/Bytes_Utils.thy ===== *)
theory Bytes_Utils
  imports Go_Prelude
begin

text \<open>
  \<open>src/utils/bytes_utils.go\<close>, lines 8--73: the arithmetic helpers, the extraction of ports and
  addresses from a packet and \<open>Memset\<close>. The pool of buffers of the same file is the theory
  \<open>Buffers_Pool\<close>.
\<close>

section \<open>Definitions\<close>

subsection \<open>FastPow, max, fastMax\<close>

function FastPow_loop :: "i64 \<Rightarrow> i64 \<Rightarrow> i64 \<Rightarrow> i64" where
  "FastPow_loop base i res =
     (if 0 < sint i then FastPow_loop base (i - 1) (res * base) else res)"
  by pat_completeness auto
termination
proof (relation "measure (\<lambda>(base, i, res). nat (sint i))")
  fix base i res :: i64
  assume pos: "0 < sint i"
  then have "sint (i - 1) = sint i - 1" by (rule sint_dec)
  with pos show "((base, i - 1, res * base), base, i, res) \<in> measure (\<lambda>(base, i, res). nat (sint i))"
    by simp
qed simp

declare FastPow_loop.simps [simp del]

definition FastPow :: "i64 \<Rightarrow> i64 \<Rightarrow> i64" where
  "FastPow base exp = FastPow_loop base exp base"

definition max_go :: "int \<Rightarrow> int \<Rightarrow> int" where
  "max_go v1 v2 = (if v1 > v2 then v1 else v2)"

text \<open>
  \<open>for val := range values[1:]\<close> binds \<open>val\<close> to the positions \<open>0, 1, \<dots>\<close> of the slice
  \<open>values[1:]\<close>, not to its elements.
\<close>

fun fastMax :: "int list \<Rightarrow> int" where
  "fastMax [] = -1"
| "fastMax [v] = v"
| "fastMax (v # rest) = fold (\<lambda>val vMax. max_go vMax (int val)) [0..<length rest] v"

subsection \<open>Ports and addresses\<close>

text \<open>
  \<open>net.IPv4(a, b, c, d)\<close> is the 16-byte form of the address, the four bytes after the
  IPv4-in-IPv6 prefix.
\<close>

definition IPv4 :: "u8 \<Rightarrow> u8 \<Rightarrow> u8 \<Rightarrow> u8 \<Rightarrow> bytes" where
  "IPv4 a b c d = replicate 10 0 @ [255, 255, a, b, c, d]"

definition be16 :: "u8 \<Rightarrow> u8 \<Rightarrow> u16" where
  "be16 hi lo = push_bit 8 (ucast (hi OR 0)) OR ucast lo"

definition GetPortsFromBytes ::
  "int \<Rightarrow> int \<Rightarrow> int \<Rightarrow> int \<Rightarrow> bytes \<Rightarrow> (u16 \<times> u16 \<times> error option) go" where
  "GetPortsFromBytes ptr1 ptr2 ptr3 ptr4 packet =
     (if length packet < 4
      then Ret (0, 0, Some ''Error provided byte slice with lenght lower than 4'')
      else go_bind (index packet ptr1) (\<lambda>b1. go_bind (index packet ptr2) (\<lambda>b2.
           let source = be16 b1 b2 in
           go_bind (index packet ptr3) (\<lambda>b3. go_bind (index packet ptr4) (\<lambda>b4.
           let target = be16 b3 b4 in
           Ret (source, target, None))))))"

definition read_IPv4 :: "bytes \<Rightarrow> int \<Rightarrow> bytes go" where
  "read_IPv4 pkt p =
     go_bind (index pkt p) (\<lambda>a. go_bind (index pkt (p + 1)) (\<lambda>b.
     go_bind (index pkt (p + 2)) (\<lambda>c. go_bind (index pkt (p + 3)) (\<lambda>d.
     Ret (IPv4 a b c d)))))"

text \<open>A nil \<open>net.IP\<close> is the empty byte slice.\<close>

definition GetIPsFromBytes :: "int \<Rightarrow> int \<Rightarrow> bytes \<Rightarrow> (bytes \<times> bytes \<times> error option) go" where
  "GetIPsFromBytes ptr1 ptr2 pkt =
     (if int (length pkt) < max_go (ptr1 + 3) (ptr2 + 3)
      then Ret ([], [], Some ''Error byte buffer provided smaller than expected!'')
      else go_bind (read_IPv4 pkt ptr1) (\<lambda>src. go_bind (read_IPv4 pkt ptr2) (\<lambda>trg.
           Ret (src, trg, None))))"

subsection \<open>Memset\<close>

text \<open>
  The loop doubles \<open>i\<close> from 1 and copies the initialised prefix over what follows it.
  It is only entered with a positive \<open>i\<close>; that part of the guard makes the recursion total.
\<close>

function Memset_loop :: "nat \<Rightarrow> bytes \<Rightarrow> bytes" where
  "Memset_loop i sl =
     (if 0 < i \<and> i < length sl
      then Memset_loop (i * 2) (take i sl @ go_copy (drop i sl) (take i sl))
      else sl)"
  by pat_completeness auto
termination
  by (relation "measure (\<lambda>(i, sl). length sl - i)") auto

declare Memset_loop.simps [simp del]

definition Memset :: "bytes \<Rightarrow> u8 \<Rightarrow> bytes" where
  "Memset sl val = (if length sl = 0 then sl else Memset_loop 1 (sl[0 := val]))"

section \<open>Lemmas\<close>

subsection \<open>FastPow and fastMax\<close>

lemma FastPow_loop_eq: "FastPow_loop base i res = res * base ^ nat (sint i)"
proof (induction base i res rule: FastPow_loop.induct)
  case (1 base i res)
  show ?case
  proof (cases "0 < sint i")
    case True
    then have "nat (sint i) = Suc (nat (sint (i - 1)))" by (simp add: sint_dec)
    with True "1" show ?thesis by (simp add: FastPow_loop.simps [of base i res])
  next
    case False
    then show ?thesis by (simp add: FastPow_loop.simps [of base i res])
  qed
qed

lemma fold_max_positions:
  "fold (\<lambda>val vMax. max_go vMax (int val)) [0..<Suc n] v = max v (int n)"
  by (induction n) (auto simp: max_go_def)

subsection \<open>Extraction\<close>

lemma length_IPv4 [simp]: "length (IPv4 a b c d) = 16"
  by (simp add: IPv4_def)

lemma IPv4_inject [simp]:
  "IPv4 a b c d = IPv4 a' b' c' d' \<longleftrightarrow> a = a' \<and> b = b' \<and> c = c' \<and> d = d'"
  by (simp add: IPv4_def)

lemma be16_bytes [simp]:
  "ucast (drop_bit 8 (be16 b1 b2)) = b1" "ucast (be16 b1 b2 AND 255) = b2"
  by (simp_all only: be16_def or.right_neutral bytes_of_u16)

lemma be16_inject [simp]: "be16 a b = be16 c d \<longleftrightarrow> a = c \<and> b = d"
  by (metis be16_bytes)

lemma read_IPv4_in [go_simps]:
  assumes "0 \<le> p" and "nat p + 4 \<le> length pkt"
  shows "read_IPv4 pkt p =
    Ret (IPv4 (pkt ! nat p) (pkt ! (nat p + 1)) (pkt ! (nat p + 2)) (pkt ! (nat p + 3)))"
  using assms by (simp add: read_IPv4_def index_def nat_add_distrib)

lemma read_IPv4_last_out [go_simps]:
  assumes "0 \<le> p" and "length pkt \<le> nat p + 3"
  shows "read_IPv4 pkt p = Panic IndexOutOfRange"
  using assms by (simp add: read_IPv4_def index_def nat_add_distrib)

subsection \<open>Memset\<close>

lemma length_Memset_loop [simp]: "length (Memset_loop i xs) = length xs"
proof (induction i xs rule: Memset_loop.induct)
  case (1 i xs)
  then show ?case by (subst Memset_loop.simps) auto
qed

text \<open>One round doubles the initialised prefix.\<close>

lemma Memset_round:
  assumes "take i xs = replicate i v" and "i < length xs"
  shows "take (i * 2) (take i xs @ go_copy (drop i xs) (take i xs)) =
    replicate (min (i * 2) (length xs)) v"
proof (cases "i * 2 \<le> length xs")
  case True
  then have "go_copy (drop i xs) (take i xs) = replicate i v @ drop (i * 2) xs"
    using assms by (auto simp: go_copy_def min_def mult_2_right)
  then show ?thesis
    using assms True by (simp add: mult_2_right replicate_add [symmetric])
next
  case False
  then have "go_copy (drop i xs) (take i xs) = replicate (length xs - i) v"
    using assms by (simp add: go_copy_def)
  then show ?thesis
    using assms False by (simp add: mult_2_right replicate_add [symmetric] min_def)
qed

lemma Memset_loop_replicate:
  "0 < i \<Longrightarrow> take i xs = replicate (min i (length xs)) v \<Longrightarrow>
   Memset_loop i xs = replicate (length xs) v"
proof (induction i xs rule: Memset_loop.induct)
  case (1 i xs)
  show ?case
  proof (cases "i < length xs")
    case True
    let ?ys = "take i xs @ go_copy (drop i xs) (take i xs)"
    have len: "length ?ys = length xs" using True by simp
    from "1.prems" True have "take i xs = replicate i v" by simp
    then have "take (i * 2) ?ys = replicate (min (i * 2) (length ?ys)) v"
      using True len Memset_round [of i xs v] by (simp only:)
    with "1" True len have "Memset_loop (i * 2) ?ys = replicate (length xs) v" by auto
    with "1.prems" True show ?thesis by (simp add: Memset_loop.simps [of i xs])
  next
    case False
    with "1.prems" show ?thesis by (simp add: Memset_loop.simps [of i xs])
  qed
qed

section \<open>Properties\<close>

text \<open>
  \<open>FastPow\<close> on a non-negative exponent computes the power with one factor too many, modulo
  $2^{64}$: the accumulator starts at \<open>base\<close> and is multiplied \<open>exp\<close> more times. For a negative
  exponent it returns the base.
\<close>

theorem FastPow_one_factor_more:
  "FastPow base exp = (if 0 \<le> sint exp then base ^ (nat (sint exp) + 1) else base)"
  by (simp add: FastPow_def FastPow_loop_eq)

text \<open>
  \<open>fastMax\<close> of several values is the maximum of the first value and of the last position of the
  rest; the other values play no part.
\<close>

theorem fastMax_ignores_elements:
  "fastMax (v # w # rest) = max v (int (length rest))"
  by (simp add: fold_max_positions del: upt_Suc)

end
