(* ===== verification/Packet_Crc.thy ===== *)
theory Packet_Crc
  imports Bytes_Utils
begin

text \<open>
  The flow hash of a packet: \<open>src/utils/pkt_utils.go\<close>, \<open>PktCrc16\<close> of
  \<open>src/utils/rulemap.go\<close> and of \<open>src/tcp/tcp_handler.go\<close>.

  The checksum \<open>crc16.ChecksumIBM\<close> belongs to the package \<open>github.com/howeyc/crc16\<close>; it is
  the parameter \<open>ChecksumIBM\<close> of the definitions and nothing is assumed of it: the theorems say
  which bytes it is applied to.

  The interface \<open>packet_fields\<close> states what the two extractors of a package promise on packets
  of every length; \<open>PktCrc16\<close> is proved correct once, over that interface, and each package's
  extractors are an interpretation of it.
\<close>

section \<open>Definitions\<close>

abbreviation (input) UDP_IP_SRC_FIRST_BYTE :: int where "UDP_IP_SRC_FIRST_BYTE \<equiv> 12"
abbreviation (input) UDP_IP_TRG_FIRST_BYTE :: int where "UDP_IP_TRG_FIRST_BYTE \<equiv> 16"
abbreviation (input) UDP_SRC_FIRST_WORD :: int where "UDP_SRC_FIRST_WORD \<equiv> 20"
abbreviation (input) UDP_TRG_FIRST_WORD :: int where "UDP_TRG_FIRST_WORD \<equiv> 22"

definition GetIPsFromPkt :: "bytes \<Rightarrow> (bytes \<times> bytes \<times> error option) go" where
  "GetIPsFromPkt = GetIPsFromBytes UDP_IP_SRC_FIRST_BYTE UDP_IP_TRG_FIRST_BYTE"

definition GetPortsFromPkt :: "bytes \<Rightarrow> (u16 \<times> u16 \<times> error option) go" where
  "GetPortsFromPkt = GetPortsFromBytes UDP_SRC_FIRST_WORD (UDP_SRC_FIRST_WORD + 1)
     UDP_TRG_FIRST_WORD (UDP_TRG_FIRST_WORD + 1)"

abbreviation (input) TCP_IP_SRC_FIRST_BYTE :: int where "TCP_IP_SRC_FIRST_BYTE \<equiv> 12"
abbreviation (input) TCP_IP_TRG_FIRST_BYTE :: int where "TCP_IP_TRG_FIRST_BYTE \<equiv> 16"
abbreviation (input) TCP_SRC_FIRST_WORD :: int where "TCP_SRC_FIRST_WORD \<equiv> 20"
abbreviation (input) TCP_TRG_FIRST_WORD :: int where "TCP_TRG_FIRST_WORD \<equiv> 22"

definition tcp_GetIPsFromPkt :: "bytes \<Rightarrow> (bytes \<times> bytes \<times> error option) go" where
  "tcp_GetIPsFromPkt = GetIPsFromBytes TCP_IP_SRC_FIRST_BYTE TCP_IP_TRG_FIRST_BYTE"

definition tcp_GetPortsFromPkt :: "bytes \<Rightarrow> (u16 \<times> u16 \<times> error option) go" where
  "tcp_GetPortsFromPkt = GetPortsFromBytes TCP_SRC_FIRST_WORD (TCP_SRC_FIRST_WORD + 1)
     TCP_TRG_FIRST_WORD (TCP_TRG_FIRST_WORD + 1)"

text \<open>
  The body of \<open>PktCrc16\<close> is the same text in every package that has it; the two extractors are
  the package's own. \<open>bSlice\<close> starts as twelve zero bytes (\<open>make([]byte, 12)\<close>) and the fields
  are appended after them.
\<close>

definition PktCrc16_body ::
  "(bytes \<Rightarrow> u16) \<Rightarrow> (bytes \<Rightarrow> (bytes \<times> bytes \<times> error option) go) \<Rightarrow>
   (bytes \<Rightarrow> (u16 \<times> u16 \<times> error option) go) \<Rightarrow> bytes \<Rightarrow> (u16 \<times> error option) go" where
  "PktCrc16_body ChecksumIBM getIPs getPorts buff =
     (let bSlice = replicate 12 0 in
      go_bind (getIPs buff) (\<lambda>(srcIP, trgIP, err).
      if err \<noteq> None then Ret (0, Some ''Error reading IP addresses from packet!'')
      else
      go_bind (getPorts buff) (\<lambda>(src, trg, err).
      if err \<noteq> None
      then Ret (0, Some ''Error reading source and target addresses from packet!'')
      else
        let bSlice = bSlice @ srcIP;
            bSlice = bSlice @ trgIP;
            bSlice = bSlice @ [ucast (drop_bit 8 src), ucast (src AND 255)];
            bSlice = bSlice @ [ucast (drop_bit 8 trg), ucast (trg AND 255)]
        in Ret (ChecksumIBM bSlice, None))))"

definition PktCrc16 :: "(bytes \<Rightarrow> u16) \<Rightarrow> bytes \<Rightarrow> (u16 \<times> error option) go" where
  "PktCrc16 ChecksumIBM = PktCrc16_body ChecksumIBM GetIPsFromPkt GetPortsFromPkt"

definition tcp_PktCrc16 :: "(bytes \<Rightarrow> u16) \<Rightarrow> bytes \<Rightarrow> (u16 \<times> error option) go" where
  "tcp_PktCrc16 ChecksumIBM = PktCrc16_body ChecksumIBM tcp_GetIPsFromPkt tcp_GetPortsFromPkt"

text \<open>
  The specification side: the twelve bytes that identify a flow (source and target address,
  source and target port) and the 48 bytes the checksum is computed over.
\<close>

definition flow_key :: "bytes \<Rightarrow> bytes" where
  "flow_key p = take 12 (drop 12 p)"

definition hash_input :: "bytes \<Rightarrow> bytes" where
  "hash_input p =
     (let k = flow_key p in
      replicate 12 0 @ IPv4 (k ! 0) (k ! 1) (k ! 2) (k ! 3)
        @ IPv4 (k ! 4) (k ! 5) (k ! 6) (k ! 7) @ drop 8 k)"

section \<open>Lemmas\<close>

lemma flow_key_nth [simp]: "i < 12 \<Longrightarrow> 24 \<le> length p \<Longrightarrow> flow_key p ! i = p ! (12 + i)"
  by (simp add: flow_key_def)

lemma length_flow_key [simp]: "24 \<le> length p \<Longrightarrow> length (flow_key p) = 12"
  by (simp add: flow_key_def)

lemma length_12_cases:
  assumes "length k = 12"
  shows "k = [k ! 0, k ! 1, k ! 2, k ! 3, k ! 4, k ! 5, k ! 6, k ! 7, k ! 8, k ! 9, k ! 10, k ! 11]"
  using assms by (intro nth_equalityI) (auto simp: less_Suc_eq numeral_eq_Suc)

lemma drop_flow_key:
  assumes "24 \<le> length p"
  shows "drop 8 (flow_key p) = [p ! 20, p ! 21, p ! 22, p ! 23]"
  using assms by (subst length_12_cases [of "flow_key p"]) simp_all

lemma hash_input_inject:
  assumes "24 \<le> length p" and "24 \<le> length q"
  shows "hash_input p = hash_input q \<longleftrightarrow> flow_key p = flow_key q"
proof
  assume eq: "hash_input p = hash_input q"
  then show "flow_key p = flow_key q"
    using assms
    by (subst (1) length_12_cases [of "flow_key p"], simp, subst (1) length_12_cases [of "flow_key q"], simp)
       (auto simp: hash_input_def Let_def drop_flow_key)
qed (simp add: hash_input_def)

text \<open>The contract of the two extractors of a package, by the length of the packet.\<close>

locale packet_fields =
  fixes getIPs :: "bytes \<Rightarrow> (bytes \<times> bytes \<times> error option) go"
    and getPorts :: "bytes \<Rightarrow> (u16 \<times> u16 \<times> error option) go"
  assumes IPs_short: "length p < 19 \<Longrightarrow> \<exists>e. getIPs p = Ret ([], [], Some e)"
    and IPs_19: "length p = 19 \<Longrightarrow> getIPs p = Panic IndexOutOfRange"
    and IPs_ok: "20 \<le> length p \<Longrightarrow> getIPs p =
      Ret (IPv4 (p ! 12) (p ! 13) (p ! 14) (p ! 15), IPv4 (p ! 16) (p ! 17) (p ! 18) (p ! 19), None)"
    and ports_short: "length p < 4 \<Longrightarrow> \<exists>e. getPorts p = Ret (0, 0, Some e)"
    and ports_mid: "4 \<le> length p \<Longrightarrow> length p < 24 \<Longrightarrow> getPorts p = Panic IndexOutOfRange"
    and ports_ok: "24 \<le> length p \<Longrightarrow>
      getPorts p = Ret (be16 (p ! 20) (p ! 21), be16 (p ! 22) (p ! 23), None)"
begin

lemma crc_by_length:
  "PktCrc16_body ck getIPs getPorts p =
     (if length p < 19 then Ret (0, Some ''Error reading IP addresses from packet!'')
      else if length p < 24 then Panic IndexOutOfRange
      else Ret (ck (hash_input p), None))"
proof -
  consider "length p < 19" | "length p = 19" | "20 \<le> length p" "length p < 24" | "24 \<le> length p"
    by linarith
  then show ?thesis
  proof cases
    case 1
    then show ?thesis using IPs_short [of p] by (auto simp: PktCrc16_body_def)
  next
    case 2
    then show ?thesis by (simp add: PktCrc16_body_def IPs_19)
  next
    case 3
    then show ?thesis by (simp add: PktCrc16_body_def IPs_ok ports_mid)
  next
    case 4
    then show ?thesis
      by (simp add: PktCrc16_body_def IPs_ok ports_ok hash_input_def Let_def drop_flow_key)
  qed
qed

lemma crc_flow:
  assumes "24 \<le> length p" and "24 \<le> length q"
  shows "(\<forall>ck. PktCrc16_body ck getIPs getPorts p = PktCrc16_body ck getIPs getPorts q)
     \<longleftrightarrow> flow_key p = flow_key q"
proof
  assume eq: "\<forall>ck. PktCrc16_body ck getIPs getPorts p = PktCrc16_body ck getIPs getPorts q"
  define ck where "ck = (\<lambda>xs. if xs = hash_input p then 1 else 0 :: u16)"
  from eq have "ck (hash_input p) = ck (hash_input q)"
    using assms by (auto simp: crc_by_length)
  then have "hash_input q = hash_input p" by (simp add: ck_def split: if_splits)
  then show "flow_key p = flow_key q" using assms by (simp add: hash_input_inject)
next
  assume "flow_key p = flow_key q"
  then show "\<forall>ck. PktCrc16_body ck getIPs getPorts p = PktCrc16_body ck getIPs getPorts q"
    using assms by (simp add: crc_by_length hash_input_def)
qed

end

lemma GetPortsFromBytes_consecutive:
  "GetPortsFromBytes 20 21 22 23 p =
    (if length p < 4 then Ret (0, 0, Some ''Error provided byte slice with lenght lower than 4'')
     else if length p < 24 then Panic IndexOutOfRange
     else Ret (be16 (p ! 20) (p ! 21), be16 (p ! 22) (p ! 23), None))"
  by (auto simp: GetPortsFromBytes_def index_def Let_def)

lemmas extractor_simps = GetIPsFromBytes_def max_go_def go_simps GetPortsFromBytes_consecutive

interpretation udp_fields: packet_fields GetIPsFromPkt GetPortsFromPkt
  by unfold_locales (auto simp: GetIPsFromPkt_def GetPortsFromPkt_def extractor_simps)

interpretation tcp_fields: packet_fields tcp_GetIPsFromPkt tcp_GetPortsFromPkt
  by unfold_locales (auto simp: tcp_GetIPsFromPkt_def tcp_GetPortsFromPkt_def extractor_simps)

section \<open>Properties\<close>

text \<open>
  C35: \<open>PktCrc16\<close> by the length of the packet: up to 18 bytes it returns an error, from 24 bytes on
  the checksum of addresses and ports (behind twelve zero bytes, the addresses in 16-byte form), and
  in between it panics with an index out of range, because both length checks are too weak.
\<close>

theorem PktCrc16_by_length:
  "PktCrc16 ChecksumIBM p =
     (if length p < 19 then Ret (0, Some ''Error reading IP addresses from packet!'')
      else if length p < 24 then Panic IndexOutOfRange
      else Ret (ChecksumIBM (hash_input p), None))"
  unfolding PktCrc16_def by (rule udp_fields.crc_by_length)

text \<open>
  The flow of a packet is its two addresses and its two ports: two packets with complete headers
  have the same hash for every checksum function exactly when these twelve bytes agree.
\<close>

theorem PktCrc16_identifies_flow:
  assumes "24 \<le> length p" and "24 \<le> length q"
  shows "(\<forall>ck. PktCrc16 ck p = PktCrc16 ck q) \<longleftrightarrow> flow_key p = flow_key q"
  unfolding PktCrc16_def using assms by (rule udp_fields.crc_flow)

theorem PktCrc16_identifies_flow_witness:
  "\<forall>ck. PktCrc16 ck (replicate 12 1 @ replicate 12 2) = PktCrc16 ck (replicate 12 7 @ replicate 12 2 @ [9])"
proof -
  have "flow_key (replicate 12 1 @ replicate 12 2) = flow_key (replicate 12 7 @ replicate 12 2 @ [9])"
    by code_simp
  then show ?thesis
    using PktCrc16_identifies_flow [of "replicate 12 1 @ replicate 12 2" "replicate 12 7 @ replicate 12 2 @ [9]"]
    by simp
qed

end
