(* ===== verification/Buffers_Pool.thy ===== *)
theory Buffers_Pool
  imports Bytes_Utils "HOL-Library.Multiset"
begin

text \<open>
  The pool of byte buffers, \<open>src/utils/bytes_utils.go\<close> lines 75--139. Two buffered channels
  carry pointers to buffers: \<open>pool\<close> the free ones, \<open>cleanChan\<close> the released ones; the
  \<open>cleanUpRoutine\<close> goroutines move a buffer from the second to the first after zeroing it.
  A goroutine between its receive and its send holds one buffer: those are \<open>cleaning\<close>.

  The step relation interleaves the client (\<open>Next\<close>, writing to a buffer it holds, \<open>Release\<close>)
  with the goroutines; its invariant gives that no buffer is lost or shared, that a fresh buffer
  is zeroed and that neither \<open>Release\<close> nor the goroutines' send can wait.
\<close>

section \<open>Definitions\<close>

record BuffersPool =
  bp_pool :: "ptr list"
  bp_cleanChan :: "ptr list"
  bp_buffLst :: "ptr list"
  bp_buff :: "ptr \<Rightarrow> bytes"
  bp_cap :: nat \<comment> \<open>capacity of both channels\<close>
  bp_routines :: nat \<comment> \<open>number of \<open>cleanUpRoutine\<close> goroutines\<close>
  bp_cleaning :: "ptr list"

text \<open>The second loop of \<open>NewBuffersPool\<close>: buffer \<open>i\<close> is allocated and sent to the pool.\<close>

fun NewBuffersPool_fill :: "u16 \<Rightarrow> nat list \<Rightarrow> BuffersPool \<Rightarrow> BuffersPool go" where
  "NewBuffersPool_fill buffSize [] bp = Ret bp"
| "NewBuffersPool_fill buffSize (i # is) bp =
     go_bind (chan_send (bp_cap bp) (bp_pool bp) i) (\<lambda>ch.
       NewBuffersPool_fill buffSize is
         (bp\<lparr>bp_buff := (bp_buff bp)(i := replicate (unat buffSize) 0),
             bp_buffLst := bp_buffLst bp @ [i], bp_pool := ch\<rparr>))"

definition NewBuffersPool :: "u16 \<Rightarrow> u8 \<Rightarrow> BuffersPool go" where
  "NewBuffersPool buffSize poolSize =
     NewBuffersPool_fill buffSize [0..<unat poolSize]
       \<lparr>bp_pool = [], bp_cleanChan = [], bp_buffLst = [], bp_buff = (\<lambda>_. []), bp_cap = unat poolSize,
        bp_routines = unat (poolSize div 10), bp_cleaning = []\<rparr>"

text \<open>\<open>(*BuffersPool).Next\<close> and \<open>(*Buffer).Release\<close>.\<close>

definition Next_buffer :: "BuffersPool \<Rightarrow> (ptr \<times> BuffersPool) go" where
  "Next_buffer bp = go_bind (chan_recv (bp_pool bp)) (\<lambda>(b, ch). Ret (b, bp\<lparr>bp_pool := ch\<rparr>))"

definition Release :: "ptr \<Rightarrow> BuffersPool \<Rightarrow> BuffersPool go" where
  "Release b bp =
     go_bind (chan_send (bp_cap bp) (bp_cleanChan bp) b) (\<lambda>ch. Ret (bp\<lparr>bp_cleanChan := ch\<rparr>))"

text \<open>
  One round of \<open>cleanUpRoutine\<close>: the receive (by a goroutine that holds no buffer) with the
  \<open>Memset\<close>, then the send.
\<close>

definition cleanUp_receive :: "BuffersPool \<Rightarrow> BuffersPool go" where
  "cleanUp_receive bp =
     (if length (bp_cleaning bp) < bp_routines bp
      then go_bind (chan_recv (bp_cleanChan bp)) (\<lambda>(b, ch).
           Ret (bp\<lparr>bp_cleanChan := ch, bp_buff := (bp_buff bp)(b := Memset (bp_buff bp b) 0),
                   bp_cleaning := b # bp_cleaning bp\<rparr>))
      else Block)"

definition cleanUp_send :: "ptr \<Rightarrow> BuffersPool \<Rightarrow> BuffersPool go" where
  "cleanUp_send b bp =
     (if b \<in> set (bp_cleaning bp)
      then go_bind (chan_send (bp_cap bp) (bp_pool bp) b) (\<lambda>ch.
           Ret (bp\<lparr>bp_pool := ch, bp_cleaning := remove1 b (bp_cleaning bp)\<rparr>))
      else Block)"

text \<open>
  The pool with one client: the buffers it holds and the number of \<open>Next\<close> calls that returned.
\<close>

record pool_client =
  pl_bp :: BuffersPool
  pl_held :: "ptr list"
  pl_taken :: nat

inductive pool_step :: "pool_client \<Rightarrow> pool_client \<Rightarrow> bool" where
  take_buffer: "Next_buffer (pl_bp s) = Ret (b, p) \<Longrightarrow>
    pool_step s (s\<lparr>pl_bp := p, pl_held := b # pl_held s, pl_taken := Suc (pl_taken s)\<rparr>)"
| fill_buffer: "b \<in> set (pl_held s) \<Longrightarrow> length xs = length (bp_buff (pl_bp s) b) \<Longrightarrow>
    pool_step s (s\<lparr>pl_bp := (pl_bp s)\<lparr>bp_buff := (bp_buff (pl_bp s))(b := xs)\<rparr>\<rparr>)"
| release: "b \<in> set (pl_held s) \<Longrightarrow> Release b (pl_bp s) = Ret p \<Longrightarrow>
    pool_step s (s\<lparr>pl_bp := p, pl_held := remove1 b (pl_held s)\<rparr>)"
| clean_receive: "cleanUp_receive (pl_bp s) = Ret p \<Longrightarrow> pool_step s (s\<lparr>pl_bp := p\<rparr>)"
| clean_send: "cleanUp_send b (pl_bp s) = Ret p \<Longrightarrow> pool_step s (s\<lparr>pl_bp := p\<rparr>)"

inductive pool_reachable :: "u16 \<Rightarrow> u8 \<Rightarrow> pool_client \<Rightarrow> bool" for buffSize poolSize where
  pool_new: "NewBuffersPool buffSize poolSize = Ret p \<Longrightarrow>
    pool_reachable buffSize poolSize \<lparr>pl_bp = p, pl_held = [], pl_taken = 0\<rparr>"
| pool_next: "pool_reachable buffSize poolSize s \<Longrightarrow> pool_step s t \<Longrightarrow>
    pool_reachable buffSize poolSize t"

definition buffers_of :: "pool_client \<Rightarrow> ptr multiset" where
  "buffers_of s =
     mset (bp_pool (pl_bp s)) + mset (bp_cleanChan (pl_bp s)) + mset (bp_cleaning (pl_bp s)) + mset (pl_held s)"

definition pool_inv :: "u16 \<Rightarrow> u8 \<Rightarrow> pool_client \<Rightarrow> bool" where
  "pool_inv buffSize poolSize s \<longleftrightarrow>
     buffers_of s = mset [0..<unat poolSize] \<and>
     bp_cap (pl_bp s) = unat poolSize \<and> bp_routines (pl_bp s) = unat (poolSize div 10) \<and>
     length (bp_cleaning (pl_bp s)) \<le> bp_routines (pl_bp s) \<and>
     (\<forall>b < unat poolSize. length (bp_buff (pl_bp s) b) = unat buffSize) \<and>
     (\<forall>b \<in> set (bp_pool (pl_bp s)) \<union> set (bp_cleaning (pl_bp s)). bp_buff (pl_bp s) b = replicate (unat buffSize) 0)"

section \<open>Lemmas\<close>

lemma Memset_replicate [simp]: "Memset xs v = replicate (length xs) v"
proof (cases xs)
  case (Cons x ys)
  then show ?thesis
    by (simp add: Memset_def Memset_loop_replicate [where v = v] min_def)
qed (simp add: Memset_def)

lemma fill_eq:
  assumes "length (bp_pool p) + length is \<le> bp_cap p"
  shows "NewBuffersPool_fill sz is p = Ret (p\<lparr>bp_pool := bp_pool p @ is, bp_buffLst := bp_buffLst p @ is,
     bp_buff := (\<lambda>i. if i \<in> set is then replicate (unat sz) 0 else bp_buff p i)\<rparr>)"
  using assms
proof (induction "is" arbitrary: p)
  case Nil
  then show ?case by simp
next
  case (Cons i "is")
  then show ?case
    by (auto simp: chan_send_def fun_eq_iff intro!: arg_cong [where f = "\<lambda>f. p\<lparr>bp_pool := _, bp_buffLst := _, bp_buff := f\<rparr>"])
qed

lemma NewBuffersPool_eq:
  "NewBuffersPool sz n = Ret \<lparr>bp_pool = [0..<unat n], bp_cleanChan = [], bp_buffLst = [0..<unat n],
     bp_buff = (\<lambda>i. if i < unat n then replicate (unat sz) 0 else []), bp_cap = unat n,
     bp_routines = unat (n div 10), bp_cleaning = []\<rparr>"
  by (simp add: NewBuffersPool_def fill_eq fun_eq_iff)

lemmas pool_ops = Next_buffer_def Release_def cleanUp_receive_def cleanUp_send_def

text \<open>Each buffer is in exactly one place, so a buffer in one list is in none of the others.\<close>

lemma buffers_of_bound:
  assumes "buffers_of s = mset [0..<n]"
  shows "length (bp_pool (pl_bp s)) + length (bp_cleanChan (pl_bp s))
      + length (bp_cleaning (pl_bp s)) + length (pl_held s) = n"
    and "b \<in> set (bp_pool (pl_bp s)) \<union> set (bp_cleanChan (pl_bp s)) \<union> set (bp_cleaning (pl_bp s))
      \<union> set (pl_held s) \<Longrightarrow> b < n"
    and "count (buffers_of s) b \<le> 1"
proof -
  show "length (bp_pool (pl_bp s)) + length (bp_cleanChan (pl_bp s))
      + length (bp_cleaning (pl_bp s)) + length (pl_held s) = n"
    using arg_cong [OF assms, of size] by (simp add: buffers_of_def)
  show "b < n" if "b \<in> set (bp_pool (pl_bp s)) \<union> set (bp_cleanChan (pl_bp s))
      \<union> set (bp_cleaning (pl_bp s)) \<union> set (pl_held s)"
    using that arg_cong [OF assms, of set_mset] by (auto simp: buffers_of_def)
  show "count (buffers_of s) b \<le> 1"
    unfolding assms using distinct_count_atmost_1 [of "[0..<n]"] by (auto split: if_splits)
qed

lemma held_not_free:
  assumes "buffers_of s = mset [0..<n]" and "b \<in> set (pl_held s)"
  shows "b \<notin> set (bp_pool (pl_bp s))" and "b \<notin> set (bp_cleaning (pl_bp s))"
proof -
  have "count (buffers_of s) b \<le> 1" by (rule buffers_of_bound(3) [OF assms(1)])
  moreover have "0 < count (mset (pl_held s)) b"
    using assms(2) by (simp only: count_greater_zero_iff set_mset_mset)
  ultimately have "count (mset (bp_pool (pl_bp s))) b = 0"
    and "count (mset (bp_cleaning (pl_bp s))) b = 0"
    unfolding buffers_of_def count_union by linarith+
  then show "b \<notin> set (bp_pool (pl_bp s))" and "b \<notin> set (bp_cleaning (pl_bp s))"
    by (simp_all add: count_mset_0_iff)
qed

lemma pool_inv_new:
  "NewBuffersPool sz n = Ret p \<Longrightarrow> pool_inv sz n \<lparr>pl_bp = p, pl_held = [], pl_taken = 0\<rparr>"
  by (auto simp: pool_inv_def NewBuffersPool_eq buffers_of_def)

lemma pool_inv_step:
  assumes "pool_step s t" and "pool_inv sz n s"
  shows "pool_inv sz n t"
  using assms
proof (induction rule: pool_step.induct)
  case (take_buffer s b p)
  then show ?case by (auto simp: pool_inv_def buffers_of_def pool_ops)
next
  case (fill_buffer b s xs)
  then show ?case
    using held_not_free [of s "unat n" b] by (auto simp: pool_inv_def buffers_of_def)
next
  case (release b s p)
  then show ?case by (auto simp: pool_inv_def buffers_of_def pool_ops)
next
  case (clean_receive s p)
  then obtain b ch where "bp_cleanChan (pl_bp s) = b # ch"
    by (auto simp: pool_ops split: if_splits)
  moreover from this clean_receive have "b < unat n"
    using buffers_of_bound(2) [of s "unat n" b] by (auto simp: pool_inv_def)
  ultimately show ?case
    using clean_receive by (auto simp: pool_inv_def buffers_of_def pool_ops split: if_splits)
next
  case (clean_send b s p)
  then show ?case
    by (auto simp: pool_inv_def buffers_of_def pool_ops length_remove1 dest: notin_set_remove1 split: if_splits)
qed

lemma pool_reachable_inv: "pool_reachable sz n s \<Longrightarrow> pool_inv sz n s"
  by (induction rule: pool_reachable.induct) (auto intro: pool_inv_new pool_inv_step)

lemma pool_without_routines:
  assumes "pool_reachable sz n s" and "unat n < 10"
  shows "bp_cleaning (pl_bp s) = [] \<and> pl_taken s \<le> unat n \<and> bp_pool (pl_bp s) = [pl_taken s..<unat n]"
  using assms
proof (induction rule: pool_reachable.induct)
  case (pool_new p)
  then show ?case by (auto simp: NewBuffersPool_eq)
next
  case (pool_next s t)
  then have none: "bp_routines (pl_bp s) = 0"
    using pool_reachable_inv [of sz n s] by (simp add: pool_inv_def unat_div)
  with pool_next show ?case
    by (cases rule: pool_step.cases [OF \<open>pool_step s t\<close>])
      (auto simp: pool_ops upt_eq_Cons_conv split: if_splits)
qed

section \<open>Properties\<close>

text \<open>
  \<open>Memset\<close>'s doubling copy (\<open>bytes_utils.go\<close>) sets every byte of the slice to the value,
  whatever its length.
\<close>

theorem Memset_fills: "Memset sl v = replicate (length sl) v"
  by simp

text \<open>
  C19: in every reachable state of the buffer pool, whatever the interleaving of the client with
  the clean-up goroutines, the buffer that \<open>Next\<close> returns is all zeros, has the configured size
  and is held by nobody else.
\<close>

theorem Next_buffer_fresh:
  assumes "pool_reachable buffSize poolSize s" and "Next_buffer (pl_bp s) = Ret (b, p)"
  shows "bp_buff p b = replicate (unat buffSize) 0 \<and> b \<notin> set (pl_held s) \<and> b \<notin> set (bp_pool p)"
proof -
  from assms(1) have inv: "pool_inv buffSize poolSize s" by (rule pool_reachable_inv)
  then have ms: "buffers_of s = mset [0..<unat poolSize]" by (simp add: pool_inv_def)
  from assms(2) obtain ch where ch: "bp_pool (pl_bp s) = b # ch" and p: "p = (pl_bp s)\<lparr>bp_pool := ch\<rparr>"
    by (auto simp: pool_ops)
  have "b \<notin> set (pl_held s)"
    using held_not_free(1) [OF ms, of b] ch by auto
  moreover have "b \<notin> set ch"
  proof
    assume "b \<in> set ch"
    then have "0 < count (mset ch) b" by (simp only: count_greater_zero_iff set_mset_mset)
    with buffers_of_bound(3) [OF ms, of b] ch show False by (simp add: buffers_of_def)
  qed
  ultimately show ?thesis using inv ch p by (simp add: pool_inv_def)
qed

text \<open>
  a client that releases a buffer it holds never waits, and a clean-up goroutine never waits
  to put a zeroed buffer back: both channels are large enough in every reachable state.
\<close>

theorem Release_never_blocks:
  assumes "pool_reachable buffSize poolSize s"
  shows "(\<forall>b \<in> set (pl_held s). returns (Release b (pl_bp s)))
     \<and> (\<forall>b \<in> set (bp_cleaning (pl_bp s)). returns (cleanUp_send b (pl_bp s)))"
proof -
  from assms have inv: "pool_inv buffSize poolSize s" by (rule pool_reachable_inv)
  then have "buffers_of s = mset [0..<unat poolSize]" by (simp add: pool_inv_def)
  note len = buffers_of_bound(1) [OF this]
  have "length (bp_cleanChan (pl_bp s)) < unat poolSize" if "b \<in> set (pl_held s)" for b
    using len that length_pos_if_in_set [OF that] by linarith
  moreover have "length (bp_pool (pl_bp s)) < unat poolSize" if "b \<in> set (bp_cleaning (pl_bp s))" for b
    using len that length_pos_if_in_set [OF that] by linarith
  ultimately show ?thesis
    using inv by (auto simp: pool_ops chan_send_def pool_inv_def)
qed

text \<open>
  a pool of fewer than ten buffers starts no clean-up goroutine, so released buffers never
  come back: once as many buffers were taken as the pool had, \<open>Next\<close> waits forever.
\<close>

theorem small_pool_drains:
  assumes "pool_reachable buffSize poolSize s" and "unat poolSize < 10"
  shows "pl_taken s \<le> unat poolSize \<and> (Next_buffer (pl_bp s) = Block \<longleftrightarrow> pl_taken s = unat poolSize)"
proof -
  have pool: "pl_taken s \<le> unat poolSize" "bp_pool (pl_bp s) = [pl_taken s..<unat poolSize]"
    using pool_without_routines [OF assms] by auto
  then show ?thesis
    by (cases "pl_taken s < unat poolSize") (auto simp: pool_ops upt_conv_Cons)
qed

text \<open>
  Witnesses: pools of two and of one buffer of four bytes, before and after a first \<open>Next\<close>.
\<close>

definition pool_ex :: "u8 \<Rightarrow> pool_client" where
  "pool_ex n = \<lparr>pl_bp = \<lparr>bp_pool = [0..<unat n], bp_cleanChan = [], bp_buffLst = [0..<unat n],
     bp_buff = (\<lambda>i. if i < unat n then replicate (unat (4 :: u16)) 0 else []), bp_cap = unat n,
     bp_routines = unat (n div 10), bp_cleaning = []\<rparr>, pl_held = [], pl_taken = 0\<rparr>"

definition pool_ex_taken :: "u8 \<Rightarrow> pool_client" where
  "pool_ex_taken n = (pool_ex n)\<lparr>pl_bp := (pl_bp (pool_ex n))\<lparr>bp_pool := [1..<unat n]\<rparr>,
     pl_held := [0], pl_taken := 1\<rparr>"

lemma pool_ex_reachable: "pool_reachable 4 n (pool_ex n)"
  unfolding pool_ex_def by (rule pool_new) (simp add: NewBuffersPool_eq)

lemma pool_ex_Next:
  "0 < unat n \<Longrightarrow>
   Next_buffer (pl_bp (pool_ex n)) = Ret (0, (pl_bp (pool_ex n))\<lparr>bp_pool := [1..<unat n]\<rparr>)"
  by (simp add: pool_ex_def pool_ops upt_conv_Cons)

lemma pool_ex_taken_reachable:
  assumes "0 < unat n"
  shows "pool_reachable 4 n (pool_ex_taken n)"
proof (rule pool_next [OF pool_ex_reachable])
  from take_buffer [OF pool_ex_Next [OF assms]] show "pool_step (pool_ex n) (pool_ex_taken n)"
    by (simp add: pool_ex_taken_def pool_ex_def)
qed

theorem Next_buffer_fresh_witness:
  "\<exists>b p. Next_buffer (pl_bp (pool_ex 2)) = Ret (b, p) \<and> bp_buff p b = [0, 0, 0, 0]"
proof -
  have zeros: "replicate (unat (4 :: u16)) (0 :: u8) = [0, 0, 0, 0]" by code_simp
  have nx: "Next_buffer (pl_bp (pool_ex 2)) = Ret (0, (pl_bp (pool_ex 2))\<lparr>bp_pool := [1..<unat (2 :: u8)]\<rparr>)"
    by (rule pool_ex_Next) simp
  from nx Next_buffer_fresh [OF pool_ex_reachable nx] show ?thesis unfolding zeros by blast
qed

theorem Release_never_blocks_witness: "returns (Release 0 (pl_bp (pool_ex_taken 2)))"
  using Release_never_blocks [OF pool_ex_taken_reachable, of 2] by (simp add: pool_ex_taken_def)

theorem small_pool_drains_witness: "Next_buffer (pl_bp (pool_ex_taken 1)) = Block"
  using small_pool_drains [OF pool_ex_taken_reachable, of 1] by (simp add: pool_ex_taken_def)

end
