(* ===== verification/Conn_Pool.thy ===== *)
theory Conn_Pool
  imports Go_Prelude
begin

text \<open>
  \<open>Container\<close>, \<open>ConnPool\<close> and the list operations of \<open>ConnPoolElem\<close> of
  \<open>src/utils/rulemap.go\<close>: the pool keeps its elements in a circular doubly linked list, with a
  cursor that \<open>Next\<close> advances. The elements are cells of an explicit heap, since \<open>Delete\<close>
  rewires the neighbours through their pointers and other components keep pointers to deleted
  elements.

  \<open>ring cp xs\<close> relates a pool to the list of its live elements; every operation is proved to
  refine the list operation it stands for. The interface \<open>round_robin\<close> states what the clients
  of the pool rely on.
\<close>

section \<open>Definitions\<close>

subsection \<open>Containers\<close>

record Container =
  c_Addr :: bytes
  c_Port :: u16
  c_Fluxes :: i8
  c_Id :: u16
  c_Repl :: bool
  c_MaxFluxes :: i8

definition IncFluxes :: "Container \<Rightarrow> Container" where
  "IncFluxes c = c\<lparr>c_Fluxes := c_Fluxes c + 1\<rparr>"

definition DecFluxes :: "Container \<Rightarrow> Container" where
  "DecFluxes c = (if 1 < sint (c_Fluxes c) then c\<lparr>c_Fluxes := c_Fluxes c - 1\<rparr> else c\<lparr>c_Fluxes := 0\<rparr>)"

definition GetFluxes :: "Container \<Rightarrow> i8" where
  "GetFluxes c = c_Fluxes c"

definition GetMaxFluxes :: "Container \<Rightarrow> i8" where
  "GetMaxFluxes c = c_MaxFluxes c"

subsection \<open>The pool and its elements\<close>

text \<open>
  A \<open>*net.UDPConn\<close> is a handle, or nil when \<open>UDPConnFactory\<close> failed. \<open>e_ports\<close> is the key list
  of \<open>map[uint16]bool\<close>, \<open>e_stopped\<close> says that \<open>stopChan\<close> is closed and \<open>e_crc2ConnMap\<close> that the
  pointer to the map is not nil. The fields \<open>mu\<close> and \<open>connPool\<close> of an element are those of the
  pool that allocated it.
\<close>

type_synonym conn = nat

record ConnPoolElem =
  e_conn :: "conn option"
  e_prev :: "ptr option"
  e_next :: "ptr option"
  e_crc2ConnMap :: bool
  e_ports :: "u16 list"
  e_container :: "ptr option"
  e_stopped :: bool

record ConnPool =
  currElem :: "ptr option"
  headElem :: "ptr option"
  tailElem :: "ptr option"
  elems :: "ptr \<Rightarrow> ConnPoolElem"
  nextElem :: ptr \<comment> \<open>the next address to allocate\<close>

definition nil_elem :: ConnPoolElem where
  "nil_elem = \<lparr>e_conn = None, e_prev = None, e_next = None, e_crc2ConnMap = False, e_ports = [],
     e_container = None, e_stopped = False\<rparr>"

definition NewConnPool :: ConnPool where
  "NewConnPool = \<lparr>currElem = None, headElem = None, tailElem = None, elems = (\<lambda>_. nil_elem), nextElem = 0\<rparr>"

definition upd_elem :: "ptr \<Rightarrow> (ConnPoolElem \<Rightarrow> ConnPoolElem) \<Rightarrow> ConnPool \<Rightarrow> ConnPool" where
  "upd_elem p f cp = cp\<lparr>elems := (elems cp)(p := f (elems cp p))\<rparr>"

definition ConnPool_Add :: "conn option \<Rightarrow> ptr \<Rightarrow> ConnPool \<Rightarrow> (ptr \<times> ConnPool) go" where
  "ConnPool_Add conn container cp =
     (let elem = nextElem cp;
          cp = cp\<lparr>elems := (elems cp)(elem :=
                   \<lparr>e_conn = conn, e_prev = None, e_next = None, e_crc2ConnMap = True,
                    e_ports = [], e_container = Some container, e_stopped = False\<rparr>),
                  nextElem := Suc elem\<rparr>
      in case headElem cp of
           None \<Rightarrow>
             let cp = cp\<lparr>headElem := Some elem, tailElem := Some elem\<rparr>;
                 cp = upd_elem elem (\<lambda>e. e\<lparr>e_next := Some elem, e_prev := Some elem\<rparr>) cp
             in Ret (elem, cp\<lparr>currElem := headElem cp\<rparr>)
         | Some head \<Rightarrow>
             go_bind (deref (tailElem cp)) (\<lambda>tail.
             let cp = upd_elem tail (\<lambda>e. e\<lparr>e_next := Some elem\<rparr>) cp;
                 cp = upd_elem elem (\<lambda>e. e\<lparr>e_prev := Some tail, e_next := Some head\<rparr>) cp;
                 cp = upd_elem head (\<lambda>e. e\<lparr>e_prev := Some elem\<rparr>) cp
             in Ret (elem, cp\<lparr>tailElem := Some elem\<rparr>)))"

definition ConnPool_Next :: "ConnPool \<Rightarrow> (ptr \<times> ConnPool) go" where
  "ConnPool_Next cp =
     go_bind (deref (currElem cp)) (\<lambda>res. Ret (res, cp\<lparr>currElem := e_next (elems cp res)\<rparr>))"

definition AddCrc :: "u16 \<Rightarrow> ptr \<Rightarrow> ConnPool \<Rightarrow> ConnPool" where
  "AddCrc crc ce = upd_elem ce (\<lambda>e. e\<lparr>e_ports := (if crc \<in> set (e_ports e) then e_ports e else e_ports e @ [crc])\<rparr>)"

definition IsAlive :: "ptr \<Rightarrow> ConnPool \<Rightarrow> bool" where
  "IsAlive ce cp \<longleftrightarrow> e_prev (elems cp ce) \<noteq> None"

subsection \<open>Delete: the two critical sections on the list\<close>

text \<open>
  The first critical section of \<open>Delete\<close>; the flag says that the element was already deleted,
  where the method returns. The second one closes \<open>stopChan\<close> and clears the links.
\<close>

definition Delete_unlink :: "ptr \<Rightarrow> ConnPool \<Rightarrow> bool \<times> ConnPool" where
  "Delete_unlink ce cp =
     (if e_next (elems cp ce) = Some ce
      then (False, cp\<lparr>headElem := None, tailElem := None\<rparr>)
      else case (e_prev (elems cp ce), e_next (elems cp ce)) of
        (Some p, Some n) \<Rightarrow>
          let cp = upd_elem p (\<lambda>e. e\<lparr>e_next := Some n\<rparr>) cp;
              cp = upd_elem n (\<lambda>e. e\<lparr>e_prev := Some p\<rparr>) cp;
              cp = (if currElem cp = Some ce then cp\<lparr>currElem := e_next (elems cp ce)\<rparr> else cp);
              cp = (if headElem cp = Some ce then cp\<lparr>headElem := e_next (elems cp ce)\<rparr> else cp);
              cp = (if tailElem cp = Some ce then cp\<lparr>tailElem := e_prev (elems cp ce)\<rparr> else cp)
          in (False, cp)
      | _ \<Rightarrow> (True, upd_elem ce (\<lambda>e. e\<lparr>e_conn := None, e_container := None, e_crc2ConnMap := False\<rparr>) cp))"

definition Delete_close :: "ptr \<Rightarrow> ConnPool \<Rightarrow> ConnPool go" where
  "Delete_close ce cp =
     (if e_stopped (elems cp ce) then Panic CloseOfClosedChannel
      else Ret (upd_elem ce (\<lambda>e. e\<lparr>e_stopped := True, e_next := None, e_prev := None\<rparr>) cp))"

subsection \<open>The two size loops\<close>

text \<open>\<open>Size\<close> leaves its loop after six rounds.\<close>

function Size_loop :: "ConnPool \<Rightarrow> ptr option \<Rightarrow> nat \<Rightarrow> nat go" where
  "Size_loop cp cur i =
     (if cur \<noteq> tailElem cp then
        (if 5 < i then Ret i
         else go_bind (deref cur) (\<lambda>e. Size_loop cp (e_next (elems cp e)) (Suc i)))
      else Ret i)"
  by pat_completeness auto
termination by (relation "measure (\<lambda>(cp, cur, i). 6 - i)") auto

declare Size_loop.simps [simp del]

definition ConnPool_Size :: "ConnPool \<Rightarrow> nat go" where
  "ConnPool_Size cp = Size_loop cp (headElem cp) 0"

partial_function (option) SizeNoLock_loop :: "ConnPool \<Rightarrow> ptr option \<Rightarrow> nat \<Rightarrow> nat go option" where
  "SizeNoLock_loop cp cur i =
     (if cur \<noteq> tailElem cp then
        (case cur of None \<Rightarrow> Some (Panic NilDereference)
         | Some e \<Rightarrow> SizeNoLock_loop cp (e_next (elems cp e)) (Suc i))
      else Some (Ret i))"

definition ConnPool_SizeNoLock :: "ConnPool \<Rightarrow> nat go option" where
  "ConnPool_SizeNoLock cp =
     (if headElem cp = None then Some (Ret 0) else SizeNoLock_loop cp (headElem cp) 1)"

subsection \<open>The abstraction\<close>

text \<open>
  \<open>ring cp xs\<close>: the live elements of the pool, from \<open>headElem\<close> to \<open>tailElem\<close>, are \<open>xs\<close>; the
  cursor is on one of them unless there is none; every other allocated element is dead, with
  its links cleared and its channel closed.
\<close>

definition links :: "ConnPool \<Rightarrow> ptr list \<Rightarrow> bool" where
  "links cp xs \<longleftrightarrow> (\<forall>(a, b) \<in> ring_pairs xs. e_next (elems cp a) = Some b \<and> e_prev (elems cp b) = Some a)"

definition dead :: "ConnPoolElem \<Rightarrow> bool" where
  "dead e \<longleftrightarrow> e_next e = None \<and> e_prev e = None \<and> e_stopped e"

definition ring :: "ConnPool \<Rightarrow> ptr list \<Rightarrow> bool" where
  "ring cp xs \<longleftrightarrow>
     distinct xs \<and> links cp xs \<and>
     headElem cp = (if xs = [] then None else Some (hd xs)) \<and>
     tailElem cp = (if xs = [] then None else Some (last xs)) \<and>
     (xs \<noteq> [] \<longrightarrow> currElem cp \<in> Some ` set xs) \<and>
     (\<forall>x \<in> set xs. x < nextElem cp \<and> \<not> e_stopped (elems cp x)) \<and>
     (\<forall>x < nextElem cp. x \<notin> set xs \<longrightarrow> dead (elems cp x))"

text \<open>Two cells that differ in their links and their channel only.\<close>

definition same_data :: "ConnPoolElem \<Rightarrow> ConnPoolElem \<Rightarrow> bool" where
  "same_data e e' \<longleftrightarrow> e_conn e = e_conn e' \<and> e_ports e = e_ports e' \<and> e_container e = e_container e'
     \<and> e_crc2ConnMap e = e_crc2ConnMap e'"

text \<open>The same with the position of the cursor.\<close>

definition ring_at :: "ConnPool \<Rightarrow> ptr list \<Rightarrow> nat \<Rightarrow> bool" where
  "ring_at cp xs k \<longleftrightarrow> ring cp xs \<and> k < length xs \<and> currElem cp = Some (xs ! k)"

subsection \<open>The specification of the pool\<close>

text \<open>
  What the pool promises: a list of members in insertion order, a cursor that \<open>Next\<close> moves to
  the cyclic successor, and fresh addresses for new members. Deleting an element that is not a
  member changes nothing.
\<close>

datatype pool_op = OpAdd "conn option" ptr | OpNext | OpDelete ptr

record ring_spec =
  r_members :: "ptr list"
  r_cursor :: ptr
  r_fresh :: ptr

definition ring_succ :: "ptr list \<Rightarrow> ptr \<Rightarrow> ptr" where
  "ring_succ xs x = (case dropWhile (\<lambda>y. y \<noteq> x) xs of _ # y # _ \<Rightarrow> y | _ \<Rightarrow> hd xs)"

fun spec_enabled :: "pool_op \<Rightarrow> ring_spec \<Rightarrow> bool" where
  "spec_enabled (OpAdd cn c) a = True"
| "spec_enabled OpNext a = (r_members a \<noteq> [])"
| "spec_enabled (OpDelete x) a = (x < r_fresh a)"

fun spec_step :: "pool_op \<Rightarrow> ring_spec \<Rightarrow> ptr option \<times> ring_spec" where
  "spec_step (OpAdd cn c) a =
     (Some (r_fresh a), a\<lparr>r_members := r_members a @ [r_fresh a],
        r_cursor := (if r_members a = [] then r_fresh a else r_cursor a), r_fresh := Suc (r_fresh a)\<rparr>)"
| "spec_step OpNext a = (Some (r_cursor a), a\<lparr>r_cursor := ring_succ (r_members a) (r_cursor a)\<rparr>)"
| "spec_step (OpDelete x) a =
     (None, a\<lparr>r_members := remove1 x (r_members a),
        r_cursor := (if r_cursor a = x \<and> x \<in> set (r_members a) then ring_succ (r_members a) x else r_cursor a)\<rparr>)"

fun spec_run :: "pool_op list \<Rightarrow> ring_spec \<Rightarrow> ptr option list \<times> ring_spec" where
  "spec_run [] a = ([], a)"
| "spec_run (x # xs) a =
     (let (r, a') = spec_step x a; (rs, a'') = spec_run xs a' in (r # rs, a''))"

fun spec_enabled_run :: "pool_op list \<Rightarrow> ring_spec \<Rightarrow> bool" where
  "spec_enabled_run [] a = True"
| "spec_enabled_run (x # xs) a = (spec_enabled x a \<and> spec_enabled_run xs (snd (spec_step x a)))"

text \<open>The list part of the code's operations, and a run of them.\<close>

fun pool_exec :: "pool_op \<Rightarrow> ConnPool \<Rightarrow> (ptr option \<times> ConnPool) go" where
  "pool_exec (OpAdd cn c) cp = go_bind (ConnPool_Add cn c cp) (\<lambda>(e, cp'). Ret (Some e, cp'))"
| "pool_exec OpNext cp = go_bind (ConnPool_Next cp) (\<lambda>(e, cp'). Ret (Some e, cp'))"
| "pool_exec (OpDelete x) cp =
     (case Delete_unlink x cp of
        (True, cp') \<Rightarrow> Ret (None, cp')
      | (False, cp') \<Rightarrow> go_bind (Delete_close x cp') (\<lambda>cp''. Ret (None, cp'')))"

fun pool_run :: "pool_op list \<Rightarrow> ConnPool \<Rightarrow> (ptr option list \<times> ConnPool) go" where
  "pool_run [] cp = Ret ([], cp)"
| "pool_run (x # xs) cp =
     go_bind (pool_exec x cp) (\<lambda>(r, cp'). go_bind (pool_run xs cp') (\<lambda>(rs, cp''). Ret (r # rs, cp'')))"

definition pool_rel :: "ConnPool \<Rightarrow> ring_spec \<Rightarrow> bool" where
  "pool_rel cp a \<longleftrightarrow> ring cp (r_members a) \<and> nextElem cp = r_fresh a
     \<and> (r_members a \<noteq> [] \<longrightarrow> currElem cp = Some (r_cursor a))"

section \<open>Lemmas\<close>

subsection \<open>Counters\<close>

lemma IncFluxes_fields [simp]:
  "c_MaxFluxes (IncFluxes c) = c_MaxFluxes c" "c_Addr (IncFluxes c) = c_Addr c"
  "c_Port (IncFluxes c) = c_Port c" "c_Id (IncFluxes c) = c_Id c" "c_Repl (IncFluxes c) = c_Repl c"
  by (simp_all add: IncFluxes_def)

lemma DecFluxes_fields [simp]:
  "c_MaxFluxes (DecFluxes c) = c_MaxFluxes c" "c_Addr (DecFluxes c) = c_Addr c"
  "c_Port (DecFluxes c) = c_Port c" "c_Id (DecFluxes c) = c_Id c" "c_Repl (DecFluxes c) = c_Repl c"
  by (simp_all add: DecFluxes_def)

lemma sint_IncFluxes:
  "sint (c_Fluxes (IncFluxes c)) = (if sint (c_Fluxes c) = 127 then -128 else sint (c_Fluxes c) + 1)"
proof (cases "sint (c_Fluxes c) = 127")
  case True
  then have "c_Fluxes c = 127" by (intro sint_eqD) simp
  then show ?thesis by (simp add: IncFluxes_def)
next
  case False
  then show ?thesis
    using sint_bounds [of "c_Fluxes c"] by (simp add: IncFluxes_def sint_add_small)
qed

subsection \<open>Heap cells and links\<close>

lemma elems_upd_elem [simp]:
  "elems (upd_elem p f cp) = (elems cp)(p := f (elems cp p))"
  "currElem (upd_elem p f cp) = currElem cp" "headElem (upd_elem p f cp) = headElem cp"
  "tailElem (upd_elem p f cp) = tailElem cp" "nextElem (upd_elem p f cp) = nextElem cp"
  by (simp_all add: upd_elem_def)

lemma links_next: "links cp xs \<Longrightarrow> (a, b) \<in> ring_pairs xs \<Longrightarrow> e_next (elems cp a) = Some b"
  by (auto simp: links_def)

lemma links_prev: "links cp xs \<Longrightarrow> (a, b) \<in> ring_pairs xs \<Longrightarrow> e_prev (elems cp b) = Some a"
  by (auto simp: links_def)

text \<open>
  Rewiring around one element. Both \<open>Add\<close> and \<open>Delete\<close> change the successor of some elements
  and the predecessor of others; the new ring is linked when its pairs agree with the changes.
\<close>

lemma linksI:
  assumes "\<And>a b. (a, b) \<in> ring_pairs ys \<Longrightarrow> e_next (elems cp a) = Some b"
    and "\<And>a b. (a, b) \<in> ring_pairs ys \<Longrightarrow> e_prev (elems cp b) = Some a"
  shows "links cp ys"
  using assms by (auto simp: links_def)

lemma ring_alloc: "ring cp xs \<Longrightarrow> nextElem cp \<notin> set xs"
  by (auto simp: ring_def)

lemma ring_NewConnPool: "ring NewConnPool []"
  by (simp add: ring_def NewConnPool_def links_def)

lemma ring_IsAlive:
  assumes "ring cp xs" and "x < nextElem cp"
  shows "IsAlive x cp \<longleftrightarrow> x \<in> set xs"
proof (cases "x \<in> set xs")
  case True
  then obtain i where i: "i < length xs" "xs ! i = x" by (auto simp: in_set_conv_nth)
  define j where "j = (i + length xs - 1) mod length xs"
  have j: "j < length xs" "Suc j mod length xs = i"
  proof -
    show "j < length xs" using i unfolding j_def by (intro mod_less_divisor) auto
    have "Suc j mod length xs = Suc (i + length xs - 1) mod length xs"
      by (simp add: j_def mod_Suc_eq)
    also have "Suc (i + length xs - 1) = i + length xs" using i by linarith
    finally have "Suc j mod length xs = (i + length xs) mod length xs" .
    also have "\<dots> = i" using i(1) by simp
    finally show "Suc j mod length xs = i" .
  qed
  then have "(xs ! j, x) \<in> ring_pairs xs" using i by (auto simp: ring_pairs_nth)
  then have "e_prev (elems cp x) = Some (xs ! j)"
    using assms(1) by (auto simp: ring_def dest: links_prev)
  with True show ?thesis by (simp add: IsAlive_def)
next
  case False
  with assms show ?thesis by (auto simp: ring_def IsAlive_def dead_def)
qed

subsection \<open>Next\<close>

lemma ring_at_ex: "ring cp xs \<Longrightarrow> xs \<noteq> [] \<Longrightarrow> \<exists>k. ring_at cp xs k"
  by (auto simp: ring_def ring_at_def in_set_conv_nth)

lemma ring_Next:
  assumes "ring_at cp xs k"
  shows "\<exists>cp'. ConnPool_Next cp = Ret (xs ! k, cp') \<and> ring_at cp' xs (Suc k mod length xs)
    \<and> nextElem cp' = nextElem cp \<and> elems cp' = elems cp"
proof -
  from assms have r: "ring cp xs" and k: "k < length xs" and cur: "currElem cp = Some (xs ! k)"
    by (auto simp: ring_at_def)
  from k have "(xs ! k, xs ! (Suc k mod length xs)) \<in> ring_pairs xs"
    by (auto simp: ring_pairs_nth)
  then have "e_next (elems cp (xs ! k)) = Some (xs ! (Suc k mod length xs))"
    using r by (auto simp: ring_def dest: links_next)
  moreover have "Suc k mod length xs < length xs" using k by (intro mod_less_divisor) auto
  ultimately show ?thesis
    using r k cur by (auto simp: ConnPool_Next_def ring_at_def ring_def links_def)
qed

subsection \<open>Add\<close>

lemma links_Add:
  assumes l: "links cp xs" and d: "distinct xs" and ne: "xs \<noteq> []" and e: "e \<notin> set xs"
    and nx: "\<And>x. e_next (h x) = (if x = e then Some (hd xs) else if x = last xs then Some e else e_next (elems cp x))"
    and pv: "\<And>x. e_prev (h x) = (if x = e then Some (last xs) else if x = hd xs then Some e else e_prev (elems cp x))"
  shows "links (cp\<lparr>elems := h\<rparr>) (xs @ [e])"
proof -
  have pairs: "ring_pairs (xs @ [e]) = insert (e, hd xs) (set (zip xs (tl xs)) \<union> {(last xs, e)})"
    using ring_pairs_swap [of xs "[e]"] ring_pairs_Cons(2) [OF ne, of e] by simp
  have old: "ring_pairs xs = set (zip xs (tl xs)) \<union> {(last xs, hd xs)}"
    by (rule ring_pairs_Cons(1) [OF ne])
  show ?thesis
  proof (rule linksI)
    fix a b assume "(a, b) \<in> ring_pairs (xs @ [e])"
    then consider "a = e" "b = hd xs" | "a = last xs" "b = e" | "(a, b) \<in> set (zip xs (tl xs))"
      unfolding pairs by blast
    then have "e_next (h a) = Some b \<and> e_prev (h b) = Some a"
    proof cases
      case 1
      then show ?thesis using ne e by (auto simp: nx pv)
    next
      case 2
      then show ?thesis using ne e by (auto simp: nx pv)
    next
      case 3
      then show ?thesis
        using zip_tl_inner [OF d 3] e l old by (auto simp: nx pv links_def)
    qed
    then show "e_next (elems (cp\<lparr>elems := h\<rparr>) a) = Some b" and "e_prev (elems (cp\<lparr>elems := h\<rparr>) b) = Some a"
      by simp_all
  qed
qed

lemma ConnPool_Add_nonempty:
  assumes "headElem cp = Some hp" and "tailElem cp = Some tp" and "hp \<noteq> nextElem cp" and "tp \<noteq> nextElem cp"
  shows "ConnPool_Add conn c cp = Ret (nextElem cp, cp\<lparr>elems := (\<lambda>x.
      if x = nextElem cp then \<lparr>e_conn = conn, e_prev = Some tp, e_next = Some hp, e_crc2ConnMap = True,
        e_ports = [], e_container = Some c, e_stopped = False\<rparr>
      else (elems cp x)\<lparr>e_next := (if x = tp then Some (nextElem cp) else e_next (elems cp x)),
        e_prev := (if x = hp then Some (nextElem cp) else e_prev (elems cp x))\<rparr>),
      nextElem := Suc (nextElem cp), tailElem := Some (nextElem cp)\<rparr>)"
  using assms
  by (cases cp) (auto simp: ConnPool_Add_def Let_def upd_elem_def fun_eq_iff intro!: ConnPoolElem.equality)

lemma ring_Add:
  assumes r: "ring cp xs"
  shows "\<exists>cp'. ConnPool_Add conn c cp = Ret (nextElem cp, cp') \<and> ring cp' (xs @ [nextElem cp])
    \<and> currElem cp' = (if xs = [] then Some (nextElem cp) else currElem cp)
    \<and> nextElem cp' = Suc (nextElem cp)
    \<and> e_conn (elems cp' (nextElem cp)) = conn \<and> e_container (elems cp' (nextElem cp)) = Some c
    \<and> e_ports (elems cp' (nextElem cp)) = [] \<and> e_crc2ConnMap (elems cp' (nextElem cp))
    \<and> (\<forall>x. x \<noteq> nextElem cp \<longrightarrow> same_data (elems cp' x) (elems cp x))"
proof (cases "xs = []")
  case True
  with r show ?thesis
    by (auto simp: ConnPool_Add_def ring_def links_def Let_def less_Suc_eq dead_def same_data_def)
next
  case False
  let ?e = "nextElem cp"
  from r have e: "?e \<notin> set xs" by (rule ring_alloc)
  have hl: "hd xs \<in> set xs" "last xs \<in> set xs" using False by auto
  have ht: "headElem cp = Some (hd xs)" "tailElem cp = Some (last xs)"
    using r False by (auto simp: ring_def)
  have ne: "hd xs \<noteq> ?e" "last xs \<noteq> ?e" using hl e by auto
  define h where "h = (\<lambda>x. if x = ?e then \<lparr>e_conn = conn, e_prev = Some (last xs), e_next = Some (hd xs),
        e_crc2ConnMap = True, e_ports = [], e_container = Some c, e_stopped = False\<rparr>
      else (elems cp x)\<lparr>e_next := (if x = last xs then Some ?e else e_next (elems cp x)),
        e_prev := (if x = hd xs then Some ?e else e_prev (elems cp x))\<rparr>)"
  define cp' where "cp' = cp\<lparr>elems := h, nextElem := Suc ?e, tailElem := Some ?e\<rparr>"
  have A: "ConnPool_Add conn c cp = Ret (?e, cp')"
    unfolding cp'_def h_def by (rule ConnPool_Add_nonempty [OF ht ne])
  have "links (cp\<lparr>elems := h\<rparr>) (xs @ [?e])"
    using r False e by (intro links_Add) (auto simp: ring_def h_def)
  then have "links cp' (xs @ [?e])" by (simp add: links_def cp'_def)
  moreover have "dead (h x)" if "x < ?e" "x \<notin> set xs" for x
    using that r hl by (auto simp: ring_def dead_def h_def)
  ultimately have "ring cp' (xs @ [?e])"
    using r False e by (auto simp: ring_def less_Suc_eq cp'_def h_def)
  with A False show ?thesis by (auto simp: cp'_def h_def same_data_def)
qed

subsection \<open>Delete\<close>

lemma ring_neighbours:
  assumes d: "distinct xs" and x: "x \<in> set xs" and ne: "remove1 x xs \<noteq> []"
  obtains ys where "ring_pairs (remove1 x xs) = ring_pairs ys" and "ring_pairs xs = ring_pairs (x # ys)"
    and "set ys = set xs - {x}" and "distinct ys" and "ys \<noteq> []"
proof -
  from x obtain as bs where xs: "xs = as @ x # bs" and as: "x \<notin> set as" by (meson split_list_first)
  then have r: "remove1 x xs = as @ bs" by (simp add: remove1_append)
  show thesis
  proof (rule that [of "bs @ as"])
    show "ring_pairs (remove1 x xs) = ring_pairs (bs @ as)" unfolding r by (rule ring_pairs_swap)
    show "ring_pairs xs = ring_pairs (x # bs @ as)" using ring_pairs_swap [of as "x # bs"] by (simp add: xs)
    show "set (bs @ as) = set xs - {x}" and "distinct (bs @ as)" using d xs by auto
    show "bs @ as \<noteq> []" using ne r by auto
  qed
qed

lemma links_Delete:
  assumes l: "links cp xs" and d: "distinct xs" and x: "x \<in> set xs" and ne: "remove1 x xs \<noteq> []"
    and p: "(p, x) \<in> ring_pairs xs" and n: "(x, n) \<in> ring_pairs xs"
    and nx: "\<And>a. a \<noteq> x \<Longrightarrow> e_next (h a) = (if a = p then Some n else e_next (elems cp a))"
    and pv: "\<And>a. a \<noteq> x \<Longrightarrow> e_prev (h a) = (if a = n then Some p else e_prev (elems cp a))"
  shows "links (cp\<lparr>elems := h\<rparr>) (remove1 x xs)"
proof -
  obtain ys where ys: "ring_pairs (remove1 x xs) = ring_pairs ys" "ring_pairs xs = ring_pairs (x # ys)"
    "set ys = set xs - {x}" "distinct ys" "ys \<noteq> []"
    using ring_neighbours [OF d x ne] .
  have dx: "distinct (x # ys)" using ys by simp
  have pairs: "ring_pairs xs = insert (x, hd ys) (set (zip ys (tl ys)) \<union> {(last ys, x)})"
    using ring_pairs_Cons(2) [OF ys(5)] ys(2) by simp
  have n': "n = hd ys" using ring_pairs_functional [OF d n, of "hd ys"] pairs by blast
  have p': "p = last ys" using ring_pairs_injective [OF d p, of "last ys"] pairs by blast
  show ?thesis
  proof (rule linksI)
    fix a b assume "(a, b) \<in> ring_pairs (remove1 x xs)"
    then have "(a, b) \<in> set (zip ys (tl ys)) \<or> a = p \<and> b = n"
      using ring_pairs_Cons(1) [OF ys(5)] ys(1) n' p' by auto
    moreover have "a \<noteq> x" "b \<noteq> x" using \<open>(a, b) \<in> ring_pairs (remove1 x xs)\<close> ys(1,3) ring_pairs_in by fastforce+
    ultimately have "e_next (h a) = Some b \<and> e_prev (h b) = Some a"
      using zip_tl_inner [OF ys(4), of a b] l pairs n' p' by (auto simp: nx pv links_def)
    then show "e_next (elems (cp\<lparr>elems := h\<rparr>) a) = Some b" and "e_prev (elems (cp\<lparr>elems := h\<rparr>) b) = Some a"
      by simp_all
  qed
qed

lemma in_ring_pairs:
  assumes "x \<in> set xs"
  obtains p n where "(p, x) \<in> ring_pairs xs" and "(x, n) \<in> ring_pairs xs"
proof -
  have "x \<in> fst ` ring_pairs xs"
    using assms by (simp add: ring_pairs_def flip: set_map)
  moreover have "x \<in> snd ` ring_pairs xs"
    using assms by (simp add: ring_pairs_def flip: set_map)
  ultimately show thesis using that by force
qed

lemma remove1_not_Nil: "x \<in> set xs \<Longrightarrow> xs \<noteq> [x] \<Longrightarrow> remove1 x xs \<noteq> []"
  by (cases xs; cases "tl xs") auto

lemma remove1_ends:
  assumes d: "distinct xs" and ne: "remove1 x xs \<noteq> []"
    and p: "(p, x) \<in> ring_pairs xs" and n: "(x, n) \<in> ring_pairs xs"
  shows "hd (remove1 x xs) = (if hd xs = x then n else hd xs)"
    and "last (remove1 x xs) = (if last xs = x then p else last xs)"
proof -
  show "hd (remove1 x xs) = (if hd xs = x then n else hd xs)"
  proof (cases xs)
    case (Cons a as)
    then show ?thesis
      using ne ring_pairs_Cons(2) [of as x] ring_pairs_functional [OF d n, of "hd as"] by auto
  qed (use ne in simp)
  show "last (remove1 x xs) = (if last xs = x then p else last xs)"
  proof (cases xs rule: rev_cases)
    case (snoc as a)
    then show ?thesis
      using d ne ring_pairs_Cons(2) [of as x] ring_pairs_swap [of as "[x]"]
        ring_pairs_injective [OF d p, of "last as"]
      by (auto simp: remove1_append remove1_idem)
  qed (use ne in simp)
qed

lemma ring_Delete_last:
  assumes "ring cp [x]"
  shows "\<exists>cp1 cp'. Delete_unlink x cp = (False, cp1) \<and> Delete_close x cp1 = Ret cp' \<and> ring cp' []
    \<and> currElem cp' = Some x \<and> nextElem cp' = nextElem cp
    \<and> elems cp' = (elems cp)(x := (elems cp x)\<lparr>e_stopped := True, e_next := None, e_prev := None\<rparr>)"
proof -
  have "e_next (elems cp x) = Some x" "\<not> e_stopped (elems cp x)" "currElem cp = Some x"
    using assms by (auto simp: ring_def links_def)
  then show ?thesis
    using assms by (auto simp: Delete_unlink_def Delete_close_def ring_def links_def dead_def)
qed

lemma ring_Delete:
  assumes r: "ring cp xs" and x: "x \<in> set xs" and more: "xs \<noteq> [x]"
  shows "\<exists>cp1 cp' p n. Delete_unlink x cp = (False, cp1) \<and> Delete_close x cp1 = Ret cp'
    \<and> ring cp' (remove1 x xs) \<and> (x, n) \<in> ring_pairs xs \<and> (p, x) \<in> ring_pairs xs \<and> n \<noteq> x
    \<and> currElem cp' = (if currElem cp = Some x then Some n else currElem cp) \<and> nextElem cp' = nextElem cp
    \<and> elems cp' = (\<lambda>a. if a = x then (elems cp x)\<lparr>e_stopped := True, e_next := None, e_prev := None\<rparr>
         else (elems cp a)\<lparr>e_next := (if a = p then Some n else e_next (elems cp a)),
                           e_prev := (if a = n then Some p else e_prev (elems cp a))\<rparr>)"
proof -
  from r have d: "distinct xs" and l: "links cp xs" by (auto simp: ring_def)
  have ne: "remove1 x xs \<noteq> []" using x more by (rule remove1_not_Nil)
  obtain p n where p: "(p, x) \<in> ring_pairs xs" and n: "(x, n) \<in> ring_pairs xs"
    using in_ring_pairs [OF x] .
  obtain ys where ys: "ring_pairs xs = ring_pairs (x # ys)" "set ys = set xs - {x}" "ys \<noteq> []"
    using ring_neighbours [OF d x ne] by metis
  have nx: "n \<noteq> x" and px: "p \<noteq> x"
    using ring_pairs_functional [OF d n, of "hd ys"] ring_pairs_injective [OF d p, of "last ys"]
      ring_pairs_Cons(2) [OF ys(3), of x] ys hd_in_set [OF ys(3)] last_in_set [OF ys(3)] by auto
  have en: "e_next (elems cp x) = Some n" and ep: "e_prev (elems cp x) = Some p"
    using links_next [OF l n] links_prev [OF l p] by auto
  define h where "h = (\<lambda>a. if a = x then (elems cp x)\<lparr>e_stopped := True, e_next := None, e_prev := None\<rparr>
         else (elems cp a)\<lparr>e_next := (if a = p then Some n else e_next (elems cp a)),
                           e_prev := (if a = n then Some p else e_prev (elems cp a))\<rparr>)"
  have "\<not> e_stopped (elems cp x)" using r x by (auto simp: ring_def)
  with en ep nx px obtain cp1 cp' where D: "Delete_unlink x cp = (False, cp1)" "Delete_close x cp1 = Ret cp'"
    "cp' = cp\<lparr>elems := h, currElem := (if currElem cp = Some x then Some n else currElem cp),
       headElem := (if headElem cp = Some x then Some n else headElem cp),
       tailElem := (if tailElem cp = Some x then Some p else tailElem cp)\<rparr>"
    by (cases cp) (auto simp: Delete_unlink_def Delete_close_def Let_def upd_elem_def h_def fun_eq_iff
      intro!: ConnPoolElem.equality)
  have "links (cp\<lparr>elems := h\<rparr>) (remove1 x xs)"
    by (rule links_Delete [OF l d x ne p n]) (auto simp: h_def)
  then have lk: "links cp' (remove1 x xs)" by (simp add: links_def D(3))
  have ends: "headElem cp = Some (hd xs)" "tailElem cp = Some (last xs)" "set (remove1 x xs) = set xs - {x}"
    using r x d by (auto simp: ring_def)
  have pn: "n \<in> set xs" "p \<in> set xs" using ring_pairs_in [OF n] ring_pairs_in [OF p] by auto
  have dd: "dead (h a)" if "a < nextElem cp" "a \<notin> set xs - {x}" for a
    using that r pn by (auto simp: ring_def h_def dead_def)
  have alive: "\<not> e_stopped (h a)" if "a \<in> set xs - {x}" for a
    using that r by (auto simp: ring_def h_def)
  have "ring cp' (remove1 x xs)"
    unfolding ring_def ends(3)
    using lk dd alive r d ne nx pn remove1_ends [OF d ne p n] ends
    by (auto simp: ring_def D(3))
  with D nx p n show ?thesis unfolding h_def by auto
qed

lemma Delete_dead:
  assumes "ring cp xs" and "x < nextElem cp" and "x \<notin> set xs"
  shows "\<exists>cp'. Delete_unlink x cp = (True, cp') \<and> ring cp' xs \<and> currElem cp' = currElem cp
    \<and> nextElem cp' = nextElem cp"
proof -
  have "e_next (elems cp x) = None" "e_prev (elems cp x) = None"
    using assms by (auto simp: ring_def dead_def)
  moreover have "links (upd_elem x f cp) xs" if "\<And>e. e_next (f e) = e_next e" "\<And>e. e_prev (f e) = e_prev e" for f
    using assms that by (auto simp: ring_def links_def)
  ultimately show ?thesis
    using assms by (auto simp: Delete_unlink_def ring_def dead_def)
qed

subsection \<open>The simulation\<close>

lemma ring_succ_pair:
  assumes d: "distinct xs" and n: "(x, n) \<in> ring_pairs xs"
  shows "ring_succ xs x = n"
proof -
  have "x \<in> set xs" using ring_pairs_in [OF n] by simp
  then obtain as bs where xs: "xs = as @ x # bs" and as: "x \<notin> set as" by (meson split_list_first)
  have dw: "dropWhile (\<lambda>y. y \<noteq> x) xs = x # bs"
    unfolding xs using as by (subst dropWhile_append3) auto
  have pairs: "ring_pairs xs = ring_pairs (x # bs @ as)" using ring_pairs_swap [of as "x # bs"] by (simp add: xs)
  show ?thesis
  proof (cases "bs @ as = []")
    case True
    then show ?thesis using n by (auto simp: ring_succ_def xs)
  next
    case False
    then have "(x, hd (bs @ as)) \<in> ring_pairs xs" using ring_pairs_Cons(2) [OF False, of x] pairs by auto
    then have "n = hd (bs @ as)" using ring_pairs_functional [OF d n] by blast
    moreover have "ring_succ xs x = hd (bs @ as)"
      unfolding ring_succ_def dw using False by (cases bs) (auto simp: xs)
    ultimately show ?thesis by simp
  qed
qed

lemma pool_sim_step:
  assumes rel: "pool_rel cp a" and en: "spec_enabled x a"
  shows "\<exists>cp'. pool_exec x cp = Ret (fst (spec_step x a), cp') \<and> pool_rel cp' (snd (spec_step x a))"
proof (cases x)
  case (OpAdd cn c)
  then show ?thesis using rel ring_Add [of cp "r_members a" cn c] by (auto simp: pool_rel_def)
next
  case OpNext
  then have ne: "r_members a \<noteq> []" using en by simp
  then obtain k where k: "ring_at cp (r_members a) k"
    using rel ring_at_ex [of cp "r_members a"] by (auto simp: pool_rel_def)
  then have cur: "r_members a ! k = r_cursor a" and kl: "k < length (r_members a)"
    using rel ne by (auto simp: ring_at_def pool_rel_def)
  then have "ring_succ (r_members a) (r_cursor a) = r_members a ! (Suc k mod length (r_members a))"
    using rel by (intro ring_succ_pair) (auto simp: pool_rel_def ring_def ring_pairs_nth)
  then show ?thesis
    using OpNext ring_Next [OF k] rel cur
    by (auto simp: pool_rel_def ring_at_def)
next
  case (OpDelete y)
  have r: "ring cp (r_members a)" and y: "y < nextElem cp" using rel en OpDelete by (auto simp: pool_rel_def)
  show ?thesis
  proof (cases "y \<in> set (r_members a)")
    case False
    then show ?thesis
      using OpDelete rel Delete_dead [OF r y] by (auto simp: pool_rel_def remove1_idem)
  next
    case True
    show ?thesis
    proof (cases "r_members a = [y]")
      case single: True
      then show ?thesis
        using OpDelete rel ring_Delete_last [of cp y] by (auto simp: pool_rel_def)
    next
      case False
      have "ring_succ (r_members a) y = n" if "(y, n) \<in> ring_pairs (r_members a)" for n
        using that r by (intro ring_succ_pair) (auto simp: ring_def)
      then show ?thesis
        using OpDelete rel True ring_Delete [OF r True False]
        by (auto simp: pool_rel_def)
    qed
  qed
qed

lemma pool_sim_run:
  "pool_rel cp a \<Longrightarrow> spec_enabled_run ops a \<Longrightarrow>
   \<exists>cp'. pool_run ops cp = Ret (fst (spec_run ops a), cp') \<and> pool_rel cp' (snd (spec_run ops a))"
proof (induction ops arbitrary: cp a)
  case Nil
  then show ?case by simp
next
  case (Cons x ops)
  then obtain cp1 where "pool_exec x cp = Ret (fst (spec_step x a), cp1)" "pool_rel cp1 (snd (spec_step x a))"
    using pool_sim_step [of cp a x] by auto
  moreover from this Cons obtain cp2 where
    "pool_run ops cp1 = Ret (fst (spec_run ops (snd (spec_step x a))), cp2)"
    "pool_rel cp2 (snd (spec_run ops (snd (spec_step x a))))" by fastforce
  ultimately show ?case by (auto simp: Let_def split: prod.splits)
qed

subsection \<open>Round robin\<close>

text \<open>
  The interface the rest of the gateway uses: a scheduler over members \<open>xs\<close> with the cursor at
  position \<open>k\<close>, whose \<open>next\<close> operation returns the member under the cursor and moves on.
\<close>

locale round_robin =
  fixes nxt :: "'p \<Rightarrow> ('a \<times> 'p) go"
    and at :: "'p \<Rightarrow> 'a list \<Rightarrow> nat \<Rightarrow> bool"
  assumes at_bound: "at p xs k \<Longrightarrow> k < length xs"
    and at_distinct: "at p xs k \<Longrightarrow> distinct xs"
    and nxt_at: "at p xs k \<Longrightarrow> \<exists>p'. nxt p = Ret (xs ! k, p') \<and> at p' xs (Suc k mod length xs)"
begin

lemma served:
  "at p xs k \<Longrightarrow> \<exists>p'. go_repeat m nxt p = Ret (map (\<lambda>j. xs ! ((k + j) mod length xs)) [0..<m], p')
     \<and> at p' xs ((k + m) mod length xs)"
proof (induction m arbitrary: p k)
  case 0
  then show ?case using at_bound [of p xs k] by simp
next
  case (Suc m)
  from nxt_at [OF Suc.prems] obtain p1 where
    p1: "nxt p = Ret (xs ! k, p1)" "at p1 xs (Suc k mod length xs)" by blast
  from Suc.IH [OF p1(2)] obtain p2 where
    p2: "go_repeat m nxt p1 = Ret (map (\<lambda>j. xs ! ((Suc k mod length xs + j) mod length xs)) [0..<m], p2)"
      "at p2 xs ((Suc k mod length xs + m) mod length xs)" by blast
  have "map (\<lambda>j. xs ! ((k + j) mod length xs)) [0..<Suc m] =
      xs ! k # map (\<lambda>j. xs ! ((Suc k mod length xs + j) mod length xs)) [0..<m]"
    using at_bound [OF Suc.prems] by (simp add: map_upt_Suc mod_add_left_eq del: upt_Suc)
  with p1 p2 show ?case by (simp add: mod_add_left_eq del: upt_Suc)
qed

lemma one_round:
  assumes "at p xs k"
  shows "\<exists>p'. go_repeat (length xs) nxt p = Ret (rotate k xs, p') \<and> at p' xs k"
proof -
  have "map (\<lambda>j. xs ! ((k + j) mod length xs)) [0..<length xs] = rotate k xs"
    by (rule nth_equalityI) (auto simp: nth_rotate)
  with served [OF assms, of "length xs"] at_bound [OF assms] show ?thesis by auto
qed

end

interpretation conn_pool: round_robin ConnPool_Next ring_at
proof
  fix cp xs k
  assume at: "ring_at cp xs k"
  then show "k < length xs" and "distinct xs" by (auto simp: ring_at_def ring_def)
  from ring_Next [OF at] show "\<exists>cp'. ConnPool_Next cp = Ret (xs ! k, cp') \<and> ring_at cp' xs (Suc k mod length xs)"
    by blast
qed

subsection \<open>The size loops\<close>

lemma ring_walk:
  assumes "ring cp xs" and "Suc i < length xs"
  shows "e_next (elems cp (xs ! i)) = Some (xs ! Suc i)" and "Some (xs ! i) \<noteq> tailElem cp"
proof -
  have "(xs ! i, xs ! Suc i) \<in> ring_pairs xs"
    using assms(2) by (auto simp: ring_pairs_nth intro!: exI [of _ i])
  then show "e_next (elems cp (xs ! i)) = Some (xs ! Suc i)"
    using assms(1) by (auto simp: ring_def dest: links_next)
  have "xs \<noteq> []" "distinct xs" using assms by (auto simp: ring_def)
  then have "xs ! i \<noteq> last xs"
    using assms(2) by (simp add: last_conv_nth nth_eq_iff_index_eq)
  then show "Some (xs ! i) \<noteq> tailElem cp" using assms by (auto simp: ring_def)
qed

lemma ring_tail: "ring cp xs \<Longrightarrow> i < length xs \<Longrightarrow> tailElem cp = Some (xs ! (length xs - 1))"
  by (cases xs) (simp_all add: ring_def last_conv_nth)

lemma SizeNoLock_loop_ring:
  assumes "ring cp xs" and "i < length xs"
  shows "SizeNoLock_loop cp (Some (xs ! i)) (Suc i) = Some (Ret (length xs))"
  using assms(2)
proof (induction "length xs - i" arbitrary: i)
  case 0
  then show ?case by simp
next
  case (Suc m)
  show ?case
  proof (cases "Suc i < length xs")
    case True
    then show ?thesis
      using Suc.hyps(1) [of "Suc i"] Suc.hyps(2) ring_walk [OF assms(1) True]
      by (subst SizeNoLock_loop.simps) simp
  next
    case False
    then have "i = length xs - 1" using Suc.prems by simp
    then show ?thesis
      using ring_tail [OF assms(1) Suc.prems] Suc.prems by (subst SizeNoLock_loop.simps) auto
  qed
qed

lemma Size_loop_ring:
  assumes "ring cp xs" and "i < length xs" and "i \<le> 6"
  shows "Size_loop cp (Some (xs ! i)) i = Ret (min (length xs - 1) 6)"
  using assms(2,3)
proof (induction "6 - i" arbitrary: i)
  case 0
  then show ?case
    using ring_tail [OF assms(1) "0.prems"(1)] ring_walk(2) [OF assms(1), of i]
    by (subst Size_loop.simps, cases "Suc i < length xs") auto
next
  case (Suc m)
  show ?case
  proof (cases "Suc i < length xs")
    case True
    then show ?thesis
      using Suc.hyps(1) [of "Suc i"] Suc.hyps(2) ring_walk [OF assms(1) True]
      by (subst Size_loop.simps) auto
  next
    case False
    then have "i = length xs - 1" using Suc.prems by simp
    then show ?thesis
      using ring_tail [OF assms(1) Suc.prems(1)] Suc.prems by (subst Size_loop.simps) auto
  qed
qed

section \<open>Properties\<close>

text \<open>
  C3: the linked ring of \<open>ConnPool\<close> implements its specification: every sequence of \<open>Add\<close>,
  \<open>Next\<close> and \<open>Delete\<close> that the specification allows (\<open>Next\<close> on a pool with members, \<open>Delete\<close> of
  an allocated element, live or already deleted), started on a new pool, returns without a panic
  with the results of the list specification, and ends in a ring that holds its members.
\<close>

theorem ConnPool_refines_spec:
  assumes "spec_enabled_run ops \<lparr>r_members = [], r_cursor = 0, r_fresh = 0\<rparr>"
  shows "\<exists>cp. pool_run ops NewConnPool =
      Ret (fst (spec_run ops \<lparr>r_members = [], r_cursor = 0, r_fresh = 0\<rparr>), cp)
    \<and> pool_rel cp (snd (spec_run ops \<lparr>r_members = [], r_cursor = 0, r_fresh = 0\<rparr>))"
proof (rule pool_sim_run [OF _ assms])
  show "pool_rel NewConnPool \<lparr>r_members = [], r_cursor = 0, r_fresh = 0\<rparr>"
    using ring_NewConnPool by (simp add: pool_rel_def) (simp add: NewConnPool_def)
qed

definition pool_ops_ex :: "pool_op list" where
  "pool_ops_ex = [OpAdd None 0, OpAdd (Some 7) 1, OpAdd None 2, OpNext, OpNext, OpDelete 2, OpNext, OpDelete 2, OpNext]"

theorem ConnPool_refines_spec_witness:
  "\<exists>cp. pool_run pool_ops_ex NewConnPool =
     Ret ([Some 0, Some 1, Some 2, Some 0, Some 1, None, Some 0, None, Some 1], cp)"
proof -
  let ?a = "\<lparr>r_members = [], r_cursor = 0, r_fresh = 0\<rparr>"
  have "spec_enabled_run pool_ops_ex ?a" by code_simp
  moreover have "fst (spec_run pool_ops_ex ?a) =
      [Some 0, Some 1, Some 2, Some 0, Some 1, None, Some 0, None, Some 1]" by code_simp
  ultimately show ?thesis using ConnPool_refines_spec [of pool_ops_ex] by (simp only:) blast
qed

text \<open>
  \<open>Next\<close> is a fair round robin: on a pool with \<open>n\<close> members, \<open>n\<close> calls return every member
  exactly once, in ring order from the cursor, and leave the members as they were.
\<close>

theorem ConnPool_Next_fair:
  assumes "ring cp xs" and "xs \<noteq> []"
  shows "\<exists>k cp'. k < length xs \<and> currElem cp = Some (xs ! k)
    \<and> go_repeat (length xs) ConnPool_Next cp = Ret (rotate k xs, cp') \<and> ring cp' xs"
proof -
  obtain k where k: "ring_at cp xs k" using ring_at_ex [OF assms] by blast
  from conn_pool.one_round [OF this] obtain cp' where
    "go_repeat (length xs) ConnPool_Next cp = Ret (rotate k xs, cp')" "ring_at cp' xs k" by blast
  with k show ?thesis by (auto simp: ring_at_def)
qed

definition pool_two :: ConnPool where
  "pool_two = \<lparr>currElem = Some 1, headElem = Some 0, tailElem = Some 1,
     elems = (\<lambda>x. \<lparr>e_conn = Some (10 + x), e_prev = Some (1 - x), e_next = Some (1 - x),
       e_crc2ConnMap = True, e_ports = [], e_container = Some x, e_stopped = False\<rparr>), nextElem = 2\<rparr>"

lemma ring_pool_two: "ring pool_two [0, 1]"
  by (auto simp: ring_def links_def pool_two_def ring_pairs_def)

theorem ConnPool_Next_fair_witness:
  "\<exists>cp'. go_repeat 2 ConnPool_Next pool_two = Ret ([1, 0], cp') \<and> ring cp' [0, 1]"
proof -
  have "[0, 1] \<noteq> ([] :: ptr list)" by simp
  from ConnPool_Next_fair [OF ring_pool_two this] obtain k cp' where k: "k < length [0, 1 :: ptr]"
    "currElem pool_two = Some ([0, 1] ! k)" "ring cp' [0, 1]"
    "go_repeat (length [0, 1 :: ptr]) ConnPool_Next pool_two = Ret (rotate k [0, 1], cp')" by blast
  then have "k = 1" by (cases k) (auto simp: pool_two_def)
  with k(3,4) show ?thesis by (intro exI [of _ cp']) (simp add: numeral_2_eq_2)
qed

text \<open>
  deleting the only member of a pool leaves the cursor on it: the next call of \<open>Next\<close> hands
  out the deleted element, and the call after that dereferences nil.
\<close>

theorem Delete_last_leaves_cursor:
  assumes "ring cp [x]"
  shows "\<exists>cp1 cp2. pool_exec (OpDelete x) cp = Ret (None, cp1) \<and> \<not> IsAlive x cp1
    \<and> ConnPool_Next cp1 = Ret (x, cp2) \<and> ConnPool_Next cp2 = Panic NilDereference"
proof -
  from ring_Delete_last [OF assms] obtain cp0 cp1 where
    d: "Delete_unlink x cp = (False, cp0)" "Delete_close x cp0 = Ret cp1" "currElem cp1 = Some x"
      "elems cp1 = (elems cp)(x := (elems cp x)\<lparr>e_stopped := True, e_next := None, e_prev := None\<rparr>)"
    by blast
  then show ?thesis by (auto simp: ConnPool_Next_def IsAlive_def)
qed

definition pool_one :: ConnPool where
  "pool_one = \<lparr>currElem = Some 0, headElem = Some 0, tailElem = Some 0,
     elems = (\<lambda>x. \<lparr>e_conn = Some 10, e_prev = Some 0, e_next = Some 0, e_crc2ConnMap = True,
       e_ports = [], e_container = Some 0, e_stopped = False\<rparr>), nextElem = 1\<rparr>"

lemma ring_pool_one: "ring pool_one [0]"
  by (auto simp: ring_def links_def pool_one_def)

theorem Delete_last_leaves_cursor_witness:
  "\<exists>cp1 cp2. pool_exec (OpDelete 0) pool_one = Ret (None, cp1)
     \<and> ConnPool_Next cp1 = Ret (0, cp2) \<and> ConnPool_Next cp2 = Panic NilDereference"
  using Delete_last_leaves_cursor [OF ring_pool_one] by blast

text \<open>
  the loop of \<open>SizeNoLock\<close> terminates on every ring and counts its members; \<open>Size\<close> counts
  one less, and stops counting at six.
\<close>

theorem ConnPool_sizes:
  assumes "ring cp xs"
  shows "ConnPool_SizeNoLock cp = Some (Ret (length xs)) \<and> ConnPool_Size cp = Ret (min (length xs - 1) 6)"
proof (cases xs)
  case Nil
  then show ?thesis
    using assms by (simp add: ConnPool_SizeNoLock_def ConnPool_Size_def ring_def Size_loop.simps)
next
  case (Cons x ys)
  then have "headElem cp = Some (xs ! 0)" "0 < length xs" using assms by (auto simp: ring_def)
  then show ?thesis
    using SizeNoLock_loop_ring [OF assms, of 0] Size_loop_ring [OF assms, of 0]
    by (simp add: ConnPool_SizeNoLock_def ConnPool_Size_def)
qed

theorem ConnPool_sizes_witness:
  "ConnPool_SizeNoLock pool_two = Some (Ret 2) \<and> ConnPool_Size pool_two = Ret 1"
  using ConnPool_sizes [OF ring_pool_two] by simp

text \<open>
  \<open>DecFluxes\<close> undoes \<open>IncFluxes\<close> on every non-negative count but 127, where the int8 counter
  wraps to -128 and the pair of calls resets the count to 0.
\<close>

theorem fluxes_roundtrip:
  assumes "0 \<le> sint (c_Fluxes c)"
  shows "DecFluxes (IncFluxes c) = (if sint (c_Fluxes c) = 127 then c\<lparr>c_Fluxes := 0\<rparr> else c)"
proof -
  have inc: "sint (c_Fluxes c + 1) = (if sint (c_Fluxes c) = 127 then -128 else sint (c_Fluxes c) + 1)"
    using sint_IncFluxes [of c] by (simp add: IncFluxes_def)
  have "c_Fluxes c = 0" if "sint (c_Fluxes c) = 0" using that by (intro sint_eqD) simp
  then show ?thesis
    using assms inc by (cases c) (auto simp: DecFluxes_def IncFluxes_def)
qed

theorem fluxes_roundtrip_witness:
  "DecFluxes (IncFluxes \<lparr>c_Addr = [], c_Port = 1, c_Fluxes = 127, c_Id = 2, c_Repl = False, c_MaxFluxes = 10\<rparr>)
    = \<lparr>c_Addr = [], c_Port = 1, c_Fluxes = 0, c_Id = 2, c_Repl = False, c_MaxFluxes = 10\<rparr>"
  using fluxes_roundtrip [of "\<lparr>c_Addr = [], c_Port = 1, c_Fluxes = 127, c_Id = 2, c_Repl = False, c_MaxFluxes = 10\<rparr>"]
  by simp

end
