(* ===== verification/Crc2Conn.thy ===== *)
theory Crc2Conn
  imports Conn_Pool "HOL-Library.Multiset"
begin

text \<open>
  \<open>Crc2ConnMap\<close> of \<open>src/utils/rulemap.go\<close>: the assignment of flows (by the CRC of their
  addresses and ports) to the connections of the pool, the whole of \<open>ConnPoolElem.Delete\<close>, which
  moves the flows of a deleted element to another one, and the goroutines that expire idle flows.

  The state is the map with the pool it owns, the heap of containers, the goroutines it has
  started and the datagrams written so far. Every locked section of the code is one definition;
  \<open>Get\<close> and \<open>Delete\<close> compose them in the order of the source. The clock is an argument
  (\<open>time.Now().UnixNano()\<close>); the order in which Go ranges over a map is the argument \<open>rng\<close>, a
  permutation of the keys.
\<close>

section \<open>Definitions\<close>

text \<open>
  A goroutine started by \<open>Get\<close> or \<open>Delete\<close>: it watches one flow of one element. Those of
  \<open>Delete\<close> reach the map through the element they moved the flow from (\<open>ft_from\<close>), and leave
  \<open>crcContainer\<close> alone when they expire the flow.
\<close>

record flux_timer =
  ft_crc :: u16
  ft_elem :: ptr
  ft_timeout :: int
  ft_from :: "ptr option"

record Crc2ConnMap =
  crc2conn :: "u16 \<Rightarrow> conn option option" \<comment> \<open>\<open>Some None\<close>: a nil connection is stored\<close>
  crc2lock :: "u16 \<Rightarrow> nat option"
  connPool :: ConnPool
  crcFluxUsageMap :: "u16 \<Rightarrow> int option"
  crcContainer :: "u16 \<Rightarrow> ptr option option"
  fluxMaxAge :: int
  containers :: "ptr \<Rightarrow> Container"
  nextContainer :: ptr
  nextSem :: nat
  timers :: "flux_timer list"
  sent :: "(conn \<times> bytes) list"

definition NewCrc2ConnMap :: "int \<Rightarrow> Crc2ConnMap" where
  "NewCrc2ConnMap maxAge =
     \<lparr>crc2conn = (\<lambda>_. None), crc2lock = (\<lambda>_. None), connPool = NewConnPool,
      crcFluxUsageMap = (\<lambda>_. None), crcContainer = (\<lambda>_. None), fluxMaxAge = maxAge,
      containers = (\<lambda>_. \<lparr>c_Addr = [], c_Port = 0, c_Fluxes = 0, c_Id = 0, c_Repl = False, c_MaxFluxes = 0\<rparr>),
      nextContainer = 0, nextSem = 0, timers = [], sent = []\<rparr>"

definition upd_container :: "ptr \<Rightarrow> (Container \<Rightarrow> Container) \<Rightarrow> Crc2ConnMap \<Rightarrow> Crc2ConnMap" where
  "upd_container p f s = s\<lparr>containers := (containers s)(p := f (containers s p))\<rparr>"

subsection \<open>Get\<close>

text \<open>The condition of the fast path, with the short-circuit of \<open>&&\<close>.\<close>

definition Get_hit :: "conn option option \<Rightarrow> ptr option option \<Rightarrow> Crc2ConnMap \<Rightarrow> bool go" where
  "Get_hit val container s =
     (case (val, container) of
        (Some _, Some c) \<Rightarrow> go_bind (deref c) (\<lambda>p.
          Ret (sint (GetFluxes (containers s p)) \<le> sint (GetMaxFluxes (containers s p))))
      | _ \<Rightarrow> Ret False)"

text \<open>The slow path: the next element of the pool takes the flow.\<close>

definition Get_miss :: "u16 \<Rightarrow> Crc2ConnMap \<Rightarrow> ((conn option \<times> nat option) \<times> Crc2ConnMap) go" where
  "Get_miss crc s =
     go_bind (ConnPool_Next (connPool s)) (\<lambda>(cpe, cp).
     let cp = AddCrc crc cpe cp;
         elem = elems cp cpe;
         sem = nextSem s;
         s = s\<lparr>connPool := cp,
               crc2conn := (crc2conn s)(crc := Some (e_conn elem)),
               nextSem := Suc sem,
               crc2lock := (crc2lock s)(crc := Some sem),
               crcContainer := (crcContainer s)(crc := Some (e_container elem))\<rparr>
     in go_bind (deref (e_container elem)) (\<lambda>c.
        let s = upd_container c IncFluxes s;
            s = s\<lparr>timers := timers s @ [\<lparr>ft_crc = crc, ft_elem = cpe, ft_timeout = fluxMaxAge s, ft_from = None\<rparr>]\<rparr>
        in Ret ((e_conn elem, Some sem), s)))"

definition Get :: "u16 \<Rightarrow> int \<Rightarrow> Crc2ConnMap \<Rightarrow> ((conn option \<times> nat option) \<times> Crc2ConnMap) go" where
  "Get crc now s =
     (let val = crc2conn s crc;
          container = crcContainer s crc;
          lock = crc2lock s crc;
          s = s\<lparr>crcFluxUsageMap := (crcFluxUsageMap s)(crc := Some now)\<rparr>
      in go_bind (Get_hit val container s) (\<lambda>hit.
         if hit then Ret ((case val of Some cn \<Rightarrow> cn | None \<Rightarrow> None, lock), s)
         else Get_miss crc s))"

subsection \<open>The expiry goroutines\<close>

text \<open>
  One tick of a goroutine's ticker; the flag says that the goroutine ends. The other case of its
  \<open>select\<close>, the closed \<open>stopChan\<close> of its element, ends it with no effect.
\<close>

definition flux_tick :: "int \<Rightarrow> flux_timer \<Rightarrow> Crc2ConnMap \<Rightarrow> (bool \<times> Crc2ConnMap) go" where
  "flux_tick now t s =
     (if (case ft_from t of Some ce \<Rightarrow> \<not> e_crc2ConnMap (elems (connPool s) ce) | None \<Rightarrow> False)
      then Panic NilDereference
      else case crcFluxUsageMap s (ft_crc t) of
        None \<Rightarrow> Ret (False, s)
      | Some timestamp \<Rightarrow>
          (let deltaT = now - timestamp in
           if deltaT > ft_timeout t then
             go_bind (deref (e_container (elems (connPool s) (ft_elem t)))) (\<lambda>c.
             let s = upd_container c DecFluxes s;
                 s = s\<lparr>crc2conn := (crc2conn s)(ft_crc t := None)\<rparr>;
                 s = (if ft_from t \<noteq> None then s else s\<lparr>crcContainer := (crcContainer s)(ft_crc t := None)\<rparr>)
             in Ret (True, s))
           else Ret (False, s)))"

definition flux_stopped :: "flux_timer \<Rightarrow> Crc2ConnMap \<Rightarrow> bool" where
  "flux_stopped t s \<longleftrightarrow> e_stopped (elems (connPool s) (ft_elem t))"

subsection \<open>Delete\<close>

definition terminate_msg :: bytes where
  "terminate_msg = map (\<lambda>c. of_nat (of_char c)) ''terminate''"

text \<open>A write to a nil connection returns an error, which is logged.\<close>

definition sendTerminationSignal :: "conn option \<Rightarrow> Crc2ConnMap \<Rightarrow> Crc2ConnMap" where
  "sendTerminationSignal conn s =
     (case conn of None \<Rightarrow> s | Some cn \<Rightarrow> s\<lparr>sent := sent s @ [(cn, terminate_msg)]\<rparr>)"

text \<open>The loop that moves the flows of the deleted element to \<open>rCe\<close> (500 microseconds in ns).\<close>

fun Delete_move :: "ptr \<Rightarrow> ptr \<Rightarrow> u16 list \<Rightarrow> Crc2ConnMap \<Rightarrow> Crc2ConnMap go" where
  "Delete_move ce rCe [] s = Ret s"
| "Delete_move ce rCe (port # ports) s =
     (let elem = elems (connPool s) rCe;
          s = s\<lparr>crc2conn := (crc2conn s)(port := Some (e_conn elem))\<rparr>
      in go_bind (deref (e_container elem)) (\<lambda>c.
         let s = upd_container c IncFluxes s;
             s = s\<lparr>timers := timers s @ [\<lparr>ft_crc = port, ft_elem = rCe, ft_timeout = 500000, ft_from = Some ce\<rparr>]\<rparr>
         in Delete_move ce rCe ports s))"

definition Delete :: "(u16 list \<Rightarrow> u16 list) \<Rightarrow> ptr \<Rightarrow> Crc2ConnMap \<Rightarrow> Crc2ConnMap go" where
  "Delete rng ce s =
     (case Delete_unlink ce (connPool s) of
        (True, cp) \<Rightarrow> Ret (s\<lparr>connPool := cp\<rparr>)
      | (False, cp) \<Rightarrow>
          go_bind (Delete_close ce cp) (\<lambda>cp.
          let s = s\<lparr>connPool := cp\<rparr>; elem = elems cp ce in
          if e_ports elem = [] then
            go_bind (deref (e_container elem)) (\<lambda>_.
            let s = sendTerminationSignal (e_conn elem) s in
            Ret (s\<lparr>connPool := upd_elem ce (\<lambda>e. e\<lparr>e_container := None\<rparr>) cp\<rparr>))
          else
            go_bind (ConnPool_Next cp) (\<lambda>(rCe, cp).
            if \<not> e_crc2ConnMap elem then Panic NilDereference else
            go_bind (Delete_move ce rCe (rng (e_ports elem)) (s\<lparr>connPool := cp\<rparr>)) (\<lambda>s.
            let s = s\<lparr>connPool := fold (\<lambda>key. AddCrc key rCe) (rng (e_ports elem)) (connPool s)\<rparr> in
            go_bind (deref (e_container elem)) (\<lambda>_.
            Ret (sendTerminationSignal (e_conn elem) s))))))"

subsection \<open>Accessors of an element\<close>

definition ConnPoolElem_GetFluxes :: "ptr \<Rightarrow> Crc2ConnMap \<Rightarrow> i8 go" where
  "ConnPoolElem_GetFluxes ce s =
     go_bind (deref (e_container (elems (connPool s) ce))) (\<lambda>c. Ret (c_Fluxes (containers s c)))"

definition ConnPoolElem_GetContainer :: "ptr \<Rightarrow> Crc2ConnMap \<Rightarrow> ptr option" where
  "ConnPoolElem_GetContainer ce s = e_container (elems (connPool s) ce)"

definition IsRepl :: "ptr \<Rightarrow> Crc2ConnMap \<Rightarrow> bool go" where
  "IsRepl ce s =
     go_bind (deref (e_container (elems (connPool s) ce))) (\<lambda>c. Ret (c_Repl (containers s c)))"

text \<open>The state of the channel \<open>stopChan\<close> that \<open>GetStopChan\<close> returns: closed or not.\<close>

definition GetStopChan :: "ptr \<Rightarrow> Crc2ConnMap \<Rightarrow> bool" where
  "GetStopChan ce s = e_stopped (elems (connPool s) ce)"

subsection \<open>Registration of a container\<close>

text \<open>
  The part of \<open>addEntryToChan\<close> that concerns the pool: the container is allocated and its
  connection (nil if dialling failed) is added.
\<close>

definition register :: "conn option \<Rightarrow> Container \<Rightarrow> Crc2ConnMap \<Rightarrow> ((ptr \<times> ptr) \<times> Crc2ConnMap) go" where
  "register conn cnt s =
     (let c = nextContainer s;
          s = s\<lparr>containers := (containers s)(c := cnt), nextContainer := Suc c\<rparr>
      in go_bind (ConnPool_Add conn c (connPool s)) (\<lambda>(e, cp). Ret ((c, e), s\<lparr>connPool := cp\<rparr>)))"

text \<open>What the language promises of \<open>range\<close> over a map: every key once, in some order.\<close>

definition range_order :: "(u16 list \<Rightarrow> u16 list) \<Rightarrow> bool" where
  "range_order rng \<longleftrightarrow> (\<forall>ps. mset (rng ps) = mset ps)"

subsection \<open>Steps and invariant\<close>

text \<open>
  The steps of the map, in any order: a container registers, a packet asks for its flow, an
  element is deleted (not the only member of the pool), a goroutine ticks or is stopped.
\<close>

inductive c2c_step :: "(u16 list \<Rightarrow> u16 list) \<Rightarrow> Crc2ConnMap \<Rightarrow> Crc2ConnMap \<Rightarrow> bool" for rng where
  step_register: "register conn cnt s = Ret (r, s') \<Longrightarrow> c2c_step rng s s'"
| step_get: "Get crc now s = Ret (r, s') \<Longrightarrow> c2c_step rng s s'"
| step_delete: "ce < nextElem (connPool s) \<Longrightarrow> e_next (elems (connPool s) ce) \<noteq> Some ce \<Longrightarrow>
    Delete rng ce s = Ret s' \<Longrightarrow> c2c_step rng s s'"
| step_tick: "t \<in> set (timers s) \<Longrightarrow> flux_tick now t s = Ret (ended, s') \<Longrightarrow>
    c2c_step rng s (if ended then s'\<lparr>timers := remove1 t (timers s')\<rparr> else s')"
| step_stop: "t \<in> set (timers s) \<Longrightarrow> flux_stopped t s \<Longrightarrow>
    c2c_step rng s (s\<lparr>timers := remove1 t (timers s)\<rparr>)"

inductive c2c_reachable :: "(u16 list \<Rightarrow> u16 list) \<Rightarrow> int \<Rightarrow> Crc2ConnMap \<Rightarrow> bool" for rng maxAge where
  c2c_init: "c2c_reachable rng maxAge (NewCrc2ConnMap maxAge)"
| c2c_next: "c2c_reachable rng maxAge s \<Longrightarrow> c2c_step rng s t \<Longrightarrow> c2c_reachable rng maxAge t"

text \<open>
  A flow is owned by a live element whose connection it is mapped to and that lists it among its
  ports; every mapped flow has its semaphore; live elements have a container.
\<close>

definition owned :: "Crc2ConnMap \<Rightarrow> ptr list \<Rightarrow> bool" where
  "owned s xs \<longleftrightarrow> (\<forall>crc cn. crc2conn s crc = Some cn \<longrightarrow>
     (\<exists>e \<in> set xs. e_conn (elems (connPool s) e) = cn \<and> crc \<in> set (e_ports (elems (connPool s) e))))"

definition live_ok :: "Crc2ConnMap \<Rightarrow> ptr \<Rightarrow> bool" where
  "live_ok s e \<longleftrightarrow> e_container (elems (connPool s) e) \<noteq> None \<and> e_crc2ConnMap (elems (connPool s) e)
     \<and> (\<forall>crc \<in> set (e_ports (elems (connPool s) e)). crc2lock s crc \<noteq> None)"

definition c2c_inv :: "Crc2ConnMap \<Rightarrow> ptr list \<Rightarrow> bool" where
  "c2c_inv s xs \<longleftrightarrow> ring (connPool s) xs \<and> owned s xs \<and> (\<forall>e \<in> set xs. live_ok s e)
     \<and> (\<forall>crc. crcContainer s crc \<noteq> Some None) \<and> (xs = [] \<longrightarrow> currElem (connPool s) = None)"

section \<open>Lemmas\<close>

named_theorems c2c_defs \<open>the predicates of the invariant\<close>

declare c2c_inv_def [c2c_defs] owned_def [c2c_defs] live_ok_def [c2c_defs]

subsection \<open>Frames\<close>

lemma upd_container_simps [simp]:
  "crc2conn (upd_container p f s) = crc2conn s" "crc2lock (upd_container p f s) = crc2lock s"
  "connPool (upd_container p f s) = connPool s" "crcContainer (upd_container p f s) = crcContainer s"
  "crcFluxUsageMap (upd_container p f s) = crcFluxUsageMap s" "timers (upd_container p f s) = timers s"
  "sent (upd_container p f s) = sent s" "fluxMaxAge (upd_container p f s) = fluxMaxAge s"
  "nextSem (upd_container p f s) = nextSem s" "nextContainer (upd_container p f s) = nextContainer s"
  "containers (upd_container p f s) = (containers s)(p := f (containers s p))"
  by (simp_all add: upd_container_def)

lemma sendTerminationSignal_simps [simp]:
  "crc2conn (sendTerminationSignal cn s) = crc2conn s" "crc2lock (sendTerminationSignal cn s) = crc2lock s"
  "connPool (sendTerminationSignal cn s) = connPool s" "crcContainer (sendTerminationSignal cn s) = crcContainer s"
  "crcFluxUsageMap (sendTerminationSignal cn s) = crcFluxUsageMap s" "timers (sendTerminationSignal cn s) = timers s"
  "containers (sendTerminationSignal cn s) = containers s" "nextContainer (sendTerminationSignal cn s) = nextContainer s"
  by (simp_all add: sendTerminationSignal_def split: option.splits)

text \<open>Updates of an element that keep its links keep the ring.\<close>

lemma ring_upd_elem:
  assumes "ring cp xs" and "\<And>e. e_next (f e) = e_next e" and "\<And>e. e_prev (f e) = e_prev e"
    and "\<And>e. e_stopped (f e) = e_stopped e"
  shows "ring (upd_elem x f cp) xs"
  using assms by (auto simp: ring_def links_def dead_def)

lemma ring_AddCrc [simp]: "ring cp xs \<Longrightarrow> ring (AddCrc crc x cp) xs"
  unfolding AddCrc_def by (rule ring_upd_elem) auto

definition add_keys :: "u16 list \<Rightarrow> u16 list \<Rightarrow> u16 list" where
  "add_keys ks ps = fold (\<lambda>k ps. if k \<in> set ps then ps else ps @ [k]) ks ps"

lemma set_add_keys [simp]: "set (add_keys ks ps) = set ps \<union> set ks"
  unfolding add_keys_def by (induction ks arbitrary: ps) auto

lemma fold_AddCrc:
  "fold (\<lambda>key. AddCrc key x) ks cp = upd_elem x (\<lambda>e. e\<lparr>e_ports := add_keys ks (e_ports e)\<rparr>) cp"
proof (induction ks arbitrary: cp)
  case Nil
  then show ?case by (cases cp) (simp add: upd_elem_def add_keys_def)
next
  case (Cons k ks)
  then show ?case by (cases cp) (simp add: upd_elem_def AddCrc_def add_keys_def)
qed

subsection \<open>Ownership\<close>

lemma ownedE:
  assumes "owned s xs" and "crc2conn s crc = Some cn"
  obtains e where "e \<in> set xs" and "e_conn (elems (connPool s) e) = cn"
    and "crc \<in> set (e_ports (elems (connPool s) e))"
  using assms by (auto simp: owned_def)

lemma owned_extend:
  assumes "owned s xs"
    and "\<And>crc cn. crc2conn s' crc = Some cn \<Longrightarrow> crc2conn s crc = Some cn \<or>
      (\<exists>e \<in> set ys. e_conn (elems (connPool s') e) = cn \<and> crc \<in> set (e_ports (elems (connPool s') e)))"
    and "\<And>e. e \<in> set xs \<Longrightarrow> e \<in> set ys \<and> e_conn (elems (connPool s') e) = e_conn (elems (connPool s) e)
      \<and> set (e_ports (elems (connPool s) e)) \<subseteq> set (e_ports (elems (connPool s') e))"
  shows "owned s' ys"
  unfolding owned_def
proof (intro allI impI)
  fix crc cn assume "crc2conn s' crc = Some cn"
  with assms(2) consider "crc2conn s crc = Some cn" |
    "\<exists>e \<in> set ys. e_conn (elems (connPool s') e) = cn \<and> crc \<in> set (e_ports (elems (connPool s') e))" by blast
  then show "\<exists>e \<in> set ys. e_conn (elems (connPool s') e) = cn \<and> crc \<in> set (e_ports (elems (connPool s') e))"
  proof cases
    case 1
    with assms(1) obtain e where "e \<in> set xs" "e_conn (elems (connPool s) e) = cn"
      "crc \<in> set (e_ports (elems (connPool s) e))" by (rule ownedE)
    then show ?thesis using assms(3) [of e] by blast
  qed
qed

lemma owned_lock:
  assumes "c2c_inv s xs" and "crc2conn s crc = Some cn"
  shows "crc2lock s crc \<noteq> None"
proof -
  obtain e where "e \<in> set xs" "crc \<in> set (e_ports (elems (connPool s) e))"
    using assms by (auto simp: c2c_inv_def elim: ownedE)
  then show ?thesis using assms by (auto simp: c2c_inv_def live_ok_def)
qed

subsection \<open>Get\<close>

lemma Get_miss_eq:
  assumes "ring_at (connPool s) xs k" and "e_container (elems (connPool s) (xs ! k)) = Some c"
  obtains cp where "ring_at cp xs (Suc k mod length xs)" and "elems cp = elems (connPool s)"
    and "Get_miss crc s = Ret ((e_conn (elems (connPool s) (xs ! k)), Some (nextSem s)),
      (upd_container c IncFluxes s)\<lparr>connPool := AddCrc crc (xs ! k) cp,
        crc2conn := (crc2conn s)(crc := Some (e_conn (elems (connPool s) (xs ! k)))),
        nextSem := Suc (nextSem s), crc2lock := (crc2lock s)(crc := Some (nextSem s)),
        crcContainer := (crcContainer s)(crc := Some (Some c)),
        timers := timers s @ [\<lparr>ft_crc = crc, ft_elem = xs ! k, ft_timeout = fluxMaxAge s, ft_from = None\<rparr>]\<rparr>)"
proof -
  from ring_Next [OF assms(1)] obtain cp where
    cp: "ConnPool_Next (connPool s) = Ret (xs ! k, cp)" "ring_at cp xs (Suc k mod length xs)"
      "elems cp = elems (connPool s)" by blast
  show thesis
  proof (rule that [OF cp(2,3)])
    show "Get_miss crc s = Ret ((e_conn (elems (connPool s) (xs ! k)), Some (nextSem s)),
      (upd_container c IncFluxes s)\<lparr>connPool := AddCrc crc (xs ! k) cp,
        crc2conn := (crc2conn s)(crc := Some (e_conn (elems (connPool s) (xs ! k)))),
        nextSem := Suc (nextSem s), crc2lock := (crc2lock s)(crc := Some (nextSem s)),
        crcContainer := (crcContainer s)(crc := Some (Some c)),
        timers := timers s @ [\<lparr>ft_crc = crc, ft_elem = xs ! k, ft_timeout = fluxMaxAge s, ft_from = None\<rparr>]\<rparr>)"
      using assms(2) cp
      by (cases s) (simp add: Get_miss_def Let_def AddCrc_def upd_container_def)
  qed
qed

lemma c2c_inv_cursor:
  assumes "c2c_inv s xs" and "xs \<noteq> []"
  obtains k c where "ring_at (connPool s) xs k" and "e_container (elems (connPool s) (xs ! k)) = Some c"
proof -
  obtain k where k: "ring_at (connPool s) xs k"
    using ring_at_ex [of "connPool s" xs] assms by (auto simp: c2c_inv_def)
  then have "live_ok s (xs ! k)" using assms by (auto simp: c2c_inv_def ring_at_def)
  with k show thesis using that by (auto simp: live_ok_def)
qed

lemma Get_hit_cases:
  assumes "\<forall>crc. crcContainer s crc \<noteq> Some None"
  shows "Get_hit (crc2conn s crc) (crcContainer s crc) s' =
    Ret (crc2conn s crc \<noteq> None \<and> (\<exists>c. crcContainer s crc = Some (Some c) \<and>
      sint (c_Fluxes (containers s' c)) \<le> sint (c_MaxFluxes (containers s' c))))"
proof (cases "crcContainer s crc")
  case None
  then show ?thesis by (auto simp: Get_hit_def split: option.splits)
next
  case (Some c)
  with assms obtain p where "c = Some p" by (cases c) auto
  with Some show ?thesis
    by (auto simp: Get_hit_def GetFluxes_def GetMaxFluxes_def split: option.splits)
qed

lemma c2c_inv_touch [simp]:
  "c2c_inv (s\<lparr>crcFluxUsageMap := m\<rparr>) xs = c2c_inv s xs"
  by (simp add: c2c_defs)

lemma Get_miss_inv:
  assumes "c2c_inv s xs" and "xs \<noteq> []"
  shows "\<exists>cn lk s'. Get_miss crc s = Ret ((cn, Some lk), s') \<and> c2c_inv s' xs"
proof -
  obtain k c where k: "ring_at (connPool s) xs k" "e_container (elems (connPool s) (xs ! k)) = Some c"
    using c2c_inv_cursor [OF assms] .
  obtain cp where cp: "ring_at cp xs (Suc k mod length xs)" "elems cp = elems (connPool s)"
    and eq: "Get_miss crc s = Ret ((e_conn (elems (connPool s) (xs ! k)), Some (nextSem s)),
      (upd_container c IncFluxes s)\<lparr>connPool := AddCrc crc (xs ! k) cp,
        crc2conn := (crc2conn s)(crc := Some (e_conn (elems (connPool s) (xs ! k)))),
        nextSem := Suc (nextSem s), crc2lock := (crc2lock s)(crc := Some (nextSem s)),
        crcContainer := (crcContainer s)(crc := Some (Some c)),
        timers := timers s @ [\<lparr>ft_crc = crc, ft_elem = xs ! k, ft_timeout = fluxMaxAge s, ft_from = None\<rparr>]\<rparr>)"
    using Get_miss_eq [OF k] by blast
  define s' where "s' = (upd_container c IncFluxes s)\<lparr>connPool := AddCrc crc (xs ! k) cp,
        crc2conn := (crc2conn s)(crc := Some (e_conn (elems (connPool s) (xs ! k)))),
        nextSem := Suc (nextSem s), crc2lock := (crc2lock s)(crc := Some (nextSem s)),
        crcContainer := (crcContainer s)(crc := Some (Some c)),
        timers := timers s @ [\<lparr>ft_crc = crc, ft_elem = xs ! k, ft_timeout = fluxMaxAge s, ft_from = None\<rparr>]\<rparr>"
  have mem: "xs ! k \<in> set xs" and r: "ring (connPool s') xs"
    using k cp by (auto simp: ring_at_def s'_def)
  have "owned s' xs"
    by (rule owned_extend [of s xs]) (use assms mem cp in \<open>auto simp: c2c_inv_def s'_def AddCrc_def split: if_splits\<close>)
  moreover have "live_ok s' e" if "e \<in> set xs" for e
    using assms that cp by (auto simp: c2c_inv_def live_ok_def s'_def AddCrc_def)
  moreover have "\<forall>crc. crcContainer s' crc \<noteq> Some None"
    using assms by (auto simp: c2c_inv_def s'_def)
  ultimately have "c2c_inv s' xs" using r assms(2) by (simp add: c2c_inv_def)
  then show ?thesis unfolding eq s'_def [symmetric] by blast
qed

lemma Get_inv:
  assumes inv: "c2c_inv s xs" and ne: "xs \<noteq> []"
  shows "\<exists>cn lk s'. Get crc now s = Ret ((cn, Some lk), s') \<and> c2c_inv s' xs"
proof -
  let ?s = "s\<lparr>crcFluxUsageMap := (crcFluxUsageMap s)(crc := Some now)\<rparr>"
  from inv have inv': "c2c_inv ?s xs" by simp
  have nn: "\<forall>crc. crcContainer s crc \<noteq> Some None" using inv by (simp add: c2c_inv_def)
  have lock: "crc2lock s crc \<noteq> None" if "crc2conn s crc \<noteq> None"
    using that inv owned_lock [OF inv] by blast
  show ?thesis
    using Get_miss_inv [OF inv' ne, of crc] lock inv'
    by (auto simp: Get_def Let_def Get_hit_cases [OF nn] split: option.splits)
qed

lemma Get_empty:
  assumes "c2c_inv s []"
  shows "Get crc now s = Panic NilDereference"
proof -
  have "crc2conn s crc = None" "currElem (connPool s) = None"
    using assms by (cases "crc2conn s crc", auto simp: c2c_inv_def elim: ownedE)
  then show ?thesis by (simp add: Get_def Get_hit_def Get_miss_def ConnPool_Next_def Let_def)
qed

subsection \<open>Registration and expiry\<close>

lemma c2c_inv_new: "c2c_inv (NewCrc2ConnMap age) []"
  using ring_NewConnPool by (simp add: c2c_defs NewCrc2ConnMap_def) (simp add: NewConnPool_def)

lemma register_inv:
  assumes "c2c_inv s xs"
  shows "\<exists>s'. register conn cnt s = Ret ((nextContainer s, nextElem (connPool s)), s')
    \<and> c2c_inv s' (xs @ [nextElem (connPool s)])"
proof -
  let ?e = "nextElem (connPool s)"
  from assms have r: "ring (connPool s) xs" by (simp add: c2c_inv_def)
  from ring_Add [OF r, of conn "nextContainer s"] obtain cp' where
    cp': "ConnPool_Add conn (nextContainer s) (connPool s) = Ret (?e, cp')" "ring cp' (xs @ [?e])"
      "e_container (elems cp' ?e) = Some (nextContainer s)" "e_ports (elems cp' ?e) = []"
      "e_crc2ConnMap (elems cp' ?e)"
    and same: "\<forall>x. x \<noteq> ?e \<longrightarrow> same_data (elems cp' x) (elems (connPool s) x)" by blast
  have "?e \<notin> set xs" using r by (rule ring_alloc)
  then have "same_data (elems cp' x) (elems (connPool s) x)" if "x \<in> set xs" for x
    using same that by metis
  note same' = this
  define s' where "s' = s\<lparr>containers := (containers s)(nextContainer s := cnt),
    nextContainer := Suc (nextContainer s), connPool := cp'\<rparr>"
  have "owned s' (xs @ [?e])"
    by (rule owned_extend [of s xs]) (use assms same' in \<open>auto simp: c2c_inv_def s'_def same_data_def\<close>)
  moreover have "live_ok s' e" if "e \<in> set (xs @ [?e])" for e
    using that assms same' [of e] cp' by (auto simp: c2c_inv_def live_ok_def s'_def same_data_def)
  ultimately have "c2c_inv s' (xs @ [?e])"
    using assms cp'(2) by (simp add: c2c_inv_def s'_def)
  then show ?thesis using cp'(1) by (simp add: register_def Let_def s'_def)
qed

lemma c2c_inv_forget:
  assumes "c2c_inv s xs" and "connPool s' = connPool s" and "crc2lock s' = crc2lock s"
    and "\<And>crc. crc2conn s' crc = crc2conn s crc \<or> crc2conn s' crc = None"
    and "\<And>crc. crcContainer s' crc = crcContainer s crc \<or> crcContainer s' crc = None"
  shows "c2c_inv s' xs"
proof -
  have "owned s' xs"
  proof (rule owned_extend [of s xs])
    fix crc cn
    assume "crc2conn s' crc = Some cn"
    then show "crc2conn s crc = Some cn \<or> (\<exists>e \<in> set xs. e_conn (elems (connPool s') e) = cn
        \<and> crc \<in> set (e_ports (elems (connPool s') e)))" using assms(4) [of crc] by auto
  qed (use assms in \<open>auto simp: c2c_inv_def\<close>)
  moreover have "crcContainer s' crc \<noteq> Some None" for crc
    using assms(1) assms(5) [of crc] by (auto simp: c2c_inv_def)
  ultimately show ?thesis using assms(1-3) by (auto simp: c2c_inv_def live_ok_def)
qed

lemma flux_tick_inv:
  assumes "c2c_inv s xs" and "flux_tick now t s = Ret (b, s')"
  shows "c2c_inv s' xs"
  by (rule c2c_inv_forget [OF assms(1)])
    (use assms(2) in \<open>auto simp: flux_tick_def Let_def split: option.splits if_splits\<close>)

subsection \<open>Delete\<close>

lemma range_orderD:
  assumes "range_order rng"
  shows "set (rng ps) = set ps" and "length (rng ps) = length ps"
  using assms by (auto simp: range_order_def dest: mset_eq_setD mset_eq_length)

lemma Delete_move_eq:
  assumes "e_container (elems (connPool s) r) = Some c"
  shows "Delete_move ce r ps s = Ret (s\<lparr>
    crc2conn := (\<lambda>p. if p \<in> set ps then Some (e_conn (elems (connPool s) r)) else crc2conn s p),
    containers := (containers s)(c := (IncFluxes ^^ length ps) (containers s c)),
    timers := timers s @ map (\<lambda>p. \<lparr>ft_crc = p, ft_elem = r, ft_timeout = 500000, ft_from = Some ce\<rparr>) ps\<rparr>)"
  using assms
proof (induction ps arbitrary: s)
  case Nil
  then show ?case by simp
next
  case (Cons p ps)
  then show ?case
    by (cases s) (auto simp: Let_def upd_container_def fun_eq_iff funpow_swap1)
qed

text \<open>
  The state in which the flows of \<open>ce\<close> have passed to \<open>r\<close>, whose container is \<open>c\<close>, in the pool \<open>cp\<close>.
\<close>

definition moved :: "(u16 list \<Rightarrow> u16 list) \<Rightarrow> ptr \<Rightarrow> ptr \<Rightarrow> ptr \<Rightarrow> ConnPool \<Rightarrow> Crc2ConnMap \<Rightarrow> Crc2ConnMap" where
  "moved rng ce r c cp s = s\<lparr>
      connPool := upd_elem r (\<lambda>e. e\<lparr>e_ports := add_keys (rng (e_ports (elems (connPool s) ce))) (e_ports e)\<rparr>) cp,
      crc2conn := (\<lambda>p. if p \<in> set (e_ports (elems (connPool s) ce)) then Some (e_conn (elems (connPool s) r)) else crc2conn s p),
      containers := (containers s)(c := (IncFluxes ^^ length (e_ports (elems (connPool s) ce))) (containers s c)),
      timers := timers s @ map (\<lambda>p. \<lparr>ft_crc = p, ft_elem = r, ft_timeout = 500000, ft_from = Some ce\<rparr>)
        (rng (e_ports (elems (connPool s) ce)))\<rparr>"

text \<open>
  What \<open>Delete\<close> does to a member of a pool that has others: the pool and the element it passes
  the flows to, and the resulting state.
\<close>

lemma Delete_member:
  assumes inv: "c2c_inv s xs" and ce: "ce \<in> set xs" and more: "xs \<noteq> [ce]" and rng: "range_order rng"
    and ports: "e_ports (elems (connPool s) ce) \<noteq> []"
  obtains cp r c where "ring cp (remove1 ce xs)" and "r \<in> set (remove1 ce xs)" and "r \<noteq> ce"
    and "nextElem cp = nextElem (connPool s)"
    and "\<forall>x. same_data (elems cp x) (elems (connPool s) x)"
    and "e_container (elems (connPool s) r) = Some c"
    and "Delete rng ce s = Ret (sendTerminationSignal (e_conn (elems (connPool s) ce)) (moved rng ce r c cp s))"
proof -
  let ?ps = "e_ports (elems (connPool s) ce)"
  from inv have r: "ring (connPool s) xs" by (simp add: c2c_inv_def)
  from ring_Delete [OF r ce more] obtain cp1 cp2 p n where
    un: "Delete_unlink ce (connPool s) = (False, cp1)" and cl: "Delete_close ce cp1 = Ret cp2"
    and r2: "ring cp2 (remove1 ce xs)" and nE: "nextElem cp2 = nextElem (connPool s)"
    and el: "elems cp2 = (\<lambda>a. if a = ce then (elems (connPool s) ce)\<lparr>e_stopped := True, e_next := None, e_prev := None\<rparr>
         else (elems (connPool s) a)\<lparr>e_next := (if a = p then Some n else e_next (elems (connPool s) a)),
                           e_prev := (if a = n then Some p else e_prev (elems (connPool s) a))\<rparr>)" by blast
  have same: "same_data (elems cp2 x) (elems (connPool s) x)" for x by (simp add: el same_data_def)
  have "remove1 ce xs \<noteq> []" using ce more by (rule remove1_not_Nil)
  then obtain k where k: "ring_at cp2 (remove1 ce xs) k" using ring_at_ex [OF r2] by blast
  let ?r = "remove1 ce xs ! k"
  from ring_Next [OF k] obtain cp where nx: "ConnPool_Next cp2 = Ret (?r, cp)"
    and at: "ring_at cp (remove1 ce xs) (Suc k mod length (remove1 ce xs))" and e: "elems cp = elems cp2" by blast
  have mem: "?r \<in> set (remove1 ce xs)" using k by (auto simp: ring_at_def)
  have d: "distinct xs" using r by (simp add: ring_def)
  then have rx: "?r \<in> set xs" "?r \<noteq> ce" using mem by auto
  obtain c where c: "e_container (elems (connPool s) ?r) = Some c"
    using inv rx(1) by (auto simp: c2c_inv_def live_ok_def)
  have c2: "e_container (elems cp2 ?r) = Some c" "e_conn (elems cp2 ?r) = e_conn (elems (connPool s) ?r)"
    "e_ports (elems cp2 ce) = ?ps" "e_conn (elems cp2 ce) = e_conn (elems (connPool s) ce)"
    "e_crc2ConnMap (elems cp2 ce)" "e_container (elems cp2 ce) \<noteq> None"
    using same [of ?r] same [of ce] c inv ce by (auto simp: same_data_def c2c_inv_def live_ok_def)
  show thesis
  proof (rule that [of cp ?r c])
    show "ring cp (remove1 ce xs)" using at by (simp add: ring_at_def)
    have "nextElem cp = nextElem cp2" using nx by (auto simp: ConnPool_Next_def)
    then show n: "nextElem cp = nextElem (connPool s)" using nE by simp
    show "?r \<in> set (remove1 ce xs)" "?r \<noteq> ce" "e_container (elems (connPool s) ?r) = Some c"
      using mem rx c by auto
    show "\<forall>x. same_data (elems cp x) (elems (connPool s) x)" using same e by simp
    obtain c' where c': "e_container (elems cp2 ce) = Some c'" using c2(6) by blast
    show "Delete rng ce s = Ret (sendTerminationSignal (e_conn (elems (connPool s) ce)) (moved rng ce ?r c cp s))"
      using un cl ports c2 c' nx e range_orderD [OF rng, of ?ps]
      by (cases s) (simp add: Delete_def Let_def Delete_move_eq [of _ _ c] fold_AddCrc moved_def cong: if_cong)
  qed
qed

lemma Delete_idle:
  assumes inv: "c2c_inv s xs" and ce: "ce \<in> set xs" and more: "xs \<noteq> [ce]"
    and ports: "e_ports (elems (connPool s) ce) = []"
  obtains cp where "ring cp (remove1 ce xs)" and "\<forall>x. x \<noteq> ce \<longrightarrow> same_data (elems cp x) (elems (connPool s) x)"
    and "e_container (elems cp ce) = None" and "nextElem cp = nextElem (connPool s)"
    and "Delete rng ce s = Ret (sendTerminationSignal (e_conn (elems (connPool s) ce)) (s\<lparr>connPool := cp\<rparr>))"
proof -
  from inv have r: "ring (connPool s) xs" by (simp add: c2c_inv_def)
  from ring_Delete [OF r ce more] obtain cp1 cp2 p n where
    un: "Delete_unlink ce (connPool s) = (False, cp1)" and cl: "Delete_close ce cp1 = Ret cp2"
    and r2: "ring cp2 (remove1 ce xs)" and nE: "nextElem cp2 = nextElem (connPool s)"
    and el: "elems cp2 = (\<lambda>a. if a = ce then (elems (connPool s) ce)\<lparr>e_stopped := True, e_next := None, e_prev := None\<rparr>
         else (elems (connPool s) a)\<lparr>e_next := (if a = p then Some n else e_next (elems (connPool s) a)),
                           e_prev := (if a = n then Some p else e_prev (elems (connPool s) a))\<rparr>)" by blast
  have "e_container (elems (connPool s) ce) \<noteq> None" using inv ce by (auto simp: c2c_inv_def live_ok_def)
  then obtain c where c: "e_container (elems cp2 ce) = Some c" by (auto simp: el)
  show thesis
  proof (rule that [of "upd_elem ce (\<lambda>e. e\<lparr>e_container := None\<rparr>) cp2"])
    show "ring (upd_elem ce (\<lambda>e. e\<lparr>e_container := None\<rparr>) cp2) (remove1 ce xs)"
      using r2 by (rule ring_upd_elem) auto
    show "\<forall>x. x \<noteq> ce \<longrightarrow> same_data (elems (upd_elem ce (\<lambda>e. e\<lparr>e_container := None\<rparr>) cp2) x) (elems (connPool s) x)"
      by (simp add: el same_data_def)
    show "e_container (elems (upd_elem ce (\<lambda>e. e\<lparr>e_container := None\<rparr>) cp2) ce) = None" by simp
    show "nextElem (upd_elem ce (\<lambda>e. e\<lparr>e_container := None\<rparr>) cp2) = nextElem (connPool s)" using nE by simp
    show "Delete rng ce s = Ret (sendTerminationSignal (e_conn (elems (connPool s) ce))
        (s\<lparr>connPool := upd_elem ce (\<lambda>e. e\<lparr>e_container := None\<rparr>) cp2\<rparr>))"
      using un cl ports c by (cases s) (simp add: Delete_def Let_def el sendTerminationSignal_def split: option.split)
  qed
qed

text \<open>
  Ownership when \<open>ce\<close> leaves: its flows \<open>P\<close> must have found a new owner, the others keep theirs.
\<close>

lemma owned_delete:
  assumes own: "owned s xs" and P: "set (e_ports (elems (connPool s) ce)) = P"
    and old: "\<And>crc cn. crc2conn s' crc = Some cn \<Longrightarrow> crc \<notin> P \<Longrightarrow> crc2conn s crc = Some cn"
    and new: "\<And>crc cn. crc2conn s' crc = Some cn \<Longrightarrow> crc \<in> P \<Longrightarrow> \<exists>e \<in> set xs - {ce}.
      e_conn (elems (connPool s') e) = cn \<and> crc \<in> set (e_ports (elems (connPool s') e))"
    and same: "\<And>e. e \<in> set xs - {ce} \<Longrightarrow> e_conn (elems (connPool s') e) = e_conn (elems (connPool s) e)
      \<and> set (e_ports (elems (connPool s) e)) \<subseteq> set (e_ports (elems (connPool s') e))"
    and d: "distinct xs"
  shows "owned s' (remove1 ce xs)"
  unfolding owned_def set_remove1_eq [OF d]
proof (intro allI impI)
  fix crc cn assume m: "crc2conn s' crc = Some cn"
  show "\<exists>e \<in> set xs - {ce}. e_conn (elems (connPool s') e) = cn \<and> crc \<in> set (e_ports (elems (connPool s') e))"
  proof (cases "crc \<in> P")
    case True
    then show ?thesis using new [OF m] by blast
  next
    case False
    from own old [OF m False] obtain e where e: "e \<in> set xs" "e_conn (elems (connPool s) e) = cn"
      "crc \<in> set (e_ports (elems (connPool s) e))" by (rule ownedE)
    with False P have "e \<in> set xs - {ce}" by auto
    with e same [of e] show ?thesis by auto
  qed
qed

lemma Delete_idle_inv:
  assumes inv: "c2c_inv s xs" and ce: "ce \<in> set xs" and more: "xs \<noteq> [ce]"
    and ports: "e_ports (elems (connPool s) ce) = []"
  shows "\<exists>s'. Delete rng ce s = Ret s' \<and> c2c_inv s' (remove1 ce xs)"
proof -
  have d: "distinct xs" using inv by (simp add: c2c_inv_def ring_def)
  obtain cp where cp: "ring cp (remove1 ce xs)" "\<forall>x. x \<noteq> ce \<longrightarrow> same_data (elems cp x) (elems (connPool s) x)"
    "e_container (elems cp ce) = None" "nextElem cp = nextElem (connPool s)"
    and D: "Delete rng ce s = Ret (sendTerminationSignal (e_conn (elems (connPool s) ce)) (s\<lparr>connPool := cp\<rparr>))"
    using Delete_idle [OF inv ce more ports, of rng] .
  have "live_ok (s\<lparr>connPool := cp\<rparr>) e" if "e \<in> set xs - {ce}" for e
    using that inv cp(2) [THEN spec, of e] by (auto simp: c2c_inv_def live_ok_def same_data_def)
  moreover have "owned (s\<lparr>connPool := cp\<rparr>) (remove1 ce xs)"
  proof (rule owned_delete [of s xs ce "{}"])
    show "owned s xs" using inv by (simp add: c2c_inv_def)
    show "set (e_ports (elems (connPool s) ce)) = {}" by (simp add: ports)
    show "distinct xs" by (rule d)
    fix e assume "e \<in> set xs - {ce}"
    then show "e_conn (elems (connPool (s\<lparr>connPool := cp\<rparr>)) e) = e_conn (elems (connPool s) e)
      \<and> set (e_ports (elems (connPool s) e)) \<subseteq> set (e_ports (elems (connPool (s\<lparr>connPool := cp\<rparr>)) e))"
      using cp(2) [THEN spec, of e] by (simp add: same_data_def)
  qed simp_all
  ultimately have "c2c_inv (s\<lparr>connPool := cp\<rparr>) (remove1 ce xs)"
    using cp(1) inv d remove1_not_Nil [OF ce more] by (simp add: c2c_inv_def)
  with D show ?thesis by (simp add: c2c_defs)
qed

lemma Delete_member_inv:
  assumes inv: "c2c_inv s xs" and ce: "ce \<in> set xs" and more: "xs \<noteq> [ce]" and rng: "range_order rng"
    and ports: "e_ports (elems (connPool s) ce) \<noteq> []"
  shows "\<exists>s'. Delete rng ce s = Ret s' \<and> c2c_inv s' (remove1 ce xs)"
proof -
  have d: "distinct xs" using inv by (simp add: c2c_inv_def ring_def)
  let ?ps = "e_ports (elems (connPool s) ce)"
  obtain cp r c where cp: "ring cp (remove1 ce xs)" "r \<in> set (remove1 ce xs)" "r \<noteq> ce" "nextElem cp = nextElem (connPool s)"
    and same: "\<forall>x. same_data (elems cp x) (elems (connPool s) x)"
    and rc: "e_container (elems (connPool s) r) = Some c"
    and D: "Delete rng ce s = Ret (sendTerminationSignal (e_conn (elems (connPool s) ce)) (moved rng ce r c cp s))"
    using Delete_member [OF inv ce more rng ports] .
  define s1 where "s1 = moved rng ce r c cp s"
  have data: "e_conn (elems (connPool s1) e) = e_conn (elems (connPool s) e)"
    "e_container (elems (connPool s1) e) = e_container (elems (connPool s) e)"
    "e_crc2ConnMap (elems (connPool s1) e) = e_crc2ConnMap (elems (connPool s) e)"
    "set (e_ports (elems (connPool s1) e)) = set (e_ports (elems (connPool s) e)) \<union> (if e = r then set ?ps else {})" for e
    using same [THEN spec, of e] range_orderD [OF rng] by (auto simp: s1_def moved_def same_data_def)
  have "ring (connPool s1) (remove1 ce xs)" unfolding s1_def moved_def by (simp, rule ring_upd_elem [OF cp(1)]) auto
  moreover have "live_ok s1 e" if "e \<in> set xs - {ce}" for e
    using that inv ce data by (auto simp: c2c_inv_def live_ok_def s1_def moved_def split: if_splits)
  moreover have "owned s1 (remove1 ce xs)"
  proof (rule owned_delete [of s xs ce "set ?ps"])
    fix crc cn assume "crc2conn s1 crc = Some cn" "crc \<in> set ?ps"
    then show "\<exists>e \<in> set xs - {ce}. e_conn (elems (connPool s1) e) = cn \<and> crc \<in> set (e_ports (elems (connPool s1) e))"
      using cp(2,3) d data [of r] by (auto simp: s1_def moved_def intro!: bexI [of _ r])
  qed (use inv d data in \<open>auto simp: c2c_inv_def s1_def moved_def split: if_splits\<close>)
  moreover have "crcContainer s1 = crcContainer s" by (simp add: s1_def moved_def)
  ultimately have "c2c_inv s1 (remove1 ce xs)"
    using inv d remove1_not_Nil [OF ce more] by (simp add: c2c_inv_def)
  with D show ?thesis unfolding s1_def [symmetric] by (simp add: c2c_defs)
qed

lemmas Delete_invs = Delete_idle_inv Delete_member_inv

lemma Delete_again_eq:
  assumes "c2c_inv s xs" and "ce < nextElem (connPool s)" and "ce \<notin> set xs"
  shows "Delete rng ce s = Ret (s\<lparr>connPool :=
    upd_elem ce (\<lambda>e. e\<lparr>e_conn := None, e_container := None, e_crc2ConnMap := False\<rparr>) (connPool s)\<rparr>)"
proof -
  have "e_next (elems (connPool s) ce) = None" "e_prev (elems (connPool s) ce) = None"
    using assms by (auto simp: c2c_inv_def ring_def dead_def)
  then show ?thesis by (simp add: Delete_def Delete_unlink_def)
qed

lemma Delete_again:
  assumes inv: "c2c_inv s xs" and "ce < nextElem (connPool s)" and "ce \<notin> set xs"
  shows "\<exists>s'. Delete rng ce s = Ret s' \<and> c2c_inv s' xs"
proof -
  let ?cp = "upd_elem ce (\<lambda>e. e\<lparr>e_conn := None, e_container := None, e_crc2ConnMap := False\<rparr>) (connPool s)"
  have "ring ?cp xs" using inv by (auto simp: c2c_inv_def intro: ring_upd_elem)
  moreover have "owned (s\<lparr>connPool := ?cp\<rparr>) xs"
    by (rule owned_extend [of s xs]) (use inv assms(3) in \<open>auto simp: c2c_inv_def\<close>)
  ultimately have "c2c_inv (s\<lparr>connPool := ?cp\<rparr>) xs"
    using inv assms(3) by (auto simp: c2c_inv_def live_ok_def)
  then show ?thesis using Delete_again_eq [OF assms] by blast
qed

subsection \<open>Containers of the elements\<close>

text \<open>No operation gives an element another container; \<open>Delete\<close> keeps those of the other members.\<close>

abbreviation cptr :: "Crc2ConnMap \<Rightarrow> ptr \<Rightarrow> ptr option" where
  "cptr s e \<equiv> e_container (elems (connPool s) e)"

lemma register_cptr:
  assumes inv: "c2c_inv s xs"
  shows "\<exists>s'. register conn cnt s = Ret ((nextContainer s, nextElem (connPool s)), s')
    \<and> c2c_inv s' (xs @ [nextElem (connPool s)]) \<and> nextContainer s' = Suc (nextContainer s)
    \<and> nextElem (connPool s') = Suc (nextElem (connPool s))
    \<and> (\<forall>x. cptr s' x = (if x = nextElem (connPool s) then Some (nextContainer s) else cptr s x))"
proof -
  let ?e = "nextElem (connPool s)"
  from inv have r: "ring (connPool s) xs" by (simp add: c2c_inv_def)
  from ring_Add [OF r, of conn "nextContainer s"] obtain cp' where
    cp': "ConnPool_Add conn (nextContainer s) (connPool s) = Ret (?e, cp')"
      "e_container (elems cp' ?e) = Some (nextContainer s)" "nextElem cp' = Suc ?e"
    and same: "\<forall>x. x \<noteq> ?e \<longrightarrow> same_data (elems cp' x) (elems (connPool s) x)" by blast
  from register_inv [OF inv, of conn cnt] obtain s' where
    s': "register conn cnt s = Ret ((nextContainer s, ?e), s')" "c2c_inv s' (xs @ [?e])" by blast
  then have "connPool s' = cp'" "nextContainer s' = Suc (nextContainer s)"
    using cp'(1) by (auto simp: register_def Let_def)
  then show ?thesis using s' cp' same by (auto simp: same_data_def)
qed

lemma Get_cptr:
  assumes "Get crc now s = Ret (r, s')"
  shows "cptr s' = cptr s" and "nextContainer s' = nextContainer s" and "nextElem (connPool s') = nextElem (connPool s)"
  using assms
  by (auto simp: Get_def Get_miss_def Let_def ConnPool_Next_def AddCrc_def fun_eq_iff split: if_splits)

lemma flux_tick_cptr:
  assumes "flux_tick now t s = Ret (b, s')"
  shows "cptr s' = cptr s" and "nextContainer s' = nextContainer s" and "nextElem (connPool s') = nextElem (connPool s)"
  using assms by (auto simp: flux_tick_def Let_def split: option.splits if_splits)

lemma Delete_cptr:
  assumes inv: "c2c_inv s xs" and ce: "ce \<in> set xs" and more: "xs \<noteq> [ce]" and rng: "range_order rng"
  shows "\<exists>s'. Delete rng ce s = Ret s' \<and> c2c_inv s' (remove1 ce xs) \<and> nextContainer s' = nextContainer s
    \<and> nextElem (connPool s') = nextElem (connPool s)
    \<and> (\<forall>x. x \<noteq> ce \<longrightarrow> cptr s' x = cptr s x) \<and> cptr s' ce \<in> {cptr s ce, None}"
proof (cases "e_ports (elems (connPool s) ce) = []")
  case True
  obtain cp where cp: "ring cp (remove1 ce xs)" "\<forall>x. x \<noteq> ce \<longrightarrow> same_data (elems cp x) (elems (connPool s) x)"
    "e_container (elems cp ce) = None" "nextElem cp = nextElem (connPool s)"
    and D: "Delete rng ce s = Ret (sendTerminationSignal (e_conn (elems (connPool s) ce)) (s\<lparr>connPool := cp\<rparr>))"
    using Delete_idle [OF inv ce more True, of rng] .
  obtain s' where s': "Delete rng ce s = Ret s'" "c2c_inv s' (remove1 ce xs)"
    using Delete_idle_inv [OF inv ce more True] by blast
  with D have "s' = sendTerminationSignal (e_conn (elems (connPool s) ce)) (s\<lparr>connPool := cp\<rparr>)" by simp
  then show ?thesis using s' cp(2-4) by (auto simp: same_data_def)
next
  case False
  obtain cp r c where cp: "ring cp (remove1 ce xs)" "r \<in> set (remove1 ce xs)" "r \<noteq> ce" "nextElem cp = nextElem (connPool s)"
    "\<forall>x. same_data (elems cp x) (elems (connPool s) x)" "cptr s r = Some c"
    and D: "Delete rng ce s = Ret (sendTerminationSignal (e_conn (elems (connPool s) ce)) (moved rng ce r c cp s))"
    using Delete_member [OF inv ce more rng False] .
  obtain s' where s': "Delete rng ce s = Ret s'" "c2c_inv s' (remove1 ce xs)"
    using Delete_member_inv [OF inv ce more rng False] by blast
  with D have "s' = sendTerminationSignal (e_conn (elems (connPool s) ce)) (moved rng ce r c cp s)" by simp
  then show ?thesis using s' cp(4,5) by (auto simp: same_data_def moved_def)
qed

subsection \<open>Every step keeps the invariant\<close>

lemma c2c_step_inv:
  assumes "c2c_step rng s t" and "c2c_inv s xs" and "range_order rng"
  shows "\<exists>ys. c2c_inv t ys \<and> (xs \<noteq> [] \<longrightarrow> ys \<noteq> [])"
  using assms
proof (induction rule: c2c_step.induct)
  case (step_register conn cnt s r s')
  then show ?case using register_inv [of s xs conn cnt] by auto
next
  case (step_get crc now s r s')
  then show ?case using Get_inv [of s xs crc now] Get_empty [of s crc now] by (cases "xs = []") auto
next
  case (step_delete ce s s')
  show ?case
  proof (cases "ce \<in> set xs")
    case True
    have "xs \<noteq> [ce]"
      using step_delete by (auto simp: c2c_inv_def ring_def links_def)
    then show ?thesis
      using step_delete True Delete_invs [of s xs ce] remove1_not_Nil [OF True]
      by (metis go.inject)
  next
    case False
    then show ?thesis using step_delete Delete_again [of s xs ce rng] by auto
  qed
next
  case (step_tick t s now ended s')
  then have "c2c_inv s' xs" by (blast intro: flux_tick_inv)
  then have "c2c_inv (s'\<lparr>timers := ts\<rparr>) xs" for ts by (simp add: c2c_defs)
  with \<open>c2c_inv s' xs\<close> show ?case by auto
next
  case (step_stop t s)
  then have "c2c_inv (s\<lparr>timers := ts\<rparr>) xs" for ts by (simp add: c2c_defs)
  then show ?case by auto
qed

lemma c2c_reachable_inv:
  "c2c_reachable rng age s \<Longrightarrow> range_order rng \<Longrightarrow> \<exists>xs. c2c_inv s xs"
proof (induction rule: c2c_reachable.induct)
  case c2c_init
  then show ?case using c2c_inv_new by blast
next
  case (c2c_next s t)
  then show ?case using c2c_step_inv by blast
qed

section \<open>Sequences of lookups\<close>

text \<open>The packets of several flows, one after the other, as \<open>GetChan\<close> asks for them.\<close>

fun get_all :: "u16 list \<Rightarrow> int \<Rightarrow> Crc2ConnMap \<Rightarrow> (conn option list \<times> Crc2ConnMap) go" where
  "get_all [] now s = Ret ([], s)"
| "get_all (crc # crcs) now s = go_bind (Get crc now s) (\<lambda>((cn, _), s).
     go_bind (get_all crcs now s) (\<lambda>(cns, s). Ret (cn # cns, s)))"

lemma Get_new_flow:
  assumes inv: "c2c_inv s xs" and at: "ring_at (connPool s) xs k" and new: "crc2conn s crc = None"
  shows "\<exists>lk s'. Get crc now s = Ret ((e_conn (elems (connPool s) (xs ! k)), lk), s') \<and> c2c_inv s' xs
    \<and> ring_at (connPool s') xs (Suc k mod length xs)
    \<and> (\<forall>x. e_conn (elems (connPool s') x) = e_conn (elems (connPool s) x))
    \<and> (\<forall>crc'. crc' \<noteq> crc \<longrightarrow> crc2conn s' crc' = crc2conn s crc')"
proof -
  let ?s = "s\<lparr>crcFluxUsageMap := (crcFluxUsageMap s)(crc := Some now)\<rparr>"
  have mem: "xs ! k \<in> set xs" and ne: "xs \<noteq> []" using at by (auto simp: ring_at_def)
  then obtain c where c: "e_container (elems (connPool ?s) (xs ! k)) = Some c"
    using inv by (auto simp: c2c_inv_def live_ok_def)
  have at': "ring_at (connPool ?s) xs k" using at by simp
  have G: "Get crc now s = Get_miss crc ?s" using new by (simp add: Get_def Let_def Get_hit_def)
  obtain cp where cp: "ring_at cp xs (Suc k mod length xs)" "elems cp = elems (connPool ?s)"
    and eq: "Get_miss crc ?s = Ret ((e_conn (elems (connPool ?s) (xs ! k)), Some (nextSem ?s)),
      (upd_container c IncFluxes ?s)\<lparr>connPool := AddCrc crc (xs ! k) cp,
        crc2conn := (crc2conn ?s)(crc := Some (e_conn (elems (connPool ?s) (xs ! k)))),
        nextSem := Suc (nextSem ?s), crc2lock := (crc2lock ?s)(crc := Some (nextSem ?s)),
        crcContainer := (crcContainer ?s)(crc := Some (Some c)),
        timers := timers ?s @ [\<lparr>ft_crc = crc, ft_elem = xs ! k, ft_timeout = fluxMaxAge ?s, ft_from = None\<rparr>]\<rparr>)"
    using Get_miss_eq [OF at' c, of crc] .
  obtain cn lk s' where s': "Get crc now s = Ret ((cn, Some lk), s')" "c2c_inv s' xs"
    using Get_inv [OF inv ne] by blast
  have "connPool s' = AddCrc crc (xs ! k) cp" "cn = e_conn (elems (connPool s) (xs ! k))"
    "crc2conn s' = (crc2conn s)(crc := Some (e_conn (elems (connPool s) (xs ! k))))"
    using s'(1) eq G by auto
  moreover have "ring_at (AddCrc crc (xs ! k) cp) xs (Suc k mod length xs)"
    using cp(1) by (simp add: ring_at_def) (simp add: AddCrc_def upd_elem_def)
  ultimately show ?thesis using s' cp(2) by (auto simp: AddCrc_def)
qed

lemma get_all_new_flows:
  assumes "c2c_inv s xs" and "ring_at (connPool s) xs k" and "distinct crcs"
    and "\<forall>crc \<in> set crcs. crc2conn s crc = None"
  shows "\<exists>s'. get_all crcs now s = Ret (map (\<lambda>i. e_conn (elems (connPool s) (xs ! ((k + i) mod length xs)))) [0..<length crcs], s')"
  using assms
proof (induction crcs arbitrary: s k)
  case Nil
  then show ?case by simp
next
  case (Cons crc crcs)
  have kn: "k < length xs" using Cons.prems(2) by (simp add: ring_at_def)
  obtain lk s1 where s1: "Get crc now s = Ret ((e_conn (elems (connPool s) (xs ! k)), lk), s1)" "c2c_inv s1 xs"
    "ring_at (connPool s1) xs (Suc k mod length xs)"
    "\<forall>x. e_conn (elems (connPool s1) x) = e_conn (elems (connPool s) x)"
    "\<forall>crc'. crc' \<noteq> crc \<longrightarrow> crc2conn s1 crc' = crc2conn s crc'"
    using Get_new_flow [OF Cons.prems(1,2), of crc now] Cons.prems(4) by auto
  have "\<forall>c \<in> set crcs. crc2conn s1 c = None" using Cons.prems(3,4) s1(5) by fastforce
  from Cons.IH [OF s1(2,3) _ this] Cons.prems(3) obtain s2 where
    "get_all crcs now s1 = Ret (map (\<lambda>i. e_conn (elems (connPool s1) (xs ! ((Suc k mod length xs + i) mod length xs)))) [0..<length crcs], s2)"
    by auto
  then have "get_all (crc # crcs) now s = Ret (e_conn (elems (connPool s) (xs ! k)) #
      map (\<lambda>i. e_conn (elems (connPool s) (xs ! ((Suc k mod length xs + i) mod length xs)))) [0..<length crcs], s2)"
    using s1(1,4) by simp
  also have "e_conn (elems (connPool s) (xs ! k)) #
      map (\<lambda>i. e_conn (elems (connPool s) (xs ! ((Suc k mod length xs + i) mod length xs)))) [0..<length crcs]
    = map (\<lambda>i. e_conn (elems (connPool s) (xs ! ((k + i) mod length xs)))) [0..<length (crc # crcs)]"
    using kn by (simp add: upt_conv_Cons map_Suc_upt [symmetric] mod_simps del: upt_Suc map_Suc_upt)
  finally show ?case by blast
qed

lemma mset_rotation:
  assumes "k < length xs"
  shows "mset (map (\<lambda>i. f (xs ! ((k + i) mod length xs))) [0..<length xs]) = mset (map f xs)"
proof -
  have "map (\<lambda>i. f (xs ! ((k + i) mod length xs))) [0..<length xs] = map f (rotate k xs)"
    by (rule nth_equalityI) (use assms in \<open>auto simp: nth_rotate add.commute\<close>)
  moreover have "mset (rotate k xs) = mset xs"
    by (metis append_take_drop_id mset_append rotate_drop_take union_commute)
  ultimately show ?thesis by simp
qed

lemma Get_stores':
  assumes "Get crc now s = Ret (r, s')"
  shows "crc2conn s' crc = Some (fst r)" and "crc2lock s' crc = snd r"
  using assms
  by (auto simp: Get_def Get_hit_def Get_miss_def Let_def go_bind_eq_Ret split: option.splits if_splits)

lemma Get_stores:
  assumes "Get crc now s = Ret ((cn, Some lk), s')"
  shows "crc2lock s' crc = Some lk \<and> crc2conn s' crc = Some cn"
  using Get_stores' [OF assms] by simp

section \<open>Properties\<close>

text \<open>The maps of the examples: one and two registered containers, and a flow given to the first.\<close>

definition cnt_example :: Container where
  "cnt_example = \<lparr>c_Addr = [10, 0, 0, 1], c_Port = 9826, c_Fluxes = 0, c_Id = 1, c_Repl = False, c_MaxFluxes = 10\<rparr>"

definition go_state :: "('r \<times> 's) go \<Rightarrow> 's \<Rightarrow> 's" where
  "go_state r s = (case r of Ret (_, s') \<Rightarrow> s' | _ \<Rightarrow> s)"

definition c2c_one :: Crc2ConnMap where
  "c2c_one = go_state (register (Some 7) cnt_example (NewCrc2ConnMap 100)) (NewCrc2ConnMap 100)"

definition c2c_two :: Crc2ConnMap where
  "c2c_two = go_state (register (Some 8) cnt_example c2c_one) c2c_one"

definition c2c_flow :: Crc2ConnMap where
  "c2c_flow = go_state (Get 5 0 c2c_two) c2c_two"

lemma go_stateD:
  assumes "\<exists>r s'. m = Ret (r, s') \<and> P s'"
  obtains r where "m = Ret (r, go_state m s)" and "P (go_state m s)"
  using assms by (auto simp: go_state_def)

lemma c2c_examples:
  shows "c2c_inv c2c_one [0]" and "c2c_inv c2c_two [0, 1]" and "c2c_inv c2c_flow [0, 1]"
    and "c2c_reachable rng 100 c2c_one" and "c2c_reachable rng 100 c2c_two" and "c2c_reachable rng 100 c2c_flow"
proof -
  obtain r1 where 1: "register (Some 7) cnt_example (NewCrc2ConnMap 100) = Ret (r1, c2c_one)" "c2c_inv c2c_one [0]"
    unfolding c2c_one_def
    by (rule go_stateD [of "register (Some 7) cnt_example (NewCrc2ConnMap 100)" "\<lambda>s. c2c_inv s [0]" "NewCrc2ConnMap 100"])
      (use register_inv [OF c2c_inv_new, of "Some 7" cnt_example 100] in
        \<open>auto simp: NewCrc2ConnMap_def NewConnPool_def\<close>)
  have "nextElem (connPool c2c_one) = 1" unfolding c2c_one_def by code_simp
  then obtain r2 where 2: "register (Some 8) cnt_example c2c_one = Ret (r2, c2c_two)" "c2c_inv c2c_two [0, 1]"
    unfolding c2c_two_def
    by - (rule go_stateD [of "register (Some 8) cnt_example c2c_one" "\<lambda>s. c2c_inv s [0, 1]" c2c_one],
      use register_inv [OF 1(2), of "Some 8" cnt_example] in auto)
  obtain r3 where 3: "Get 5 0 c2c_two = Ret (r3, c2c_flow)" "c2c_inv c2c_flow [0, 1]"
    unfolding c2c_flow_def
    by (rule go_stateD [of "Get 5 0 c2c_two" "\<lambda>s. c2c_inv s [0, 1]" c2c_two])
      (use Get_inv [OF 2(2), of 5 0] in auto)
  show "c2c_inv c2c_one [0]" "c2c_inv c2c_two [0, 1]" "c2c_inv c2c_flow [0, 1]" by fact+
  show one: "c2c_reachable rng 100 c2c_one" by (rule c2c_next [OF c2c_init step_register [OF 1(1)]])
  show two: "c2c_reachable rng 100 c2c_two" by (rule c2c_next [OF one step_register [OF 2(1)]])
  show "c2c_reachable rng 100 c2c_flow" by (rule c2c_next [OF two step_get [OF 3(1)]])
qed

lemma c2c_flow_get: "\<exists>r. Get 5 0 c2c_two = Ret (r, c2c_flow)"
  using Get_inv [OF c2c_examples(2), of 5 0] by (auto simp: c2c_flow_def go_state_def)

lemma range_order_id: "range_order id"
  by (simp add: range_order_def)





text \<open>
  Flow affinity: after a lookup, a second lookup of the same flow returns the same connection
  and the same semaphore and leaves the pool and the containers alone, as long as the flow's
  container is not over its maximum.
\<close>

theorem Get_sticky:
  assumes "Get crc now s = Ret (r, s')" and "crcContainer s' crc = Some (Some c)"
    and "sint (GetFluxes (containers s' c)) \<le> sint (GetMaxFluxes (containers s' c))"
  shows "\<exists>s''. Get crc now' s' = Ret (r, s'') \<and> connPool s'' = connPool s' \<and> containers s'' = containers s'
    \<and> crcFluxUsageMap s'' crc = Some now'"
proof -
  have "crc2conn s' crc = Some (fst r)" "crc2lock s' crc = snd r" using Get_stores' [OF assms(1)] by auto
  then show ?thesis using assms(2,3) by (cases r) (simp add: Get_def Let_def Get_hit_def)
qed

theorem Get_sticky_witness:
  "\<exists>r s' s''. Get 5 0 c2c_two = Ret (r, s') \<and> Get 5 60 s' = Ret (r, s'') \<and> connPool s'' = connPool s'"
proof -
  obtain r where r: "Get 5 0 c2c_two = Ret (r, c2c_flow)"
    using c2c_flow_get by blast
  have "crcContainer c2c_flow 5 = Some (Some 0)" by code_simp
  moreover have "sint (GetFluxes (containers c2c_flow 0)) \<le> sint (GetMaxFluxes (containers c2c_flow 0))" by code_simp
  ultimately show ?thesis using Get_sticky [OF r, of 0 60] r by blast
qed

text \<open>
  C16: Load balancing: as many new flows as the pool has members are given to the members one each.
\<close>

theorem new_flows_spread_evenly:
  assumes "c2c_inv s xs" and "xs \<noteq> []" and "distinct crcs" and "length crcs = length xs"
    and "\<forall>crc \<in> set crcs. crc2conn s crc = None"
  shows "\<exists>cns s'. get_all crcs now s = Ret (cns, s') \<and> mset cns = mset (map (\<lambda>e. e_conn (elems (connPool s) e)) xs)"
proof -
  obtain k c where k: "ring_at (connPool s) xs k" using c2c_inv_cursor [OF assms(1,2)] by blast
  then have "k < length xs" by (simp add: ring_at_def)
  from mset_rotation [OF this, of "\<lambda>e. e_conn (elems (connPool s) e)"] get_all_new_flows [OF assms(1) k assms(3,5)] assms(4)
  show ?thesis by metis
qed

theorem new_flows_spread_evenly_witness:
  "\<exists>cns s'. get_all [3, 4] 0 c2c_two = Ret (cns, s') \<and> mset cns = mset [Some 7, Some 8]"
proof -
  have "\<forall>crc \<in> set [3, 4]. crc2conn c2c_two crc = None" by code_simp
  moreover have "map (\<lambda>e. e_conn (elems (connPool c2c_two) e)) [0, 1] = [Some 7, Some 8]" by code_simp
  ultimately show ?thesis
    using new_flows_spread_evenly [OF c2c_examples(2), of "[3, 4]" 0] by simp
qed

text \<open>
  C15: Deleting a member that carries flows hands them all over: another member receives every flow
  of the deleted one in the map and in its own list, its container's flux counter rises by one per
  flow, the flows of the others are untouched, and the deleted container is sent one termination
  message.
\<close>

theorem Delete_hands_over:
  assumes "c2c_inv s xs" and "ce \<in> set xs" and "xs \<noteq> [ce]" and "range_order rng"
    and "e_ports (elems (connPool s) ce) \<noteq> []" and "e_conn (elems (connPool s) ce) = Some cn"
  shows "\<exists>s' r c. Delete rng ce s = Ret s' \<and> r \<in> set xs - {ce} \<and> \<not> IsAlive ce (connPool s')
    \<and> e_container (elems (connPool s) r) = Some c
    \<and> (\<forall>p. crc2conn s' p = (if p \<in> set (e_ports (elems (connPool s) ce))
          then Some (e_conn (elems (connPool s) r)) else crc2conn s p))
    \<and> set (e_ports (elems (connPool s) ce)) \<subseteq> set (e_ports (elems (connPool s') r))
    \<and> containers s' c = (IncFluxes ^^ length (e_ports (elems (connPool s) ce))) (containers s c)
    \<and> sent s' = sent s @ [(cn, terminate_msg)]"
proof -
  have r: "ring (connPool s) xs" using assms(1) by (simp add: c2c_inv_def)
  then have d: "distinct xs" by (simp add: ring_def)
  obtain cp r c where cp: "ring cp (remove1 ce xs)" "r \<in> set (remove1 ce xs)" "r \<noteq> ce" "nextElem cp = nextElem (connPool s)"
    "\<forall>x. same_data (elems cp x) (elems (connPool s) x)" "e_container (elems (connPool s) r) = Some c"
    and D: "Delete rng ce s = Ret (sendTerminationSignal (e_conn (elems (connPool s) ce)) (moved rng ce r c cp s))"
    using Delete_member [OF assms(1-5)] .
  have "\<not> IsAlive ce (connPool (moved rng ce r c cp s))"
    using ring_IsAlive [OF cp(1), of ce] r assms(2) cp(3,4) d by (auto simp: moved_def IsAlive_def ring_def)
  moreover have "set (e_ports (elems (connPool s) ce)) \<subseteq> set (e_ports (elems (connPool (moved rng ce r c cp s)) r))"
    using range_orderD(1) [OF assms(4)] by (simp add: moved_def)
  ultimately show ?thesis
    unfolding D using cp(2,3,6) d assms(6)
    by (intro exI [of _ "sendTerminationSignal (Some cn) (moved rng ce r c cp s)"] exI [of _ r] exI [of _ c])
      (simp add: moved_def sendTerminationSignal_def)
qed

theorem Delete_hands_over_witness:
  "\<exists>s'. Delete id 0 c2c_flow = Ret s' \<and> crc2conn s' 5 = Some (Some 8) \<and> sent s' = [(7, terminate_msg)]"
proof -
  have ports: "e_ports (elems (connPool c2c_flow) 0) = [5]" and cn: "e_conn (elems (connPool c2c_flow) 0) = Some 7"
    and cn1: "e_conn (elems (connPool c2c_flow) 1) = Some 8" and sent: "sent c2c_flow = []" by code_simp+
  then show ?thesis
    using Delete_hands_over [OF c2c_examples(3), of 0 id 7] range_order_id by (auto simp: ports)
qed

text \<open>
  A second deletion of the same element breaks the goroutines the first one started: it clears the
  element's pointer to the map, and the next tick of a goroutine that watches a flow moved from this
  element dereferences it and panics.
\<close>

theorem Delete_twice_breaks_expiry:
  assumes "c2c_inv s xs" and "ce < nextElem (connPool s)" and "ce \<notin> set xs"
    and "t \<in> set (timers s)" and "ft_from t = Some ce"
  shows "\<exists>s'. Delete rng ce s = Ret s' \<and> t \<in> set (timers s') \<and> flux_tick now t s' = Panic NilDereference"
  using Delete_again_eq [OF assms(1-3)] assms(4,5) by (simp add: flux_tick_def)

definition c2c_deleted :: Crc2ConnMap where
  "c2c_deleted = (case Delete id 0 c2c_flow of Ret s \<Rightarrow> s | _ \<Rightarrow> c2c_flow)"

theorem Delete_twice_breaks_expiry_witness:
  "\<exists>t s'. t \<in> set (timers c2c_deleted) \<and> Delete id 0 c2c_deleted = Ret s' \<and> flux_tick 0 t s' = Panic NilDereference"
proof -
  have ports: "e_ports (elems (connPool c2c_flow) 0) \<noteq> []" by code_simp
  then have inv: "c2c_inv c2c_deleted [1]"
    using Delete_member_inv [OF c2c_examples(3), of 0 id] range_order_id by (auto simp: c2c_deleted_def)
  have t: "\<exists>t \<in> set (timers c2c_deleted). ft_from t = Some 0" by code_simp
  have "0 < nextElem (connPool c2c_deleted)" by code_simp
  then show ?thesis using t Delete_twice_breaks_expiry [OF inv, of 0] by fastforce
qed

text \<open>
  An idle flow expires: when a tick of the goroutine that \<open>Get\<close> started finds the flow unused for
  longer than its age, the flow leaves the map, its container's counter is decremented, the goroutine
  ends, and the next packet of the flow takes the slow path; a flow used within the age is kept.
\<close>

theorem flow_expires_when_idle:
  assumes "crcFluxUsageMap s (ft_crc t) = Some stamp" and "ft_from t = None"
    and "e_container (elems (connPool s) (ft_elem t)) = Some c"
  shows "if now - stamp > ft_timeout t
    then \<exists>s'. flux_tick now t s = Ret (True, s') \<and> crc2conn s' (ft_crc t) = None \<and> crcContainer s' (ft_crc t) = None
       \<and> containers s' c = DecFluxes (containers s c)
       \<and> (\<forall>now'. Get (ft_crc t) now' s' = Get_miss (ft_crc t) (s'\<lparr>crcFluxUsageMap := (crcFluxUsageMap s')(ft_crc t := Some now')\<rparr>))
    else flux_tick now t s = Ret (False, s)"
  using assms by (simp add: flux_tick_def Let_def Get_def Get_hit_def)

theorem flow_expires_when_idle_witness:
  "\<exists>t \<in> set (timers c2c_flow). \<exists>s'. flux_tick 101 t c2c_flow = Ret (True, s') \<and> crc2conn s' 5 = None
    \<and> flux_tick 100 t c2c_flow = Ret (False, c2c_flow)"
proof -
  let ?t = "\<lparr>ft_crc = 5, ft_elem = 0, ft_timeout = 100, ft_from = None\<rparr>"
  have t: "?t \<in> set (timers c2c_flow)" and u: "crcFluxUsageMap c2c_flow 5 = Some 0"
    and c: "e_container (elems (connPool c2c_flow) 0) = Some 0" by code_simp+
  show ?thesis
    using flow_expires_when_idle [of c2c_flow ?t 0 0 101] flow_expires_when_idle [of c2c_flow ?t 0 0 100] u c
    by (intro bexI [OF _ t]) auto
qed

end
