(* ===== verification/Rule_Map.thy ===== *)
theory Rule_Map
  imports Crc2Conn Packet_Crc
begin

text \<open>
  From a packet to a container: \<open>RuleMap\<close> of \<open>src/utils/rulemap.go\<close>, the rule that
  \<open>InitRuleMap\<close> (\<open>src/cnt/handler.go\<close>) installs for the NAT function, \<open>SendToContainer3\<close>
  and the UDP handler of \<open>src/udp/udp_handler.go\<close>.

  The flow maps live in a heap (\<open>gw_maps\<close>): the rule map holds pointers to them. A semaphore is
  identified by its map and its number in it; \<open>gw_sem\<close> is the state of each. The semaphores
  belong to the package \<open>golang.org/x/sync/semaphore\<close>: the type \<open>'w\<close> of their states and the
  calls \<open>Acquire(ctx, 1)\<close> and \<open>Release(1)\<close> are parameters. The datagrams written to the
  connections are the list \<open>gw_out\<close>.
\<close>

section \<open>Definitions\<close>

subsection \<open>Rules\<close>

type_synonym rule = "bytes \<Rightarrow> bool go"

text \<open>
  The key of an entry is the address of the parameter \<open>f\<close> of the call that added it, so every
  \<open>Add\<close> makes a new entry.
\<close>

record RuleMap =
  rules :: "(ptr \<times> rule \<times> ptr) list"
  nextRule :: ptr

definition NewRuleMap :: RuleMap where
  "NewRuleMap = \<lparr>rules = [], nextRule = 0\<rparr>"

definition RuleMap_Add :: "rule \<Rightarrow> ptr \<Rightarrow> RuleMap \<Rightarrow> RuleMap" where
  "RuleMap_Add f crc2Conn rm =
     rm\<lparr>rules := rules rm @ [(nextRule rm, f, crc2Conn)], nextRule := Suc (nextRule rm)\<rparr>"

text \<open>The function that \<open>InitRuleMap\<close> adds for the NAT containers.\<close>

definition nat_rule :: rule where
  "nat_rule pkt =
     go_bind (GetPortsFromPkt pkt) (\<lambda>(src, _, err).
     if err \<noteq> None then Ret False else Ret (src \<noteq> 53))"

type_synonym sem = "ptr \<times> nat"

text \<open>
  The loop of \<open>GetChan\<close> over the entries in the order the run time gives them. The error of
  \<open>PktCrc16\<close> is dropped.
\<close>

fun GetChan_loop :: "(bytes \<Rightarrow> u16) \<Rightarrow> bytes \<Rightarrow> int \<Rightarrow> (ptr \<times> rule \<times> ptr) list \<Rightarrow> (ptr \<Rightarrow> Crc2ConnMap) \<Rightarrow>
    ((conn option \<times> sem option) \<times> (ptr \<Rightarrow> Crc2ConnMap)) go" where
  "GetChan_loop ChecksumIBM pkt now [] maps = Ret ((None, None), maps)"
| "GetChan_loop ChecksumIBM pkt now ((_, rule, crc2Conn) # rest) maps =
     go_bind (rule pkt) (\<lambda>match.
     if match then
       go_bind (PktCrc16 ChecksumIBM pkt) (\<lambda>(code, _).
       go_bind (Get code now (maps crc2Conn)) (\<lambda>((cn, lk), s).
       Ret ((cn, map_option (Pair crc2Conn) lk), maps(crc2Conn := s))))
     else GetChan_loop ChecksumIBM pkt now rest maps)"

definition GetChan :: "(bytes \<Rightarrow> u16) \<Rightarrow> ((ptr \<times> rule \<times> ptr) list \<Rightarrow> (ptr \<times> rule \<times> ptr) list) \<Rightarrow>
    RuleMap \<Rightarrow> bytes \<Rightarrow> int \<Rightarrow> (ptr \<Rightarrow> Crc2ConnMap) \<Rightarrow>
    ((conn option \<times> sem option) \<times> (ptr \<Rightarrow> Crc2ConnMap)) go" where
  "GetChan ChecksumIBM order rm pkt now maps = GetChan_loop ChecksumIBM pkt now (order (rules rm)) maps"

subsection \<open>The UDP handler\<close>

record 'w gw_state =
  gw_maps :: "ptr \<Rightarrow> Crc2ConnMap"
  gw_sem :: "sem \<Rightarrow> 'w"
  gw_out :: "(conn \<times> bytes) list"

text \<open>A failed write is logged; it does not change the state.\<close>

definition SendToContainer3 :: "bytes \<Rightarrow> conn \<Rightarrow> 'w gw_state \<Rightarrow> 'w gw_state" where
  "SendToContainer3 pkt conn g = g\<lparr>gw_out := gw_out g @ [(conn, pkt)]\<rparr>"

text \<open>A call of a method of the flow's semaphore, whose pointer may be nil.\<close>

definition sem_call :: "('w \<Rightarrow> 'w go) \<Rightarrow> sem option \<Rightarrow> 'w gw_state \<Rightarrow> 'w gw_state go" where
  "sem_call f lock g = go_bind (deref lock) (\<lambda>l.
     go_bind (f (gw_sem g l)) (\<lambda>w. Ret (g\<lparr>gw_sem := (gw_sem g)(l := w)\<rparr>)))"

definition udp_HandleIncomingRequestsFromIPv4 ::
  "(bytes \<Rightarrow> u16) \<Rightarrow> ('w \<Rightarrow> 'w go) \<Rightarrow> ('w \<Rightarrow> 'w go) \<Rightarrow>
   ((ptr \<times> rule \<times> ptr) list \<Rightarrow> (ptr \<times> rule \<times> ptr) list) \<Rightarrow>
   bytes \<Rightarrow> RuleMap \<Rightarrow> int \<Rightarrow> 'w gw_state \<Rightarrow> 'w gw_state go" where
  "udp_HandleIncomingRequestsFromIPv4 ChecksumIBM Acquire Release1 order pktBuff ruleMap now g =
     go_bind (GetChan ChecksumIBM order ruleMap pktBuff now (gw_maps g)) (\<lambda>((outChan, lock), maps).
     let g = g\<lparr>gw_maps := maps\<rparr> in
     case outChan of
       None \<Rightarrow> Ret g
     | Some conn \<Rightarrow>
         go_bind (sem_call Acquire lock g) (\<lambda>g.
         let g = SendToContainer3 pktBuff conn g in
         sem_call Release1 lock g))"

text \<open>
  What the package documents of the two calls, for a semaphore that has weight left (\<open>avail\<close>):
  \<open>Acquire\<close> returns, and the \<open>Release\<close> that follows it returns and gives the weight back.
\<close>

definition semaphore_laws :: "('w \<Rightarrow> 'w go) \<Rightarrow> ('w \<Rightarrow> 'w go) \<Rightarrow> ('w \<Rightarrow> bool) \<Rightarrow> bool" where
  "semaphore_laws Acquire Release1 avail \<longleftrightarrow>
     (\<forall>w. avail w \<longrightarrow> (\<exists>w' w''. Acquire w = Ret w' \<and> Release1 w' = Ret w'' \<and> avail w''))"

text \<open>What \<open>range\<close> over the rule map promises: every entry once, in some order.\<close>

definition rule_order :: "((ptr \<times> rule \<times> ptr) list \<Rightarrow> (ptr \<times> rule \<times> ptr) list) \<Rightarrow> bool" where
  "rule_order order \<longleftrightarrow> (\<forall>es. mset (order es) = mset es)"

section \<open>Lemmas\<close>

lemma nat_rule_by_length:
  "nat_rule pkt = (if length pkt < 4 then Ret False else if length pkt < 24 then Panic IndexOutOfRange
     else Ret (be16 (pkt ! 20) (pkt ! 21) \<noteq> 53))"
  by (simp add: nat_rule_def GetPortsFromPkt_def GetPortsFromBytes_consecutive)

lemma PktCrc16_complete:
  "24 \<le> length p \<Longrightarrow> PktCrc16 ck p = Ret (ck (hash_input p), None)"
  by (simp add: PktCrc16_def udp_fields.crc_by_length)

lemma rule_order_single: "rule_order order \<Longrightarrow> order [e] = [e]"
  by (metis rule_order_def mset_single_iff mset_single_iff_right)

lemma GetChan_no_match:
  "(\<And>k r m. (k, r, m) \<in> set es \<Longrightarrow> r pkt = Ret False) \<Longrightarrow> GetChan_loop ck pkt now es maps = Ret ((None, None), maps)"
proof (induction es)
  case (Cons e es)
  obtain k r m where e: "e = (k, r, m)" by (cases e)
  then have "r pkt = Ret False" using Cons.prems by auto
  then show ?case using Cons e by auto
qed simp

lemma GetChan_one_match:
  assumes "(k, r, m) \<in> set es" and "r pkt = Ret True"
    and "\<And>k' r' m'. (k', r', m') \<in> set es \<Longrightarrow> (k', r', m') \<noteq> (k, r, m) \<Longrightarrow> r' pkt = Ret False"
  shows "GetChan_loop ck pkt now es maps = GetChan_loop ck pkt now [(k, r, m)] maps"
  using assms
proof (induction es)
  case (Cons e es)
  obtain k' r' m' where e: "e = (k', r', m')" by (cases e)
  show ?case
  proof (cases "e = (k, r, m)")
    case True
    then show ?thesis using Cons.prems(2) by simp
  next
    case False
    then have "r' pkt = Ret False" using Cons.prems(3) e by auto
    then show ?thesis using Cons False e by auto
  qed
qed simp

text \<open>The whole handler on a packet whose flow has a connection.\<close>

lemma handler_forwards:
  assumes laws: "semaphore_laws Acquire Release1 avail" and av: "\<And>l. avail (gw_sem g l)"
    and chan: "GetChan ck order rm pkt now (gw_maps g) = Ret ((Some cn, Some l), maps)"
  obtains sm where "udp_HandleIncomingRequestsFromIPv4 ck Acquire Release1 order pkt rm now g =
      Ret \<lparr>gw_maps = maps, gw_sem = sm, gw_out = gw_out g @ [(cn, pkt)]\<rparr>" and "\<And>l. avail (sm l)"
proof -
  obtain w' w'' where w: "Acquire (gw_sem g l) = Ret w'" "Release1 w' = Ret w''" "avail w''"
    using laws av [of l] unfolding semaphore_laws_def by blast
  show thesis
    by (rule that [of "(gw_sem g)(l := w'')"])
      (use w av chan in \<open>cases g, auto simp: udp_HandleIncomingRequestsFromIPv4_def Let_def sem_call_def SendToContainer3_def\<close>)
qed

text \<open>A rule map with the NAT rule only, as \<open>InitRuleMap\<close> builds it.\<close>

definition nat_rules :: "ptr \<Rightarrow> RuleMap" where
  "nat_rules m = RuleMap_Add nat_rule m NewRuleMap"

lemma GetChan_nat:
  assumes "rule_order order" and "24 \<le> length pkt"
  shows "GetChan ck order (nat_rules m) pkt now maps =
    (if be16 (pkt ! 20) (pkt ! 21) = 53 then Ret ((None, None), maps)
     else go_bind (Get (ck (hash_input pkt)) now (maps m)) (\<lambda>((cn, lk), s).
       Ret ((cn, map_option (Pair m) lk), maps(m := s))))"
  using assms(2)
  by (simp add: GetChan_def nat_rules_def RuleMap_Add_def NewRuleMap_def rule_order_single [OF assms(1)]
    nat_rule_by_length PktCrc16_complete)

text \<open>Conversely, a packet that was written belongs to a mapped flow that is not DNS.\<close>

lemma handler_wrote:
  assumes "udp_HandleIncomingRequestsFromIPv4 ck Acquire Release1 order p (nat_rules m) now g = Ret g'"
    and "gw_out g' = gw_out g @ [(cn, p)]" and "rule_order order" and "24 \<le> length p"
  obtains lk where "crc2conn (gw_maps g' m) (ck (hash_input p)) = Some (Some cn)"
    and "crc2lock (gw_maps g' m) (ck (hash_input p)) = Some lk" and "be16 (p ! 20) (p ! 21) \<noteq> 53"
proof -
  have dns: "be16 (p ! 20) (p ! 21) \<noteq> 53"
    using assms by (auto simp: udp_HandleIncomingRequestsFromIPv4_def GetChan_nat Let_def)
  then obtain c lk s where G: "Get (ck (hash_input p)) now (gw_maps g m) = Ret ((c, lk), s)"
    using assms(1) by (auto simp: udp_HandleIncomingRequestsFromIPv4_def GetChan_nat [OF assms(3,4)])
  have st: "crc2conn s (ck (hash_input p)) = Some c" "crc2lock s (ck (hash_input p)) = lk"
    using Get_stores' [OF G] by simp_all
  have "c = Some cn" "gw_maps g' m = s" "lk \<noteq> None"
    using assms(1,2) G dns
    by (auto simp: udp_HandleIncomingRequestsFromIPv4_def GetChan_nat [OF assms(3,4)] Let_def sem_call_def
      SendToContainer3_def split: option.splits)
  then show thesis using that st dns by (cases lk) auto
qed

text \<open>With a container registered, a packet that passes the rule is handled completely.\<close>

lemma handler_total:
  assumes inv: "c2c_inv (gw_maps g m) xs" and ne: "xs \<noteq> []" and ord: "rule_order order"
    and laws: "semaphore_laws Acquire Release1 avail" and av: "\<forall>l. avail (gw_sem g l)"
    and len: "24 \<le> length pkt" and dns: "be16 (pkt ! 20) (pkt ! 21) \<noteq> 53"
  shows "\<exists>g' cn. udp_HandleIncomingRequestsFromIPv4 ck Acquire Release1 order pkt (nat_rules m) now g = Ret g'
    \<and> c2c_inv (gw_maps g' m) xs \<and> crc2conn (gw_maps g' m) (ck (hash_input pkt)) = Some cn
    \<and> gw_out g' = gw_out g @ (case cn of None \<Rightarrow> [] | Some c \<Rightarrow> [(c, pkt)]) \<and> (\<forall>l. avail (gw_sem g' l))"
proof -
  obtain cn lk s where G: "Get (ck (hash_input pkt)) now (gw_maps g m) = Ret ((cn, Some lk), s)" and inv': "c2c_inv s xs"
    using Get_inv [OF inv ne] by blast
  have cn: "crc2conn s (ck (hash_input pkt)) = Some cn" using Get_stores [OF G] by simp
  have chan: "GetChan ck order (nat_rules m) pkt now (gw_maps g) = Ret ((cn, Some (m, lk)), (gw_maps g)(m := s))"
    using len dns G by (simp add: GetChan_nat [OF ord])
  show ?thesis
  proof (cases cn)
    case None
    then show ?thesis using chan cn av inv' by (auto simp: udp_HandleIncomingRequestsFromIPv4_def Let_def)
  next
    case (Some c)
    obtain sm where "udp_HandleIncomingRequestsFromIPv4 ck Acquire Release1 order pkt (nat_rules m) now g =
        Ret \<lparr>gw_maps = (gw_maps g)(m := s), gw_sem = sm, gw_out = gw_out g @ [(c, pkt)]\<rparr>" and "\<And>l. avail (sm l)"
      using handler_forwards [OF laws, of g ck order "nat_rules m" pkt now c "(m, lk)"] av chan Some by blast
    then show ?thesis using cn Some inv' by auto
  qed
qed

section \<open>Properties\<close>

text \<open>
  C11: A complete UDP packet that is not a DNS answer, arriving while a container is registered, is
  handled without a panic or a wait: its flow is assigned to a connection, and the packet is written
  to that connection exactly once (it is dropped only when that connection could not be opened).
\<close>

theorem udp_packet_forwarded_once:
  assumes "c2c_reachable rng age (gw_maps g m)" and "range_order rng" and "rule_order order"
    and "semaphore_laws Acquire Release1 avail" and "\<forall>l. avail (gw_sem g l)"
    and "headElem (connPool (gw_maps g m)) \<noteq> None" and "24 \<le> length pkt" and "be16 (pkt ! 20) (pkt ! 21) \<noteq> 53"
  shows "\<exists>g' cn. udp_HandleIncomingRequestsFromIPv4 ck Acquire Release1 order pkt (nat_rules m) now g = Ret g'
    \<and> crc2conn (gw_maps g' m) (ck (hash_input pkt)) = Some cn
    \<and> gw_out g' = gw_out g @ (case cn of None \<Rightarrow> [] | Some c \<Rightarrow> [(c, pkt)]) \<and> (\<forall>l. avail (gw_sem g' l))"
proof -
  obtain xs where inv: "c2c_inv (gw_maps g m) xs" using c2c_reachable_inv [OF assms(1,2)] by blast
  then have "xs \<noteq> []" using assms(6) by (auto simp: c2c_inv_def ring_def)
  then show ?thesis using handler_total [OF inv _ assms(3-5,7,8)] by blast
qed

text \<open>A counting semaphore of weight 1000000 and a gateway with two containers, for the examples.\<close>

definition acquire_ex :: "int \<Rightarrow> int go" where
  "acquire_ex w = (if w < 1000000 then Ret (w + 1) else Block)"

definition release_ex :: "int \<Rightarrow> int go" where
  "release_ex w = (if w \<le> 0 then Panic Panicked else Ret (w - 1))"

definition gw_ex :: "int gw_state" where
  "gw_ex = \<lparr>gw_maps = (\<lambda>_. c2c_two), gw_sem = (\<lambda>_. 0), gw_out = []\<rparr>"

definition ck_ex :: "bytes \<Rightarrow> u16" where
  "ck_ex bs = ucast (sum_list bs)"

abbreviation (input) pkt_ex :: bytes where "pkt_ex \<equiv> replicate 24 1"

lemma ex_laws:
  "semaphore_laws acquire_ex release_ex (\<lambda>w. 0 \<le> w \<and> w < 1000000)" "rule_order id"
  by (auto simp: semaphore_laws_def acquire_ex_def release_ex_def rule_order_def)

lemma ex_pkt: "be16 (pkt_ex ! 20) (pkt_ex ! 21) \<noteq> 53" "headElem (connPool (gw_maps gw_ex 0)) \<noteq> None"
  "be16 1 1 \<noteq> 53"
  by code_simp+

lemma gw_ex_chan: "\<exists>cn l maps. GetChan ck_ex id (nat_rules 0) pkt_ex 0 (gw_maps gw_ex) = Ret ((Some cn, Some l), maps)"
proof -
  let ?crc = "ck_ex (hash_input pkt_ex)"
  have cur: "currElem (connPool c2c_two) = Some 0" by code_simp
  have "c2c_inv c2c_two [0, 1]" by (rule c2c_examples)
  moreover have "ring_at (connPool c2c_two) [0, 1] 0"
    using c2c_examples(2) cur by (simp add: ring_at_def c2c_inv_def)
  moreover have "crc2conn c2c_two ?crc = None" by code_simp
  ultimately obtain lk s' where G: "Get ?crc 0 c2c_two = Ret ((e_conn (elems (connPool c2c_two) 0), lk), s')"
    "c2c_inv s' [0, 1]" using Get_new_flow [of c2c_two "[0, 1]" 0 ?crc 0] by auto
  moreover have "e_conn (elems (connPool c2c_two) 0) = Some 7" by code_simp
  moreover obtain l where "lk = Some l"
    using G Get_inv [OF c2c_examples(2), of ?crc 0] by auto
  ultimately show ?thesis by (simp add: GetChan_nat [OF ex_laws(2)] ex_pkt(3)) (simp add: gw_ex_def)
qed

theorem udp_packet_forwarded_once_witness:
  "\<exists>g' cn. udp_HandleIncomingRequestsFromIPv4 ck_ex acquire_ex release_ex id pkt_ex (nat_rules 0) 0 gw_ex = Ret g'
    \<and> crc2conn (gw_maps g' 0) (ck_ex (hash_input pkt_ex)) = Some cn
    \<and> gw_out g' = (case cn of None \<Rightarrow> [] | Some c \<Rightarrow> [(c, pkt_ex)])"
proof -
  have "c2c_reachable id 100 (gw_maps gw_ex 0)" using c2c_examples(5) by (simp add: gw_ex_def)
  moreover have "\<forall>l. 0 \<le> gw_sem gw_ex l \<and> gw_sem gw_ex l < 1000000" "gw_out gw_ex = []" by (simp_all add: gw_ex_def)
  ultimately show ?thesis
    using udp_packet_forwarded_once [OF _ range_order_id ex_laws(2,1) _ ex_pkt(2) _ ex_pkt(1), of 100 ck_ex 0] by auto
qed

text \<open>
  Packets the handler does not forward: fewer than four bytes or, in a complete header, source
  port 53 (DNS answers) are dropped with no effect; 4 to 23 bytes panic, because the port extractor
  checks for four bytes and reads the 24th.
\<close>

theorem udp_packet_not_forwarded:
  assumes "rule_order order" and "length pkt < 24 \<or> be16 (pkt ! 20) (pkt ! 21) = 53"
  shows "udp_HandleIncomingRequestsFromIPv4 ck Acquire Release1 order pkt (nat_rules m) now g =
    (if 4 \<le> length pkt \<and> length pkt < 24 then Panic IndexOutOfRange else Ret g)"
proof -
  have short: "GetChan ck order (nat_rules m) pkt now (gw_maps g) =
      (if length pkt < 4 then Ret ((None, None), gw_maps g) else Panic IndexOutOfRange)" if "length pkt < 24"
    using that by (simp add: GetChan_def nat_rules_def RuleMap_Add_def NewRuleMap_def
      rule_order_single [OF assms(1)] nat_rule_by_length)
  have full: "GetChan ck order (nat_rules m) pkt now (gw_maps g) = Ret ((None, None), gw_maps g)" if "24 \<le> length pkt"
    using that assms(2) by (simp add: GetChan_nat [OF assms(1)])
  show ?thesis
    using short full by (cases g, cases "length pkt < 24") (simp_all add: udp_HandleIncomingRequestsFromIPv4_def)
qed

theorem udp_packet_not_forwarded_witness:
  "udp_HandleIncomingRequestsFromIPv4 ck_ex acquire_ex release_ex id (replicate 23 0) (nat_rules 0) 0 gw_ex =
    Panic IndexOutOfRange"
  using udp_packet_not_forwarded [OF ex_laws(2), of "replicate 23 0"] by simp

text \<open>
  C17: End-to-end flow affinity: when a packet has been written to a connection and its flow's container
  is within its maximum, the next packet with the same addresses and ports is written to the same
  connection.
\<close>

theorem udp_flow_affinity:
  assumes "udp_HandleIncomingRequestsFromIPv4 ck Acquire Release1 order p (nat_rules m) now g = Ret g'"
    and "gw_out g' = gw_out g @ [(cn, p)]"
    and "rule_order order" and "semaphore_laws Acquire Release1 avail" and "\<forall>l. avail (gw_sem g' l)"
    and "24 \<le> length p" and "24 \<le> length q" and "flow_key p = flow_key q"
    and "crcContainer (gw_maps g' m) (ck (hash_input p)) = Some (Some c)"
    and "sint (GetFluxes (containers (gw_maps g' m) c)) \<le> sint (GetMaxFluxes (containers (gw_maps g' m) c))"
  shows "\<exists>g''. udp_HandleIncomingRequestsFromIPv4 ck Acquire Release1 order q (nat_rules m) now' g' = Ret g''
    \<and> gw_out g'' = gw_out g' @ [(cn, q)]"
proof -
  obtain lk where st: "crc2conn (gw_maps g' m) (ck (hash_input p)) = Some (Some cn)"
    "crc2lock (gw_maps g' m) (ck (hash_input p)) = Some lk" "be16 (p ! 20) (p ! 21) \<noteq> 53"
    using handler_wrote [OF assms(1-3,6)] .
  have eq: "hash_input q = hash_input p" "be16 (q ! 20) (q ! 21) = be16 (p ! 20) (p ! 21)"
    using assms(6-8) flow_key_nth [of 8 p] flow_key_nth [of 8 q] flow_key_nth [of 9 p] flow_key_nth [of 9 q]
    by (simp_all add: hash_input_def)
  have "\<exists>s. Get (ck (hash_input p)) now' (gw_maps g' m) = Ret ((Some cn, Some lk), s)"
    using st assms(9,10) by (simp add: Get_def Let_def Get_hit_def)
  then obtain s where "Get (ck (hash_input p)) now' (gw_maps g' m) = Ret ((Some cn, Some lk), s)" ..
  then have "GetChan ck order (nat_rules m) q now' (gw_maps g') = Ret ((Some cn, Some (m, lk)), (gw_maps g')(m := s))"
    using st(3) eq by (simp add: GetChan_nat [OF assms(3,7)])
  then obtain sm where "udp_HandleIncomingRequestsFromIPv4 ck Acquire Release1 order q (nat_rules m) now' g' =
      Ret \<lparr>gw_maps = (gw_maps g')(m := s), gw_sem = sm, gw_out = gw_out g' @ [(cn, q)]\<rparr>"
    using handler_forwards [OF assms(4), of g' ck order "nat_rules m" q now' cn "(m, lk)"] assms(5) by blast
  then show ?thesis by simp
qed

definition gw_after :: "int gw_state" where
  "gw_after = (case udp_HandleIncomingRequestsFromIPv4 ck_ex acquire_ex release_ex id pkt_ex (nat_rules 0) 0 gw_ex of
     Ret g \<Rightarrow> g | _ \<Rightarrow> gw_ex)"

lemma gw_after_ret:
  "udp_HandleIncomingRequestsFromIPv4 ck_ex acquire_ex release_ex id pkt_ex (nat_rules 0) 0 gw_ex = Ret gw_after
   \<and> (\<forall>l. 0 \<le> gw_sem gw_after l \<and> gw_sem gw_after l < 1000000)"
proof -
  obtain cn l maps where chan: "GetChan ck_ex id (nat_rules 0) pkt_ex 0 (gw_maps gw_ex) = Ret ((Some cn, Some l), maps)"
    using gw_ex_chan by blast
  show ?thesis
    by (rule handler_forwards [OF ex_laws(1) _ chan]) (auto simp: gw_after_def gw_ex_def)
qed

theorem udp_flow_affinity_witness:
  "\<exists>g''. udp_HandleIncomingRequestsFromIPv4 ck_ex acquire_ex release_ex id (pkt_ex @ [5]) (nat_rules 0) 9 gw_after = Ret g''
    \<and> gw_out g'' = [(7, pkt_ex), (7, pkt_ex @ [5])]"
proof -
  have out: "gw_out gw_after = [(7, pkt_ex)]" by code_simp
  then have out': "gw_out gw_after = gw_out gw_ex @ [(7, pkt_ex)]" by (simp add: gw_ex_def)
  have c: "crcContainer (gw_maps gw_after 0) (ck_ex (hash_input pkt_ex)) = Some (Some 0)" by code_simp
  have f: "sint (GetFluxes (containers (gw_maps gw_after 0) 0)) \<le> sint (GetMaxFluxes (containers (gw_maps gw_after 0) 0))"
    by code_simp
  have k: "flow_key pkt_ex = flow_key (pkt_ex @ [5])" by code_simp
  have H: "udp_HandleIncomingRequestsFromIPv4 ck_ex acquire_ex release_ex id pkt_ex (nat_rules 0) 0 gw_ex = Ret gw_after"
    and av: "\<forall>l. 0 \<le> gw_sem gw_after l \<and> gw_sem gw_after l < 1000000"
    using gw_after_ret by blast+
  show ?thesis
    using udp_flow_affinity [OF H out' ex_laws(2,1) av _ _ k c f, of 9] unfolding out by simp
qed

text \<open>
  When exactly one rule matches a packet, the order in which Go ranges over the rule map does not
  matter: \<open>GetChan\<close> asks the flow map of that rule.
\<close>

theorem GetChan_order_irrelevant:
  assumes "rule_order order" and "(k, r, m) \<in> set (rules rm)" and "r pkt = Ret True"
    and "\<forall>k' r' m'. (k', r', m') \<in> set (rules rm) \<and> (k', r', m') \<noteq> (k, r, m) \<longrightarrow> r' pkt = Ret False"
  shows "GetChan ck order rm pkt now maps =
    go_bind (PktCrc16 ck pkt) (\<lambda>(code, _). go_bind (Get code now (maps m)) (\<lambda>((cn, lk), s).
      Ret ((cn, map_option (Pair m) lk), maps(m := s))))"
proof -
  have "set (order (rules rm)) = set (rules rm)"
    using assms(1) by (metis rule_order_def set_mset_mset)
  then have "GetChan_loop ck pkt now (order (rules rm)) maps = GetChan_loop ck pkt now [(k, r, m)] maps"
    using assms(2-4) by (intro GetChan_one_match) (simp_all, blast)
  then show ?thesis using assms(3) by (simp add: GetChan_def)
qed

theorem GetChan_order_irrelevant_witness:
  "GetChan ck_ex rev (nat_rules 0) pkt_ex 0 (\<lambda>_. c2c_two) =
    go_bind (PktCrc16 ck_ex pkt_ex) (\<lambda>(code, _). go_bind (Get code 0 c2c_two) (\<lambda>((cn, lk), s).
      Ret ((cn, map_option (Pair 0) lk), (\<lambda>_. c2c_two)(0 := s))))"
  by (rule GetChan_order_irrelevant [where k = 0 and r = nat_rule])
    (auto simp: rule_order_def nat_rules_def RuleMap_Add_def NewRuleMap_def nat_rule_by_length ex_pkt(3))

end
