(* ===== verification/Float64.thy ===== *)
theory Float64
  imports Go_Prelude Complex_Main "HOL-Library.Log_Nat"
begin

text \<open>
  The part of Go's \<open>float64\<close> that the scaling code and the speed meters use: conversion of integers,
  quotients and products rounded to 53 significant bits, half to even, comparisons that are false on NaN, and
  \<open>math.Ceil\<close>, \<open>math.Floor\<close>, \<open>math.Max\<close>. A finite value is the rational it stands for. The
  exponent is unbounded: the values of the program (counters below $2^{32}$, list lengths and
  constants near one) stay far from overflow and from the subnormal range.
\<close>

section \<open>Definitions\<close>

datatype f64 = NaN | PInf | NInf | Fin rat

text \<open>Round half to even.\<close>

definition rhe :: "rat \<Rightarrow> int" where
  "rhe x = (let f = \<lfloor>x\<rfloor>; r = x - of_int f in
     if r < 1/2 then f else if r > 1/2 then f + 1 else if even f then f else f + 1)"

text \<open>The power of two that scales a positive number into $[2^{52}, 2^{53})$.\<close>

definition fl_shift :: "rat \<Rightarrow> int" where
  "fl_shift x = (case quotient_of x of (n, d) \<Rightarrow>
     let s = 52 - (bitlen n - bitlen d) in if x * 2 powi s < 2 ^ 52 then s + 1 else s)"

definition fl :: "rat \<Rightarrow> rat" where
  "fl x = (if x \<le> 0 then 0 else of_int (rhe (x * 2 powi fl_shift x)) * 2 powi (- fl_shift x))"

definition f64_div :: "nat \<Rightarrow> nat \<Rightarrow> f64" where
  "f64_div n d = (if d = 0 then (if n = 0 then NaN else PInf) else Fin (fl (of_nat n / of_nat d)))"

definition f64_ge :: "f64 \<Rightarrow> rat \<Rightarrow> bool" where
  "f64_ge a y = (case a of NaN \<Rightarrow> False | PInf \<Rightarrow> True | NInf \<Rightarrow> False | Fin x \<Rightarrow> y \<le> x)"

definition f64_le :: "f64 \<Rightarrow> rat \<Rightarrow> bool" where
  "f64_le a y = (case a of NaN \<Rightarrow> False | PInf \<Rightarrow> False | NInf \<Rightarrow> True | Fin x \<Rightarrow> x \<le> y)"

text \<open>The conversion of a signed integer and the quotient of two floats, which may be zero or negative.\<close>

definition f64_of_int :: "int \<Rightarrow> rat" where
  "f64_of_int n = (if n < 0 then - fl (of_int (- n)) else fl (of_int n))"

definition f64_quot :: "rat \<Rightarrow> rat \<Rightarrow> f64" where
  "f64_quot x y =
     (if y = 0 then (if x = 0 then NaN else if x < 0 then NInf else PInf)
      else if x / y < 0 then Fin (- fl (- (x / y))) else Fin (fl (x / y)))"

section \<open>Lemmas\<close>

lemma rhe_of_int [simp]: "rhe (of_int m) = m"
  by (simp add: rhe_def Let_def)

lemma rhe_ge_floor: "\<lfloor>x\<rfloor> \<le> rhe x"
  by (simp add: rhe_def Let_def)

text \<open>The scaled number has exactly 53 bits before the point.\<close>

lemma bitlen_powi:
  assumes "0 < n"
  shows "(2::rat) powi (bitlen n - 1) \<le> of_int n" and "of_int n < (2::rat) powi (bitlen n)"
proof -
  have b: "2 ^ nat (bitlen n - 1) \<le> n" "n < 2 ^ nat (bitlen n)" using bitlen_bounds [OF assms] by auto
  have "0 < bitlen n" using b(2) assms by (cases "0 < bitlen n") auto
  then have p: "(2::rat) powi (bitlen n - 1) = of_int (2 ^ nat (bitlen n - 1))"
    "(2::rat) powi (bitlen n) = of_int (2 ^ nat (bitlen n))" by (simp_all add: power_int_def)
  show "(2::rat) powi (bitlen n - 1) \<le> of_int n" unfolding p of_int_le_iff by (rule b)
  show "of_int n < (2::rat) powi (bitlen n)" unfolding p of_int_less_iff by (rule b)
qed

lemma fl_shift_bounds:
  assumes "0 < x"
  shows "2 ^ 52 \<le> x * 2 powi fl_shift x" and "x * 2 powi fl_shift x < 2 ^ 53"
proof -
  obtain n d where q: "quotient_of x = (n, d)" by (cases "quotient_of x")
  then have x: "x = of_int n / of_int d" and d: "0 < d"
    using quotient_of_div quotient_of_denom_pos by blast+
  with assms have n: "0 < n" by (simp add: zero_less_divide_iff)
  let ?s = "52 - (bitlen n - bitlen d)"
  have pos: "0 < (of_int d :: rat)" using d by simp
  have hi: "of_int n * (2::rat) powi ?s < 2 powi (bitlen n) * 2 powi ?s"
    using bitlen_powi(2) [OF n] by (simp add: power_int_def)
  have "(2::rat) powi (bitlen n) * 2 powi ?s = 2 ^ 53 * 2 powi (bitlen d - 1)"
    by (simp add: power_int_add [symmetric] power_int_numeral [symmetric] del: power_int_numeral)
  also have "\<dots> \<le> 2 ^ 53 * of_int d" using bitlen_powi(1) [OF d] by simp
  finally have "of_int n * (2::rat) powi ?s < 2 ^ 53 * of_int d" using hi by (rule order.strict_trans2 [rotated])
  then have u: "x * 2 powi ?s < 2 ^ 53" using pos unfolding x by (simp add: pos_divide_less_eq)
  have "(2::rat) ^ 51 * of_int d < 2 ^ 51 * 2 powi (bitlen d)" using bitlen_powi(2) [OF d] by simp
  also have "\<dots> = 2 powi (bitlen n - 1) * 2 powi ?s"
    by (simp add: power_int_add [symmetric] power_int_numeral [symmetric] del: power_int_numeral)
  also have "\<dots> \<le> of_int n * 2 powi ?s" using bitlen_powi(1) [OF n] by (simp add: mult_right_mono)
  finally have l: "2 ^ 51 < x * 2 powi ?s" using pos unfolding x by (simp add: pos_less_divide_eq)
  have step: "x * 2 powi (k + 1) = 2 * (x * 2 powi k)" for k by (simp add: power_int_add)
  define k where "k = ?s"
  have "fl_shift x = (if x * 2 powi k < 2 ^ 52 then k + 1 else k)"
    using q by (simp add: fl_shift_def Let_def k_def)
  then show "2 ^ 52 \<le> x * 2 powi fl_shift x" "x * 2 powi fl_shift x < 2 ^ 53"
    using l u step [of k] unfolding k_def [symmetric] by auto
qed

lemma powi_minus_mult [simp]: "(2::rat) powi s * 2 powi (- s) = 1"
  by (simp add: power_int_minus)

text \<open>Rounding keeps positive numbers positive, and numbers with at most 53 significant bits exact.\<close>

lemma fl_pos:
  assumes "0 < x"
  shows "0 < fl x"
proof -
  have "(2::rat) ^ 52 \<le> x * 2 powi fl_shift x" using fl_shift_bounds [OF assms] by simp
  then have "2 ^ 52 \<le> \<lfloor>x * 2 powi fl_shift x\<rfloor>" by (simp add: le_floor_iff)
  then have "2 ^ 52 \<le> rhe (x * 2 powi fl_shift x)" using rhe_ge_floor by (rule order_trans)
  then have "0 < rhe (x * 2 powi fl_shift x)" by simp
  then show ?thesis using assms by (simp add: fl_def)
qed

lemma fl_nonneg [simp]: "0 \<le> fl x"
  using fl_pos [of x] by (cases "x \<le> 0") (auto simp: fl_def)

lemma fl_exact:
  assumes "x = of_int m * 2 powi e" and "0 \<le> m" and "m < 2 ^ 53"
  shows "fl x = x"
proof (cases "m = 0")
  case True
  then show ?thesis using assms(1) by (simp add: fl_def)
next
  case False
  then have x: "0 < x" using assms(1,2) by simp
  let ?k = "e + fl_shift x"
  have scaled: "x * 2 powi fl_shift x = of_int m * 2 powi ?k" using assms(1) by (simp add: power_int_add)
  have "0 \<le> ?k"
  proof (rule ccontr)
    assume "\<not> 0 \<le> ?k"
    then have "(2::rat) powi ?k \<le> 2 powi (-1)" by (intro power_int_increasing) auto
    then have "of_int m * (2::rat) powi ?k \<le> of_int m * (1/2)"
      using assms(2) by (intro mult_left_mono) auto
    also have "\<dots> < 2 ^ 52"
    proof -
      have "(of_int m :: rat) < of_int (2 ^ 53)" using assms(3) by (simp only: of_int_less_iff)
      then show ?thesis by simp
    qed
    finally show False using fl_shift_bounds(1) [OF x] scaled by simp
  qed
  then have "x * 2 powi fl_shift x = of_int (m * 2 ^ nat ?k)" unfolding scaled by (simp add: power_int_def)
  then have "rhe (x * 2 powi fl_shift x) = m * 2 ^ nat ?k" by (simp only: rhe_of_int)
  then have "fl x = x * 2 powi fl_shift x * 2 powi (- fl_shift x)"
    using x \<open>x * 2 powi fl_shift x = of_int (m * 2 ^ nat ?k)\<close> by (simp add: fl_def)
  then show ?thesis by (simp add: mult.assoc)
qed

lemma fl_nat: "n < 2 ^ 53 \<Longrightarrow> fl (of_nat n) = of_nat n"
  by (rule fl_exact [of _ "int n" 0]) auto

lemma fl_half: "n < 2 ^ 53 \<Longrightarrow> fl (of_nat n * (1/2)) = of_nat n * (1/2)"
  by (rule fl_exact [of _ "int n" "-1"]) (auto simp: power_int_def)

lemma f64_of_int_exact: "0 \<le> n \<Longrightarrow> n < 2 ^ 53 \<Longrightarrow> f64_of_int n = of_int n"
  using fl_exact [of "of_int n" n 0] by (simp add: f64_of_int_def)

lemma f64_quot_nonneg: "0 \<le> x \<Longrightarrow> 0 < y \<Longrightarrow> f64_quot x y = Fin (fl (x / y))"
  by (simp add: f64_quot_def divide_less_0_iff)

end
