(* ===== verification/Container_List.thy ===== *)
theory Container_List
  imports Conn_Pool Float64
begin

text \<open>
  \<open>src/cnt/containerlist.go\<close>: the list of the containers of an action, their removal in place,
  the choice of a container by its number of fluxes, and the load of the list.

  The containers live in a heap \<open>h\<close>; the list holds pointers. \<open>RemoveContainer\<close> ranges over the
  slice it modifies, so its model keeps the backing array: the loop reads the array as earlier
  iterations have shifted it, while the slice itself gets shorter.
\<close>

section \<open>Definitions\<close>

record ContainerList =
  lst :: "ptr list"
  duration :: "64 word"

definition NewContainerList :: ContainerList where
  "NewContainerList = \<lparr>lst = [], duration = 0\<rparr>"

definition AddContainer :: "ptr \<Rightarrow> ContainerList \<Rightarrow> ContainerList" where
  "AddContainer cnt cl = cl\<lparr>lst := lst cl @ [cnt]\<rparr>"

text \<open>
  The loop of \<open>RemoveContainer\<close> from position \<open>idx\<close> on: \<open>arr\<close> is the backing array up to the length
  the slice had when the loop started, \<open>len\<close> the current length of \<open>cl.lst\<close>. The expression
  \<open>cl.lst[idx+1:]\<close> panics when \<open>idx+1\<close> is beyond that length; the append moves the tail of the
  slice one place to the left in the array.
\<close>

function RemoveContainer_loop :: "ptr \<Rightarrow> nat \<Rightarrow> ptr list \<Rightarrow> nat \<Rightarrow> ptr list go" where
  "RemoveContainer_loop cnt idx arr len =
     (if idx < length arr then
        (if arr ! idx = cnt then
           (if int idx \<noteq> int len - 1 then
              (if idx + 1 \<le> len
               then RemoveContainer_loop cnt (Suc idx)
                      (take idx arr @ drop (idx + 1) (take len arr) @ drop (len - 1) arr) (len - 1)
               else Panic SliceOutOfRange)
            else RemoveContainer_loop cnt (Suc idx) arr idx)
         else RemoveContainer_loop cnt (Suc idx) arr len)
      else Ret (take len arr))"
  by pat_completeness auto
termination
  by (relation "measure (\<lambda>(cnt, idx, arr, len). length arr - idx)") (auto simp: min_def)

declare RemoveContainer_loop.simps [simp del]

definition RemoveContainer :: "ptr \<Rightarrow> ContainerList \<Rightarrow> ContainerList go" where
  "RemoveContainer cnt cl =
     go_bind (RemoveContainer_loop cnt 0 (lst cl) (length (lst cl))) (\<lambda>l. Ret (cl\<lparr>lst := l\<rparr>))"

definition GetList :: "ContainerList \<Rightarrow> ptr list" where
  "GetList cl = lst cl"

definition Empty :: "ContainerList \<Rightarrow> bool" where
  "Empty cl \<longleftrightarrow> length (lst cl) = 0"

definition ContainerList_Size :: "ContainerList \<Rightarrow> nat" where
  "ContainerList_Size cl = length (lst cl)"

definition min_i8 :: "i8 \<Rightarrow> i8 \<Rightarrow> i8" where
  "min_i8 a b = (if sint a < sint b then a else b)"

text \<open>The inner loop of \<open>GetContainer\<close>, from the end of the list to its second element.\<close>

fun GetContainer_loop :: "(ptr \<Rightarrow> Container) \<Rightarrow> ptr list \<Rightarrow> nat \<Rightarrow> ptr" where
  "GetContainer_loop h cs 0 = cs ! 0"
| "GetContainer_loop h cs (Suc i) =
     (let fMin = min_i8 (c_Fluxes (h (cs ! Suc i))) (c_Fluxes (h (cs ! i))) in
      if fMin \<noteq> c_Fluxes (h (cs ! i)) then cs ! i
      else GetContainer_loop h cs i)"

text \<open>On an empty list the outer loop spins until another goroutine adds a container.\<close>

definition GetContainer :: "(ptr \<Rightarrow> Container) \<Rightarrow> ContainerList \<Rightarrow> ptr go" where
  "GetContainer h cl =
     (if Empty cl then Block else Ret (GetContainer_loop h (lst cl) (length (lst cl) - 1)))"

text \<open>Division of two int8: truncated towards zero, and a panic for a zero divisor.\<close>

definition div_i8 :: "i8 \<Rightarrow> i8 \<Rightarrow> i8 go" where
  "div_i8 a b =
     (if b = 0 then Panic DivideByZero
      else Ret (word_of_int (sgn (sint a) * sgn (sint b) * (\<bar>sint a\<bar> div \<bar>sint b\<bar>))))"

fun load_sum :: "(ptr \<Rightarrow> Container) \<Rightarrow> ptr list \<Rightarrow> u32 \<Rightarrow> u32 go" where
  "load_sum h [] acc = Ret acc"
| "load_sum h (cnt # rest) acc =
     go_bind (div_i8 (c_Fluxes (h cnt)) (c_MaxFluxes (h cnt))) (\<lambda>q.
     load_sum h rest (acc + scast (min_i8 1 q)))"

definition GetLoadPercentage :: "(ptr \<Rightarrow> Container) \<Rightarrow> ContainerList \<Rightarrow> (nat \<times> f64) go" where
  "GetLoadPercentage h cl =
     go_bind (load_sum h (lst cl) 0) (\<lambda>acc.
     let len = length (lst cl) in Ret (len, f64_div (unat acc) len))"

section \<open>Lemmas\<close>

subsection \<open>RemoveContainer\<close>

lemma drop_length_last: "drop (length xs) (x # xs) = [last (x # xs)]"
  by (induction xs arbitrary: x) auto

lemma RemoveContainer_absent:
  assumes "\<forall>i. idx \<le> i \<and> i < length arr \<longrightarrow> arr ! i \<noteq> cnt"
  shows "RemoveContainer_loop cnt idx arr len = Ret (take len arr)"
  using assms
proof (induction cnt idx arr len rule: RemoveContainer_loop.induct)
  case (1 cnt idx arr len)
  then show ?case by (subst RemoveContainer_loop.simps) auto
qed

lemma RemoveContainer_found:
  assumes "xs = ys @ cnt # zs" and "cnt \<notin> set ys" and "cnt \<notin> set zs" and "idx \<le> length ys"
  shows "RemoveContainer_loop cnt idx xs (length xs) = Ret (ys @ zs)"
  using assms
proof (induction "length ys - idx" arbitrary: idx)
  case 0
  then have i: "idx = length ys" by simp
  show ?case
  proof (cases zs)
    case Nil
    then show ?thesis
      using 0 i by (subst RemoveContainer_loop.simps) (simp add: RemoveContainer_absent)
  next
    case (Cons z zs')
    let ?arr = "ys @ zs @ [last zs]"
    have step: "RemoveContainer_loop cnt idx xs (length xs) =
        RemoveContainer_loop cnt (Suc (length ys)) ?arr (length (ys @ zs))"
      using 0 i Cons by (subst RemoveContainer_loop.simps) (simp add: drop_length_last)
    have "cnt \<notin> set ?arr" using 0 Cons by auto
    then have "\<forall>i. Suc (length ys) \<le> i \<and> i < length ?arr \<longrightarrow> ?arr ! i \<noteq> cnt" by (metis nth_mem)
    then show ?thesis unfolding step by (simp add: RemoveContainer_absent)
  qed
next
  case (Suc n)
  then have i: "idx < length ys" by simp
  then have "xs ! idx = ys ! idx" using Suc.prems(1) by (simp add: nth_append)
  moreover have "ys ! idx \<noteq> cnt" using Suc.prems i by auto
  ultimately have "RemoveContainer_loop cnt idx xs (length xs) = RemoveContainer_loop cnt (Suc idx) xs (length xs)"
    using Suc.prems i by (subst RemoveContainer_loop.simps) auto
  with Suc show ?case by simp
qed

lemma RemoveContainer_remove1:
  assumes "distinct (lst cl)"
  shows "RemoveContainer cnt cl = Ret (cl\<lparr>lst := remove1 cnt (lst cl)\<rparr>)"
proof (cases "cnt \<in> set (lst cl)")
  case True
  then obtain ys zs where l: "lst cl = ys @ cnt # zs" by (meson split_list)
  with assms have "cnt \<notin> set ys" "cnt \<notin> set zs" by auto
  then show ?thesis
    using RemoveContainer_found [OF l, of 0] l by (simp add: RemoveContainer_def remove1_append)
next
  case False
  then have "\<forall>i. 0 \<le> i \<and> i < length (lst cl) \<longrightarrow> lst cl ! i \<noteq> cnt" by (metis nth_mem)
  then show ?thesis using False by (simp add: RemoveContainer_def RemoveContainer_absent remove1_idem)
qed

subsection \<open>GetContainer\<close>

abbreviation fluxes_of :: "(ptr \<Rightarrow> Container) \<Rightarrow> ptr \<Rightarrow> int" where
  "fluxes_of h c \<equiv> sint (c_Fluxes (h c))"

lemma GetContainer_step:
  "GetContainer_loop h cs (Suc i) =
     (if fluxes_of h (cs ! Suc i) < fluxes_of h (cs ! i) then cs ! i else GetContainer_loop h cs i)"
  by (auto simp: min_i8_def Let_def)

text \<open>The loop stops at the last descent of the flux counters, and at the head if there is none.\<close>

lemma GetContainer_loop_cases:
  "(GetContainer_loop h cs n = cs ! 0 \<and> (\<forall>i < n. fluxes_of h (cs ! i) \<le> fluxes_of h (cs ! Suc i))) \<or>
   (\<exists>i < n. GetContainer_loop h cs n = cs ! i \<and> fluxes_of h (cs ! Suc i) < fluxes_of h (cs ! i))"
proof (induction n)
  case (Suc n)
  show ?case
  proof (cases "fluxes_of h (cs ! Suc n) < fluxes_of h (cs ! n)")
    case True
    then show ?thesis using GetContainer_step [of h cs n] by (intro disjI2 exI [of _ n]) simp
  next
    case False
    then have eq: "GetContainer_loop h cs (Suc n) = GetContainer_loop h cs n"
      using GetContainer_step [of h cs n] by simp
    from Suc False show ?thesis unfolding eq by (auto simp: less_Suc_eq)
  qed
qed simp

lemma ascending_head_least:
  assumes "\<forall>i < n. f i \<le> (f (Suc i) :: int)" and "j \<le> n"
  shows "f 0 \<le> f j"
  using assms(2)
proof (induction j)
  case (Suc j)
  then show ?case using assms(1) [rule_format, of j] by simp
qed simp

subsection \<open>GetLoadPercentage\<close>

lemma div_i8_pos:
  assumes "0 \<le> sint a" and "0 < sint b"
  shows "div_i8 a b = Ret (word_of_int (sint a div sint b))"
  using assms by (auto simp: div_i8_def sgn_if)

text \<open>A quotient of two non-negative counters, capped at one, says whether the container is full.\<close>

lemma load_term:
  fixes a b :: i8
  assumes "0 \<le> sint a" and "0 < sint b"
  shows "scast (min_i8 1 (word_of_int (sint a div sint b) :: i8)) = (if sint b \<le> sint a then 1 else 0 :: u32)"
proof -
  let ?q = "sint a div sint b"
  have bound: "sint a < 2 ^ 7" using sint_bounds [of a] by simp
  have q: "0 \<le> ?q" "?q \<le> sint a"
    using assms zdiv_mono2 [of "sint a" 1 "sint b"] by (simp_all add: pos_imp_zdiv_nonneg_iff)
  then have s: "sint (word_of_int ?q :: i8) = ?q"
    using bound q by (simp add: signed_of_int signed_take_bit_int_eq_self)
  show ?thesis
  proof (cases "sint b \<le> sint a")
    case True
    then have "1 \<le> ?q" using assms by (simp add: pos_imp_zdiv_pos_iff int_one_le_iff_zero_less)
    then show ?thesis using True s by (simp add: min_i8_def)
  next
    case False
    then have "?q = 0" using assms by simp
    then show ?thesis using False by (simp add: min_i8_def)
  qed
qed

lemma load_sum_counts:
  assumes "\<forall>c \<in> set cs. 0 \<le> fluxes_of h c \<and> 0 < sint (c_MaxFluxes (h c))"
  shows "load_sum h cs acc = Ret (acc + of_nat (length (filter (\<lambda>c. sint (c_MaxFluxes (h c)) \<le> fluxes_of h c) cs)))"
  using assms
proof (induction cs arbitrary: acc)
  case (Cons c cs)
  then have "div_i8 (c_Fluxes (h c)) (c_MaxFluxes (h c)) =
      Ret (word_of_int (fluxes_of h c div sint (c_MaxFluxes (h c))))" by (simp add: div_i8_pos)
  then show ?case using Cons load_term [of "c_Fluxes (h c)" "c_MaxFluxes (h c)"] by simp
qed simp

lemma load_percentage_small:
  assumes "\<forall>c \<in> set (lst cl). 0 \<le> fluxes_of h c \<and> 0 < sint (c_MaxFluxes (h c))"
    and "length (lst cl) < 2 ^ 32"
  shows "GetLoadPercentage h cl = Ret (length (lst cl),
    f64_div (length (filter (\<lambda>c. sint (c_MaxFluxes (h c)) \<le> fluxes_of h c) (lst cl))) (length (lst cl)))"
proof -
  have "length (filter (\<lambda>c. sint (c_MaxFluxes (h c)) \<le> fluxes_of h c) (lst cl)) < 2 ^ 32"
    using assms(2) length_filter_le le_less_trans by blast
  then show ?thesis
    using load_sum_counts [OF assms(1), of 0] by (simp add: GetLoadPercentage_def Let_def unat_of_nat)
qed

section \<open>Properties\<close>

text \<open>
  C36: Removing a container in place, while ranging over the slice that shrinks, removes exactly its
  first occurrence and keeps the order of the others, for every list without duplicates.
\<close>

theorem RemoveContainer_removes:
  assumes "distinct (lst cl)"
  shows "\<exists>cl'. RemoveContainer cnt cl = Ret cl' \<and> lst cl' = remove1 cnt (lst cl) \<and> distinct (lst cl')"
  using RemoveContainer_remove1 [OF assms, of cnt] assms by simp

theorem RemoveContainer_removes_witness:
  "\<exists>cl'. RemoveContainer 2 \<lparr>lst = [1, 2, 3], duration = 0\<rparr> = Ret cl' \<and> lst cl' = [1, 3]"
  using RemoveContainer_removes [of "\<lparr>lst = [1, 2, 3], duration = 0\<rparr>" 2] by auto

text \<open>
  A container that is in the list twice in a row at its end makes its own removal panic: the loop
  meets the second copy after the slice has become shorter and slices beyond its length.
\<close>

theorem RemoveContainer_duplicate_panics:
  assumes "cnt \<notin> set cs"
  shows "RemoveContainer cnt \<lparr>lst = cs @ [cnt, cnt], duration = d\<rparr> = Panic SliceOutOfRange"
proof -
  have skip: "RemoveContainer_loop cnt i (cs @ [cnt, cnt]) (length cs + 2) =
      RemoveContainer_loop cnt (length cs) (cs @ [cnt, cnt]) (length cs + 2)" if "i \<le> length cs" for i
    using that
  proof (induction "length cs - i" arbitrary: i)
    case (Suc n)
    then have "(cs @ [cnt, cnt]) ! i \<noteq> cnt" using assms nth_mem [of i cs] by (auto simp: nth_append)
    then show ?case using Suc by (subst RemoveContainer_loop.simps) simp
  qed simp
  have "RemoveContainer_loop cnt (length cs) (cs @ [cnt, cnt]) (length cs + 2) = Panic SliceOutOfRange"
    by (simp add: RemoveContainer_loop.simps [of cnt "length cs"] RemoveContainer_loop.simps [of cnt "Suc (length cs)"]
      nth_append)
  then show ?thesis using skip [of 0] by (simp add: RemoveContainer_def)
qed

theorem RemoveContainer_duplicate_panics_witness:
  "RemoveContainer 4 \<lparr>lst = [1, 4, 4], duration = 0\<rparr> = Panic SliceOutOfRange"
  using RemoveContainer_duplicate_panics [of 4 "[1]" 0] by simp

text \<open>
  \<open>GetContainer\<close> on a non-empty list returns a container of least load exactly when the list is
  ordered by load; otherwise it returns a container that is strictly more loaded than its right
  neighbour.
\<close>

theorem GetContainer_least_iff_ascending:
  assumes "lst cl \<noteq> []"
  shows "\<exists>c \<in> set (lst cl). GetContainer h cl = Ret c \<and>
    ((\<forall>x \<in> set (lst cl). fluxes_of h c \<le> fluxes_of h x)
      \<longleftrightarrow> (\<forall>i < length (lst cl) - 1. fluxes_of h (lst cl ! i) \<le> fluxes_of h (lst cl ! Suc i)))"
proof -
  let ?n = "length (lst cl) - 1"
  let ?c = "GetContainer_loop h (lst cl) ?n"
  have n: "Suc ?n = length (lst cl)" using assms by simp
  have R: "GetContainer h cl = Ret ?c" using assms by (simp add: GetContainer_def Empty_def)
  from GetContainer_loop_cases [of h "lst cl" ?n] show ?thesis
  proof (elim disjE exE conjE)
    assume c: "?c = lst cl ! 0" and asc: "\<forall>i < ?n. fluxes_of h (lst cl ! i) \<le> fluxes_of h (lst cl ! Suc i)"
    have "fluxes_of h ?c \<le> fluxes_of h (lst cl ! j)" if "j \<le> ?n" for j
      using ascending_head_least [OF asc that] c by simp
    then have "\<forall>x \<in> set (lst cl). fluxes_of h ?c \<le> fluxes_of h x"
      by (metis in_set_conv_nth less_Suc_eq_le n)
    then show ?thesis using R c asc assms by (intro bexI [of _ ?c]) auto
  next
    fix i assume i: "i < ?n" "?c = lst cl ! i" "fluxes_of h (lst cl ! Suc i) < fluxes_of h (lst cl ! i)"
    then have mem: "lst cl ! i \<in> set (lst cl)" "lst cl ! Suc i \<in> set (lst cl)" using n by auto
    have "\<not> (\<forall>x \<in> set (lst cl). fluxes_of h ?c \<le> fluxes_of h x)" using i(2,3) mem(2) by force
    then show ?thesis using R i mem by (intro bexI [of _ ?c]) auto
  qed
qed

theorem GetContainer_least_iff_ascending_witness:
  "\<exists>h. GetContainer h \<lparr>lst = [0, 1], duration = 0\<rparr> = Ret 0 \<and> fluxes_of h 1 < fluxes_of h 0"
proof -
  let ?h = "(\<lambda>p. \<lparr>c_Addr = [], c_Port = 0, c_Fluxes = (if p = 0 then 5 else 2), c_Id = 0, c_Repl = False, c_MaxFluxes = 10\<rparr>)"
  have "fluxes_of ?h 1 < fluxes_of ?h 0" by simp
  then show ?thesis
    using GetContainer_least_iff_ascending [of "\<lparr>lst = [0, 1], duration = 0\<rparr>" ?h]
    by (intro exI [of _ ?h]) auto
qed

text \<open>
  C37: The load of a list is the fraction of its containers that are at or above their maximum, rounded
  to a float64, for every list of fewer than $2^{32}$ containers with sensible counters; it is NaN for
  the empty list.
\<close>

theorem GetLoadPercentage_fraction_full:
  assumes "\<forall>c \<in> set (lst cl). 0 \<le> fluxes_of h c \<and> 0 < sint (c_MaxFluxes (h c))" and "length (lst cl) < 2 ^ 32"
  shows "GetLoadPercentage h cl = Ret (length (lst cl), if lst cl = [] then NaN else
    Fin (fl (of_nat (length (filter (\<lambda>c. sint (c_MaxFluxes (h c)) \<le> fluxes_of h c) (lst cl))) / of_nat (length (lst cl)))))"
  using load_percentage_small [OF assms] by (simp add: f64_div_def)

theorem GetLoadPercentage_fraction_full_witness:
  "\<exists>h. GetLoadPercentage h \<lparr>lst = [0, 1], duration = 0\<rparr> = Ret (length [0::nat, 1], Fin (fl (1 / 2)))"
proof -
  let ?h = "\<lambda>p. \<lparr>c_Addr = [], c_Port = 0, c_Fluxes = (if p = 0 then 12 else 2), c_Id = 0, c_Repl = False, c_MaxFluxes = 10\<rparr>"
  have "GetLoadPercentage ?h \<lparr>lst = [0, 1], duration = 0\<rparr> = Ret (length [0::nat, 1], Fin (fl (1 / 2)))"
    using GetLoadPercentage_fraction_full [of "\<lparr>lst = [0, 1], duration = 0\<rparr>" ?h] by simp
  then show ?thesis by blast
qed

end
