(* ===== verification/Registry_Maps.thy ===== *)
theory Registry_Maps
  imports Conn_Pool
begin

text \<open>
  The maps that tie the parts of the gateway together: \<open>Action2Cep\<close> and \<open>ConnElemProvisioner\<close>
  of \<open>src/cnt/provisioner.go\<close>, and \<open>ContainerMap\<close> of \<open>src/cnt/containermap.go\<close> with its
  clean-up timers.

  All of them keep the contract \<open>kv_map\<close>: a lookup returns what the last write to its key left
  there. The contract's lemma on sequences of writes is proved once; each map is an interpretation.
\<close>

section \<open>The contract of a map\<close>

datatype ('k, 'v) map_op = Put 'k 'v | Del 'k

fun last_write :: "'k \<Rightarrow> ('k, 'v) map_op list \<Rightarrow> 'v option \<Rightarrow> 'v option" where
  "last_write k [] d = d"
| "last_write k (Put k' v # ops) d = last_write k ops (if k' = k then Some v else d)"
| "last_write k (Del k' # ops) d = last_write k ops (if k' = k then None else d)"

locale kv_store =
  fixes get :: "'k \<Rightarrow> 'm \<Rightarrow> 'v option"
    and put :: "'k \<Rightarrow> 'v \<Rightarrow> 'm \<Rightarrow> 'm"
  assumes get_put: "get k (put k' v m) = (if k' = k then Some v else get k m)"

locale kv_map = kv_store get put
  for get :: "'k \<Rightarrow> 'm \<Rightarrow> 'v option" and put :: "'k \<Rightarrow> 'v \<Rightarrow> 'm \<Rightarrow> 'm" +
  fixes del :: "'k \<Rightarrow> 'm \<Rightarrow> 'm"
  assumes get_del: "get k (del k' m) = (if k' = k then None else get k m)"

context kv_store
begin

lemma get_puts: "get k (fold (\<lambda>(k, v). put k v) kvs m) = last_write k (map (\<lambda>(k, v). Put k v) kvs) (get k m)"
  by (induction kvs arbitrary: m) (auto simp: get_put)

end

context kv_map
begin

definition run_op :: "('k, 'v) map_op \<Rightarrow> 'm \<Rightarrow> 'm" where
  "run_op op m = (case op of Put k v \<Rightarrow> put k v m | Del k \<Rightarrow> del k m)"

lemma get_ops: "get k (fold run_op ops m) = last_write k ops (get k m)"
proof (induction ops arbitrary: m)
  case (Cons op ops)
  then show ?case by (cases op) (simp_all add: run_op_def get_put get_del)
qed simp

lemma get_dels: "get k (fold del ks m) = (if k \<in> set ks then None else get k m)"
  by (induction ks arbitrary: m) (auto simp: get_del)

end

section \<open>Definitions\<close>

subsection \<open>Action2Cep\<close>

record Action2Cep =
  a2c :: "string \<Rightarrow> ptr option"

definition NewAction2Cep :: Action2Cep where
  "NewAction2Cep = \<lparr>a2c = (\<lambda>_. None)\<rparr>"

definition Action2Cep_Set :: "string \<Rightarrow> ptr \<Rightarrow> Action2Cep \<Rightarrow> Action2Cep" where
  "Action2Cep_Set action cep a = a\<lparr>a2c := (a2c a)(action := Some cep)\<rparr>"

text \<open>A missing entry gives the zero value, a nil pointer.\<close>

definition Action2Cep_Get :: "string \<Rightarrow> Action2Cep \<Rightarrow> ptr option" where
  "Action2Cep_Get action a = a2c a action"

subsection \<open>ConnElemProvisioner\<close>

record ConnElemProvisioner =
  c2e :: "u16 \<Rightarrow> ptr option" \<comment> \<open>container id to pool element\<close>
  c2l :: "u16 \<Rightarrow> ptr option" \<comment> \<open>container id to container list\<close>
  c2p :: "u16 \<Rightarrow> ptr option" \<comment> \<open>container id to instance\<close>

definition NewConnElemProvisioner :: ConnElemProvisioner where
  "NewConnElemProvisioner = \<lparr>c2e = (\<lambda>_. None), c2l = (\<lambda>_. None), c2p = (\<lambda>_. None)\<rparr>"

definition AddInstance :: "u16 \<Rightarrow> ptr \<Rightarrow> ConnElemProvisioner \<Rightarrow> ConnElemProvisioner" where
  "AddInstance cntId inst c = c\<lparr>c2p := (c2p c)(cntId := Some inst)\<rparr>"

definition GetInstance :: "u16 \<Rightarrow> ConnElemProvisioner \<Rightarrow> ptr option" where
  "GetInstance cntId c = c2p c cntId"

definition GetInstanceNoLock :: "u16 \<Rightarrow> ConnElemProvisioner \<Rightarrow> ptr option" where
  "GetInstanceNoLock cntId c = c2p c cntId"

definition RemoveInstance :: "u16 \<Rightarrow> ConnElemProvisioner \<Rightarrow> ConnElemProvisioner" where
  "RemoveInstance cntId c = c\<lparr>c2p := (c2p c)(cntId := None)\<rparr>"

definition AddConnElem :: "u16 \<Rightarrow> ptr \<Rightarrow> ptr \<Rightarrow> ConnElemProvisioner \<Rightarrow> ConnElemProvisioner" where
  "AddConnElem cntId ce cl c = c\<lparr>c2e := (c2e c)(cntId := Some ce), c2l := (c2l c)(cntId := Some cl)\<rparr>"

definition GetConnElem :: "u16 \<Rightarrow> ConnElemProvisioner \<Rightarrow> ptr option \<times> ptr option" where
  "GetConnElem cntId c = (c2e c cntId, c2l c cntId)"

definition RemoveConnElem :: "u16 \<Rightarrow> ConnElemProvisioner \<Rightarrow> ConnElemProvisioner" where
  "RemoveConnElem cntId c = c\<lparr>c2e := (c2e c)(cntId := None)\<rparr>"

subsection \<open>ContainerMap\<close>

text \<open>
  Every \<open>Add\<close> starts a goroutine \<open>cleanEntry\<close> for its key; the channel \<open>stop\<close> it also waits on is
  never closed. A pending goroutine is its key and the time its timer fires.
\<close>

record ContainerMap =
  im :: "u16 \<Rightarrow> ptr option"
  timeout :: int
  pending :: "(u16 \<times> int) list"

definition NewContainerMap :: "int \<Rightarrow> ContainerMap" where
  "NewContainerMap t = \<lparr>im = (\<lambda>_. None), timeout = t, pending = []\<rparr>"

definition ContainerMap_Add :: "int \<Rightarrow> u16 \<Rightarrow> ptr \<Rightarrow> ContainerMap \<Rightarrow> ContainerMap" where
  "ContainerMap_Add now crc cnt cpm =
     cpm\<lparr>pending := pending cpm @ [(crc, now + timeout cpm)], im := (im cpm)(crc := Some cnt)\<rparr>"

definition ContainerMap_Get :: "u16 \<Rightarrow> ContainerMap \<Rightarrow> ptr option \<times> bool" where
  "ContainerMap_Get crc cpm = (case im cpm crc of Some res \<Rightarrow> (Some res, True) | None \<Rightarrow> (None, False))"

definition cleanEntry :: "u16 \<Rightarrow> ContainerMap \<Rightarrow> ContainerMap" where
  "cleanEntry key cp = cp\<lparr>im := (im cp)(key := None)\<rparr>"

text \<open>The goroutines whose timers have fired by \<open>now\<close> run.\<close>

definition run_timers :: "int \<Rightarrow> ContainerMap \<Rightarrow> ContainerMap" where
  "run_timers now cpm =
     (fold (\<lambda>(key, _). cleanEntry key) (filter (\<lambda>(_, t). t \<le> now) (pending cpm)) cpm)
       \<lparr>pending := filter (\<lambda>(_, t). now < t) (pending cpm)\<rparr>"

section \<open>The maps keep the contract\<close>

interpretation inst_map: kv_map GetInstance AddInstance RemoveInstance
  by unfold_locales (auto simp: GetInstance_def AddInstance_def RemoveInstance_def)

interpretation elem_map: kv_map "\<lambda>k c. fst (GetConnElem k c)" "\<lambda>k ce. AddConnElem k ce cl" RemoveConnElem for cl
  by unfold_locales (auto simp: GetConnElem_def AddConnElem_def RemoveConnElem_def)

interpretation action_map: kv_store Action2Cep_Get Action2Cep_Set
  by unfold_locales (auto simp: Action2Cep_Get_def Action2Cep_Set_def)

interpretation container_map: kv_map "\<lambda>k m. fst (ContainerMap_Get k m)" "ContainerMap_Add now" cleanEntry for now
  by unfold_locales (auto simp: ContainerMap_Get_def ContainerMap_Add_def cleanEntry_def split: option.splits)

lemma pending_cleanEntry [simp]: "pending (cleanEntry k m) = pending m" "timeout (cleanEntry k m) = timeout m"
  by (simp_all add: cleanEntry_def)

lemma im_Get: "fst (ContainerMap_Get k m) = im m k"
  by (simp add: ContainerMap_Get_def split: option.split)

lemma run_timers_Get:
  "fst (ContainerMap_Get k (run_timers now m)) =
    (if \<exists>t \<le> now. (k, t) \<in> set (pending m) then None else fst (ContainerMap_Get k m))"
proof -
  let ?fired = "filter (\<lambda>(_, t). t \<le> now) (pending m)"
  have f: "fold (\<lambda>(key, _). cleanEntry key) es m' = fold cleanEntry (map fst es) m'" for es :: "(u16 \<times> int) list" and m'
    by (induction es arbitrary: m') auto
  have "im (run_timers now m) k = im (fold cleanEntry (map fst ?fired) m) k"
    by (simp add: run_timers_def f)
  also have "\<dots> = (if k \<in> set (map fst ?fired) then None else im m k)"
    using container_map.get_dels [of k "map fst ?fired" m] by (simp add: im_Get)
  finally show ?thesis by (auto simp: im_Get image_iff)
qed

section \<open>Properties\<close>

text \<open>
  After any sequence of \<open>AddInstance\<close> and \<open>RemoveInstance\<close>, \<open>GetInstance\<close> returns what the last of
  them wrote for the container id, and so does the variant without the lock.
\<close>

theorem instances_last_write:
  "GetInstance k (fold (\<lambda>op. case op of Put i v \<Rightarrow> AddInstance i v | Del i \<Rightarrow> RemoveInstance i) ops c)
     = last_write k ops (GetInstance k c)
   \<and> GetInstanceNoLock k c = GetInstance k c"
proof -
  have "(\<lambda>op. case op of Put i v \<Rightarrow> AddInstance i v | Del i \<Rightarrow> RemoveInstance i) = inst_map.run_op"
    by (rule ext, rule ext) (simp add: inst_map.run_op_def split: map_op.split)
  then show ?thesis using inst_map.get_ops [of k ops c] by (simp add: GetInstance_def GetInstanceNoLock_def)
qed

text \<open>
  An entry of the container map lives for the timeout when its key is added once, but a second
  \<open>Add\<close> of the key does not renew it: the timer of the first one removes the newer entry, since
  nothing ever stops that timer.
\<close>

theorem ContainerMap_stale_timer:
  assumes "t0 \<le> t1" and "t1 \<le> now"
  shows "fst (ContainerMap_Get crc (run_timers now (ContainerMap_Add t1 crc c2
      (ContainerMap_Add t0 crc c1 (NewContainerMap d))))) = (if now < t0 + d then Some c2 else None)"
  using assms unfolding run_timers_Get
  by (auto simp: ContainerMap_Add_def NewContainerMap_def im_Get) (drule spec [of _ "t0 + d"], simp)

theorem ContainerMap_stale_timer_witness:
  "fst (ContainerMap_Get 5 (run_timers 10 (ContainerMap_Add 9 5 2 (ContainerMap_Add 0 5 1 (NewContainerMap 10))))) = None"
  using ContainerMap_stale_timer [of 0 9 10 5 2 1 10] by simp

end
