(* ===== verification/Nat_Context.thy ===== *)
theory Nat_Context
  imports Go_Prelude
begin

text \<open>
  \<open>src/nat/context.go\<close>: the ports leased to the NAT containers (\<open>CntPortMapping\<close>) and the map
  from a port to the container that owns it (\<open>PortCntMapping\<close>), with the expiry of leases.

  The bit set belongs to the package \<open>github.com/willf/bitset\<close>: its type \<open>'b\<close> and the four methods
  the code calls are the record \<open>bitset_ops\<close>, a parameter of the definitions; \<open>bitset_laws\<close> is what
  the package documents of them.

  \<open>PortCntMapping\<close> stores pointers to addresses that several ports share, so its model keeps the heap
  cells. The clock is an argument.
\<close>

section \<open>Definitions\<close>

subsection \<open>The bit set\<close>

record 'b bitset_ops =
  NextClear :: "nat \<Rightarrow> 'b \<Rightarrow> nat \<times> bool"
  Test :: "nat \<Rightarrow> 'b \<Rightarrow> bool"
  SetBit :: "nat \<Rightarrow> 'b \<Rightarrow> 'b"
  ClearBit :: "nat \<Rightarrow> 'b \<Rightarrow> 'b"

definition bitset_laws :: "'b bitset_ops \<Rightarrow> bool" where
  "bitset_laws B \<longleftrightarrow>
     (\<forall>i j b. Test B i (SetBit B j b) \<longleftrightarrow> i = j \<or> Test B i b) \<and>
     (\<forall>i j b. Test B i (ClearBit B j b) \<longleftrightarrow> i \<noteq> j \<and> Test B i b) \<and>
     (\<forall>i n b. NextClear B i b = (n, True) \<longrightarrow> i \<le> n \<and> \<not> Test B n b \<and> (\<forall>k. i \<le> k \<and> k < n \<longrightarrow> Test B k b))"

subsection \<open>CntPortMapping\<close>

record NatCouple =
  Cc16 :: u16
  nc_Port :: u16

record 'b CntPortMapping =
  bSet :: 'b
  cim :: "u32 \<Rightarrow> NatCouple option list option" \<comment> \<open>the lists hold pointers, \<open>None\<close> is nil\<close>
  am :: "ptr \<Rightarrow> u16 list option"

text \<open>
  The window of a hundred bits from \<open>idx\<close> on: the clear ones are set and stored in \<open>acc\<close>, from its
  beginning, as uint16.
\<close>

fun setHelper_loop :: "'b bitset_ops \<Rightarrow> nat list \<Rightarrow> nat \<Rightarrow> u16 list \<Rightarrow> 'b \<Rightarrow> u16 list \<times> 'b" where
  "setHelper_loop B [] i acc b = (acc, b)"
| "setHelper_loop B (idx # rest) i acc b =
     (if \<not> Test B idx b
      then setHelper_loop B rest (Suc i) (acc[i := of_nat idx]) (SetBit B idx b)
      else setHelper_loop B rest i acc b)"

text \<open>
  The first value sent on \<open>stop\<close>, and the bit set when the goroutine is done. Without a clear bit
  the untouched \<open>acc\<close> is sent first; there is no return after that send, so the window of the index
  that \<open>NextClear\<close> gave is processed all the same, and the second send finds no receiver.
\<close>

definition setHelper :: "'b bitset_ops \<Rightarrow> nat \<Rightarrow> u16 list \<Rightarrow> 'b \<Rightarrow> u16 list \<times> 'b" where
  "setHelper B offset acc b =
     (let (idx, avail) = NextClear B offset b;
          (acc', b') = setHelper_loop B [idx..<idx + 100] 0 acc b
      in if avail then (acc', b') else (acc, b'))"

definition NewCntPortMapping :: "'b \<Rightarrow> 'b CntPortMapping" where
  "NewCntPortMapping new_set = \<lparr>bSet = new_set, cim = (\<lambda>_. None), am = (\<lambda>_. None)\<rparr>"

text \<open>The two goroutines one after the other, in the order in which their results are received.\<close>

definition AssignPorts :: "'b bitset_ops \<Rightarrow> ptr \<Rightarrow> 'b CntPortMapping \<Rightarrow> u16 list \<times> 'b CntPortMapping" where
  "AssignPorts B cntAddr cp =
     (let (lower, b1) = setHelper B 1 (replicate 100 0) (bSet cp);
          (upper, b2) = setHelper B 1025 (replicate 100 0) b1;
          res = lower @ upper
      in (res, cp\<lparr>bSet := b2, am := (am cp)(cntAddr := Some res)\<rparr>))"

definition CntPortMapping_Get :: "u32 \<Rightarrow> 'b CntPortMapping \<Rightarrow> NatCouple option list" where
  "CntPortMapping_Get cntAddr cp = (case cim cp cntAddr of None \<Rightarrow> [] | Some val \<Rightarrow> val)"

definition CntPortMapping_Set :: "u32 \<Rightarrow> NatCouple \<Rightarrow> 'b CntPortMapping \<Rightarrow> 'b CntPortMapping" where
  "CntPortMapping_Set cntAddr nc cp =
     (case cim cp cntAddr of
        None \<Rightarrow> cp\<lparr>cim := (cim cp)(cntAddr := Some ([] @ [Some nc]))\<rparr>
      | Some val \<Rightarrow>
          let l = replicate 1 None; l = l @ [Some nc] in cp\<lparr>cim := (cim cp)(cntAddr := Some l)\<rparr>)"

definition CntPortMapping_Delete :: "u32 \<Rightarrow> 'b CntPortMapping \<Rightarrow> 'b CntPortMapping" where
  "CntPortMapping_Delete cntAddr cp = cp\<lparr>cim := (cim cp)(cntAddr := None)\<rparr>"

subsection \<open>PortCntMapping\<close>

text \<open>
  \<open>cells\<close> is the heap of addresses; \<open>leases\<close> are the ports for which a function started by
  \<open>time.AfterFunc\<close> is pending. An absent timestamp is Go's zero time, before every other.
\<close>

record PortCntMapping =
  im :: "u16 \<Rightarrow> ptr option"
  rm :: "u32 \<Rightarrow> ptr option"
  lum :: "u16 \<Rightarrow> int option"
  leaseTimeout :: int
  cells :: "ptr \<Rightarrow> u32"
  nextCell :: ptr
  leases :: "u16 list"

definition NewPortCntMapping :: "int \<Rightarrow> PortCntMapping" where
  "NewPortCntMapping t = \<lparr>im = (\<lambda>_. None), rm = (\<lambda>_. None), lum = (\<lambda>_. None), leaseTimeout = t,
     cells = (\<lambda>_. 0), nextCell = 0, leases = []\<rparr>"

definition PortCntMapping_Get :: "u16 \<Rightarrow> PortCntMapping \<Rightarrow> u32" where
  "PortCntMapping_Get port pc = (case im pc port of None \<Rightarrow> 0 | Some val \<Rightarrow> cells pc val)"

definition PortCntMapping_Set :: "int \<Rightarrow> u16 \<Rightarrow> u32 \<Rightarrow> PortCntMapping \<Rightarrow> PortCntMapping" where
  "PortCntMapping_Set now port addr pc =
     (let pc = (case rm pc addr of
          None \<Rightarrow>
            let addrPtr = nextCell pc;
                pc = pc\<lparr>nextCell := Suc addrPtr, cells := (cells pc)(addrPtr := addr)\<rparr>;
                pc = pc\<lparr>rm := (rm pc)(addr := Some addrPtr)\<rparr>
            in pc\<lparr>im := (im pc)(port := Some addrPtr)\<rparr>
        | Some val \<Rightarrow> pc\<lparr>im := (im pc)(port := Some val)\<rparr>);
          pc = pc\<lparr>lum := (lum pc)(port := Some now)\<rparr>
      in pc\<lparr>leases := leases pc @ [port]\<rparr>)"

text \<open>One round of the function that \<open>AfterFunc\<close> starts; the flag says that it ends.\<close>

definition lease_check :: "int \<Rightarrow> u16 \<Rightarrow> PortCntMapping \<Rightarrow> bool \<times> PortCntMapping" where
  "lease_check now port pc =
     (if (case lum pc port of None \<Rightarrow> True | Some t \<Rightarrow> t + leaseTimeout pc < now)
      then (True, pc\<lparr>im := (im pc)(port := None), lum := (lum pc)(port := None), leases := remove1 port (leases pc)\<rparr>)
      else (False, pc))"

definition PortCntMapping_Replace :: "u32 \<Rightarrow> u32 \<Rightarrow> PortCntMapping \<Rightarrow> PortCntMapping" where
  "PortCntMapping_Replace oldAddr newAddr pc =
     (case rm pc oldAddr of
        Some val \<Rightarrow> pc\<lparr>cells := (cells pc)(val := newAddr)\<rparr>
      | None \<Rightarrow> pc)"

definition PortCntMapping_Delete :: "u16 \<Rightarrow> PortCntMapping \<Rightarrow> PortCntMapping" where
  "PortCntMapping_Delete port pc = pc\<lparr>im := (im pc)(port := None)\<rparr>"

subsection \<open>Release of ports\<close>

fun releaseHelper :: "'b bitset_ops \<Rightarrow> u16 list \<Rightarrow> (u16 \<Rightarrow> ptr option) \<Rightarrow> 'b \<Rightarrow> 'b" where
  "releaseHelper B [] checkMap b = b"
| "releaseHelper B (p # port) checkMap b =
     releaseHelper B port checkMap (if checkMap p = None then ClearBit B (unat p) b else b)"

definition ReleasePorts :: "'b bitset_ops \<Rightarrow> ptr \<Rightarrow> PortCntMapping \<Rightarrow> 'b CntPortMapping \<Rightarrow> 'b CntPortMapping" where
  "ReleasePorts B cntAddr pc cp =
     (case am cp cntAddr of
        None \<Rightarrow> cp
      | Some buff \<Rightarrow> cp\<lparr>bSet := releaseHelper B buff (im pc) (bSet cp)\<rparr>)"

section \<open>Lemmas\<close>

subsection \<open>Leasing a window\<close>

lemma setHelper_loop_bits:
  assumes "bitset_laws B"
  shows "Test B k (snd (setHelper_loop B ks i acc b)) \<longleftrightarrow> k \<in> set ks \<or> Test B k b"
  using assms by (induction B ks i acc b rule: setHelper_loop.induct) (auto simp: bitset_laws_def)

text \<open>The clear bits of the window, in order, fill the accumulator from position \<open>i\<close> on.\<close>

lemma setHelper_loop_acc:
  assumes "bitset_laws B" and "distinct ks" and "i + length (filter (\<lambda>k. \<not> Test B k b) ks) \<le> length acc"
  shows "fst (setHelper_loop B ks i acc b) =
    take i acc @ map of_nat (filter (\<lambda>k. \<not> Test B k b) ks) @ drop (i + length (filter (\<lambda>k. \<not> Test B k b) ks)) acc"
  using assms
proof (induction B ks i acc b rule: setHelper_loop.induct)
  case (2 B idx rest i acc b)
  show ?case
  proof (cases "Test B idx b")
    case True
    then show ?thesis using 2 by simp
  next
    case False
    have same: "filter (\<lambda>k. \<not> Test B k (SetBit B idx b)) rest = filter (\<lambda>k. \<not> Test B k b) rest"
      using "2.prems"(1,2) by (intro filter_cong) (auto simp: bitset_laws_def)
    have i: "i < length acc" using "2.prems"(3) False by simp
    have "fst (setHelper_loop B rest (Suc i) (acc[i := of_nat idx]) (SetBit B idx b)) =
        take (Suc i) (acc[i := of_nat idx]) @ map of_nat (filter (\<lambda>k. \<not> Test B k b) rest)
        @ drop (Suc i + length (filter (\<lambda>k. \<not> Test B k b) rest)) (acc[i := of_nat idx])"
      using "2.IH"(1) [OF False] "2.prems" False by (simp add: same)
    then show ?thesis using False i by (simp add: take_Suc_conv_app_nth drop_update_cancel)
  qed
qed simp

text \<open>The ports of a window: its clear bits, then zeros up to a hundred.\<close>

definition window_ports :: "'b bitset_ops \<Rightarrow> nat \<Rightarrow> 'b \<Rightarrow> nat list" where
  "window_ports B idx b = filter (\<lambda>k. \<not> Test B k b) [idx..<idx + 100]"

lemma length_window_ports: "length (window_ports B idx b) \<le> 100"
  using length_filter_le [of "\<lambda>k. \<not> Test B k b" "[idx..<idx + 100]"] by (simp add: window_ports_def)

lemma setHelper_ports:
  assumes "bitset_laws B" and "NextClear B off b = (idx, True)"
  shows "fst (setHelper B off (replicate 100 0) b) =
    map of_nat (window_ports B idx b) @ replicate (100 - length (window_ports B idx b)) 0"
  using assms setHelper_loop_acc [OF assms(1), of "[idx..<idx + 100]" 0 b "replicate 100 0"]
    length_window_ports [of B idx b]
  by (simp add: setHelper_def window_ports_def split: prod.splits)

lemma setHelper_bits:
  assumes "bitset_laws B" and "NextClear B off b = (idx, avail)"
  shows "Test B k (snd (setHelper B off acc b)) \<longleftrightarrow> (idx \<le> k \<and> k < idx + 100) \<or> Test B k b"
  using setHelper_loop_bits [OF assms(1), of k "[idx..<idx + 100]" 0 acc b] assms(2)
  by (auto simp: setHelper_def split: prod.splits)

lemma setHelper_exhausted:
  "NextClear B off b = (idx, False) \<Longrightarrow> fst (setHelper B off acc b) = acc"
  by (simp add: setHelper_def split: prod.splits)

text \<open>A window that a range of valid port numbers contains.\<close>

definition window_fits :: "'b bitset_ops \<Rightarrow> nat \<Rightarrow> 'b \<Rightarrow> bool" where
  "window_fits B off b \<longleftrightarrow> (case NextClear B off b of (idx, avail) \<Rightarrow> avail \<longrightarrow> idx + 100 \<le> 65536)"

lemma setHelper_fresh:
  assumes "bitset_laws B" and "window_fits B off b" and "p \<in> set (fst (setHelper B off (replicate 100 0) b))" and "p \<noteq> 0"
  shows "\<not> Test B (unat p) b" and "Test B (unat p) (snd (setHelper B off (replicate 100 0) b))"
proof -
  obtain idx avail where N: "NextClear B off b = (idx, avail)" by (cases "NextClear B off b")
  have avail
  proof (rule ccontr)
    assume "\<not> avail"
    then show False using assms(3,4) N setHelper_exhausted [of B off b idx "replicate 100 0"] by simp
  qed
  then obtain k where k: "k \<in> set (window_ports B idx b)" "p = of_nat k"
    using assms(3,4) N setHelper_ports [OF assms(1), of off b idx] by auto
  then have "k < 65536" using assms(2) N \<open>avail\<close> by (auto simp: window_fits_def window_ports_def)
  then have u: "unat p = k" using k(2) by (simp add: unat_of_nat)
  then show "\<not> Test B (unat p) b" using k(1) by (simp add: window_ports_def)
  show "Test B (unat p) (snd (setHelper B off (replicate 100 0) b))"
    using k(1) u setHelper_bits [OF assms(1) N] by (auto simp: window_ports_def)
qed

lemma setHelper_keeps:
  assumes "bitset_laws B" and "Test B k b"
  shows "Test B k (snd (setHelper B off acc b))"
  using assms setHelper_bits [OF assms(1)] by (cases "NextClear B off b") blast

text \<open>All leased ports are marked in the bit set, and no two containers share one.\<close>

definition leased :: "'b CntPortMapping \<Rightarrow> ptr \<Rightarrow> u16 set" where
  "leased cp a = (case am cp a of None \<Rightarrow> {} | Some ps \<Rightarrow> set ps - {0})"

definition leases_ok :: "'b bitset_ops \<Rightarrow> 'b CntPortMapping \<Rightarrow> bool" where
  "leases_ok B cp \<longleftrightarrow> (\<forall>a. \<forall>p \<in> leased cp a. Test B (unat p) (bSet cp)) \<and>
     (\<forall>a a'. a \<noteq> a' \<longrightarrow> leased cp a \<inter> leased cp a' = {})"

lemma AssignPorts_eq:
  fixes B cp
  defines "l \<equiv> setHelper B 1 (replicate 100 0) (bSet cp)"
  defines "u \<equiv> setHelper B 1025 (replicate 100 0) (snd l)"
  shows "AssignPorts B a cp = (fst l @ fst u, cp\<lparr>bSet := snd u, am := (am cp)(a := Some (fst l @ fst u))\<rparr>)"
  by (simp add: AssignPorts_def l_def u_def Let_def split: prod.splits)

lemma releaseHelper_bits:
  assumes "bitset_laws B"
  shows "Test B k (releaseHelper B ps m b) \<longleftrightarrow> Test B k b \<and> \<not> (\<exists>p \<in> set ps. unat p = k \<and> m p = None)"
  using assms by (induction B ps m b rule: releaseHelper.induct) (auto simp: bitset_laws_def)

subsection \<open>Shared cells\<close>

definition pc_inv :: "PortCntMapping \<Rightarrow> bool" where
  "pc_inv pc \<longleftrightarrow> (\<forall>port v. im pc port = Some v \<longrightarrow> rm pc (cells pc v) = Some v) \<and>
     (\<forall>a v. rm pc a = Some v \<longrightarrow> v < nextCell pc \<and> cells pc v = a)"

inductive pc_reachable :: "int \<Rightarrow> PortCntMapping \<Rightarrow> bool" for t where
  pc_new: "pc_reachable t (NewPortCntMapping t)"
| pc_set: "pc_reachable t pc \<Longrightarrow> pc_reachable t (PortCntMapping_Set now port addr pc)"
| pc_delete: "pc_reachable t pc \<Longrightarrow> pc_reachable t (PortCntMapping_Delete port pc)"
| pc_lease: "pc_reachable t pc \<Longrightarrow> pc_reachable t (snd (lease_check now port pc))"

lemma pc_inv_Set:
  assumes "pc_inv pc"
  shows "pc_inv (PortCntMapping_Set now port addr pc)"
proof (cases "rm pc addr")
  case None
  have fresh: "rm pc a = Some v \<Longrightarrow> v \<noteq> nextCell pc" for a v using assms by (auto simp: pc_inv_def)
  have "im pc p = Some v \<Longrightarrow> v \<noteq> nextCell pc \<and> cells pc v \<noteq> addr" for p v
    using assms None fresh unfolding pc_inv_def by (metis option.distinct(1))
  then show ?thesis
    using assms None fresh by (auto simp: pc_inv_def PortCntMapping_Set_def Let_def less_Suc_eq)
next
  case (Some v)
  then show ?thesis using assms by (auto simp: pc_inv_def PortCntMapping_Set_def Let_def)
qed

lemma pc_reachable_inv: "pc_reachable t pc \<Longrightarrow> pc_inv pc"
proof (induction rule: pc_reachable.induct)
  case pc_new
  then show ?case by (simp add: pc_inv_def NewPortCntMapping_def)
next
  case (pc_set pc now port addr)
  then show ?case by (simp add: pc_inv_Set)
next
  case (pc_delete pc port)
  then show ?case by (auto simp: pc_inv_def PortCntMapping_Delete_def)
next
  case (pc_lease pc now port)
  then show ?case by (auto simp: pc_inv_def lease_check_def)
qed

lemma Set_Get:
  assumes "pc_inv pc"
  shows "PortCntMapping_Get p (PortCntMapping_Set now port addr pc) = (if p = port then addr else PortCntMapping_Get p pc)"
proof (cases "rm pc addr")
  case None
  have "im pc p = Some v \<Longrightarrow> v \<noteq> nextCell pc" for v using assms by (fastforce simp: pc_inv_def)
  then show ?thesis
    using None by (auto simp: PortCntMapping_Get_def PortCntMapping_Set_def Let_def split: option.split)
next
  case (Some v)
  then show ?thesis using assms
    by (auto simp: pc_inv_def PortCntMapping_Get_def PortCntMapping_Set_def Let_def split: option.split)
qed

lemma Replace_Get:
  assumes "pc_inv pc"
  shows "PortCntMapping_Get p (PortCntMapping_Replace old new pc) =
    (if im pc p \<noteq> None \<and> PortCntMapping_Get p pc = old then new else PortCntMapping_Get p pc)"
  using assms
  by (auto simp: pc_inv_def PortCntMapping_Get_def PortCntMapping_Replace_def split: option.splits)

lemma AssignPorts_leases:
  assumes laws: "bitset_laws B" and ok: "leases_ok B cp" and new: "am cp a = None"
    and fl: "window_fits B 1 (bSet cp)" and fu: "window_fits B 1025 (snd (setHelper B 1 (replicate 100 0) (bSet cp)))"
  shows "\<exists>res cp'. AssignPorts B a cp = (res, cp') \<and> leases_ok B cp' \<and> am cp' a = Some res
    \<and> (\<forall>p \<in> set res - {0}. \<not> Test B (unat p) (bSet cp) \<and> Test B (unat p) (bSet cp'))"
proof -
  define l where "l = setHelper B 1 (replicate 100 0) (bSet cp)"
  define u where "u = setHelper B 1025 (replicate 100 0) (snd l)"
  define cp' where "cp' = cp\<lparr>bSet := snd u, am := (am cp)(a := Some (fst l @ fst u))\<rparr>"
  have keep: "Test B k (bSet cp')" if "Test B k (bSet cp)" for k
    using that laws by (simp add: cp'_def u_def l_def setHelper_keeps)
  have fresh: "\<not> Test B (unat p) (bSet cp) \<and> Test B (unat p) (bSet cp')" if "p \<in> set (fst l @ fst u) - {0}" for p
  proof (cases "p \<in> set (fst l)")
    case True
    then show ?thesis
      using that setHelper_fresh [OF laws fl, of p] laws by (auto simp: cp'_def l_def u_def intro: setHelper_keeps)
  next
    case False
    then have "\<not> Test B (unat p) (snd l)" "Test B (unat p) (snd u)"
      using that setHelper_fresh [OF laws fu, of p] by (auto simp: l_def u_def)
    then show ?thesis using laws setHelper_keeps [of B] by (auto simp: l_def cp'_def)
  qed
  have other: "leased cp' a' = leased cp a'" if "a' \<noteq> a" for a' using that by (simp add: leased_def cp'_def)
  have own: "leased cp' a = set (fst l @ fst u) - {0}" by (simp add: leased_def cp'_def)
  have marked: "Test B (unat p) (bSet cp')" if "p \<in> leased cp' a'" for a' p
    using that ok fresh keep other own unfolding leases_ok_def by (cases "a' = a") blast+
  have apart: "leased cp' a \<inter> leased cp a' = {}" for a'
    using ok fresh own unfolding leases_ok_def by blast
  have "leased cp' a' \<inter> leased cp' a'' = {}" if "a' \<noteq> a''" for a' a''
    using that ok apart other unfolding leases_ok_def by (cases "a' = a"; cases "a'' = a") auto
  then have "leases_ok B cp'" using marked by (auto simp: leases_ok_def)
  moreover have "AssignPorts B a cp = (fst l @ fst u, cp')"
    unfolding l_def u_def cp'_def by (rule AssignPorts_eq)
  moreover have "am cp' a = Some (fst l @ fst u)" by (simp add: cp'_def)
  ultimately show ?thesis using fresh by blast
qed

section \<open>Properties\<close>

text \<open>
  C29: Leasing ports to a new container keeps the leases disjoint: the 200 entries it returns are, zeros
  apart, ports that were free, they are marked in the bit set afterwards, and no other container holds
  one of them, as long as the two windows of a hundred ports stay below 65536.
\<close>

theorem AssignPorts_keeps_leases_disjoint:
  assumes laws: "bitset_laws B" and ok: "leases_ok B cp" and new: "am cp a = None"
    and fl: "window_fits B 1 (bSet cp)" and fu: "window_fits B 1025 (snd (setHelper B 1 (replicate 100 0) (bSet cp)))"
  shows "\<exists>res cp'. AssignPorts B a cp = (res, cp') \<and> leases_ok B cp' \<and> am cp' a = Some res
    \<and> (\<forall>p \<in> set res - {0}. \<not> Test B (unat p) (bSet cp) \<and> Test B (unat p) (bSet cp'))"
  using assms by (rule AssignPorts_leases)

text \<open>A bit set as the list of its members, below 65536, for the examples.\<close>

definition bits_ex :: "nat list bitset_ops" where
  "bits_ex = \<lparr>NextClear = (\<lambda>i b. case find (\<lambda>k. k \<notin> set b) [i..<65536] of Some k \<Rightarrow> (k, True) | None \<Rightarrow> (0, False)),
     Test = (\<lambda>i b. i \<in> set b), SetBit = (\<lambda>i b. i # b), ClearBit = (\<lambda>i b. filter (\<lambda>k. k \<noteq> i) b)\<rparr>"

lemma find_upt_first:
  assumes "find P [i..<n] = Some k"
  shows "i \<le> k" and "P k" and "\<And>j. i \<le> j \<Longrightarrow> j < k \<Longrightarrow> \<not> P j"
proof -
  obtain m where m: "m < n - i" "k = i + m" "P k" "\<forall>j < m. \<not> P (i + j)"
    using assms by (auto simp: find_Some_iff)
  then show "i \<le> k" "P k" by auto
  show "\<not> P j" if "i \<le> j" "j < k" for j
    using m(2,4) that by (metis add_less_cancel_left le_add_diff_inverse)
qed

lemma bits_ex_laws: "bitset_laws bits_ex"
  unfolding bitset_laws_def
  by (auto simp: bits_ex_def split: option.splits dest: find_upt_first)

lemma bits_ex_first: "i < 65536 \<Longrightarrow> i \<notin> set b \<Longrightarrow> NextClear bits_ex i b = (i, True)"
  by (simp add: bits_ex_def upt_conv_Cons)

lemma bits_ex_new:
  "window_fits bits_ex 1 (bSet (NewCntPortMapping []))"
  "window_fits bits_ex 1025 (snd (setHelper bits_ex 1 (replicate 100 0) (bSet (NewCntPortMapping []))))"
  "leases_ok bits_ex (NewCntPortMapping [])" "am (NewCntPortMapping ([] :: nat list)) a = None"
proof -
  have n1: "NextClear bits_ex 1 [] = (1, True)" by (rule bits_ex_first) auto
  have "\<not> Test bits_ex 1025 (snd (setHelper bits_ex 1 (replicate 100 0) []))"
    using setHelper_bits [OF bits_ex_laws n1, of 1025 "replicate 100 0"] by (simp add: bits_ex_def)
  then have "NextClear bits_ex 1025 (snd (setHelper bits_ex 1 (replicate 100 0) [])) = (1025, True)"
    by (intro bits_ex_first) (auto simp: bits_ex_def)
  then show "window_fits bits_ex 1 (bSet (NewCntPortMapping []))"
    "window_fits bits_ex 1025 (snd (setHelper bits_ex 1 (replicate 100 0) (bSet (NewCntPortMapping []))))"
    "leases_ok bits_ex (NewCntPortMapping [])" "am (NewCntPortMapping ([] :: nat list)) a = None"
    using n1 by (auto simp: NewCntPortMapping_def leases_ok_def leased_def window_fits_def)
qed

theorem AssignPorts_keeps_leases_disjoint_witness:
  "\<exists>res cp'. AssignPorts bits_ex 0 (NewCntPortMapping []) = (res, cp') \<and> leases_ok bits_ex cp' \<and> am cp' 0 = Some res"
  using AssignPorts_keeps_leases_disjoint [OF bits_ex_laws bits_ex_new(3,4,1,2)] by blast

text \<open>
  With no free port the helper still damages the bit set: it sends a hundred zeros, and since it
  does not return, it marks the hundred ports from the index that \<open>NextClear\<close> gave as used, for
  nobody.
\<close>

theorem setHelper_exhausted_marks:
  assumes "bitset_laws B" and "NextClear B offset b = (idx, False)"
  shows "fst (setHelper B offset (replicate 100 0) b) = replicate 100 0
    \<and> (\<forall>k. Test B k (snd (setHelper B offset (replicate 100 0) b)) \<longleftrightarrow> (idx \<le> k \<and> k < idx + 100) \<or> Test B k b)"
  using setHelper_exhausted [OF assms(2)] setHelper_bits [OF assms] by blast

theorem setHelper_exhausted_marks_witness:
  "fst (setHelper bits_ex 65536 (replicate 100 0) []) = replicate 100 0"
  using setHelper_exhausted_marks [OF bits_ex_laws, of 65536 "[]" 0] by (simp add: bits_ex_def)

text \<open>
  Releasing the lease of a container clears exactly those of its ports that no entry of the port map
  uses; but the lease itself stays recorded, so a second release clears ports that another container
  may have leased in between.
\<close>

theorem ReleasePorts_clears:
  assumes "bitset_laws B" and "am cp a = Some ports"
  shows "(\<forall>k. Test B k (bSet (ReleasePorts B a pc cp)) \<longleftrightarrow>
      Test B k (bSet cp) \<and> \<not> (\<exists>p \<in> set ports. unat p = k \<and> im pc p = None))
    \<and> am (ReleasePorts B a pc cp) = am cp
    \<and> (\<forall>a' p. p \<in> leased cp a' \<and> p \<in> set ports \<and> im pc p = None \<longrightarrow>
         p \<in> leased (ReleasePorts B a pc cp) a' \<and> \<not> Test B (unat p) (bSet (ReleasePorts B a pc cp)))"
  using assms by (auto simp: ReleasePorts_def releaseHelper_bits [OF assms(1)] leased_def)

theorem ReleasePorts_clears_witness:
  "\<not> Test bits_ex 7 (bSet (ReleasePorts bits_ex 0 (NewPortCntMapping 1)
      \<lparr>bSet = [7], cim = (\<lambda>_. None), am = [0 \<mapsto> [7], 1 \<mapsto> [7]]\<rparr>))"
  using ReleasePorts_clears [OF bits_ex_laws, of "\<lparr>bSet = [7], cim = (\<lambda>_. None), am = [0 \<mapsto> [7], 1 \<mapsto> [7]]\<rparr>" 0 "[7]" "NewPortCntMapping 1"]
  by (auto simp: NewPortCntMapping_def)

text \<open>
  In every state reached by setting, deleting and expiring ports, \<open>Get\<close> returns the address set
  last for the port and \<open>Set\<close> affects no other port; \<open>Replace\<close> redirects all the ports of the old address
  at once, and only them.
\<close>

theorem port_map_set_and_replace:
  assumes "pc_reachable t pc"
  shows "PortCntMapping_Get p (PortCntMapping_Set now port addr pc) = (if p = port then addr else PortCntMapping_Get p pc)
    \<and> PortCntMapping_Get p (PortCntMapping_Replace old new pc) =
        (if im pc p \<noteq> None \<and> PortCntMapping_Get p pc = old then new else PortCntMapping_Get p pc)"
  using pc_reachable_inv [OF assms] Set_Get Replace_Get by blast

theorem port_map_set_and_replace_witness:
  "PortCntMapping_Get 80 (PortCntMapping_Replace 9 4 (PortCntMapping_Set 0 80 9 (NewPortCntMapping 5))) = 4"
proof -
  have "pc_reachable 5 (PortCntMapping_Set 0 80 9 (NewPortCntMapping 5))" by (intro pc_set pc_new)
  moreover have "im (PortCntMapping_Set 0 80 9 (NewPortCntMapping 5)) 80 \<noteq> None"
    "PortCntMapping_Get 80 (PortCntMapping_Set 0 80 9 (NewPortCntMapping 5)) = 9" by code_simp+
  ultimately show ?thesis using port_map_set_and_replace [of 5 _ 80 0 80 0 9 4] by simp
qed

text \<open>
  \<open>Replace\<close> leaves the old address in the reverse map. A later \<open>Set\<close> of a port to the old address
  returns the new one instead, and a second replacement, of the new address, reaches none of the ports
  that the first one redirected.
\<close>

theorem Replace_poisons_reverse_map:
  assumes "rm pc old = Some v" and "rm pc new = None"
  shows "PortCntMapping_Get p (PortCntMapping_Set now p old (PortCntMapping_Replace old new pc)) = new
    \<and> PortCntMapping_Get q (PortCntMapping_Replace new third (PortCntMapping_Replace old new pc))
        = PortCntMapping_Get q (PortCntMapping_Replace old new pc)"
  using assms
  by (simp add: PortCntMapping_Get_def PortCntMapping_Set_def PortCntMapping_Replace_def Let_def)

theorem Replace_poisons_reverse_map_witness:
  "PortCntMapping_Get 81 (PortCntMapping_Set 1 81 9 (PortCntMapping_Replace 9 4 (PortCntMapping_Set 0 80 9 (NewPortCntMapping 5)))) = 4"
proof -
  have "rm (PortCntMapping_Set 0 80 9 (NewPortCntMapping 5)) 9 = Some 0"
    "rm (PortCntMapping_Set 0 80 9 (NewPortCntMapping 5)) 4 = None" by code_simp+
  then show ?thesis using Replace_poisons_reverse_map by blast
qed

text \<open>
  The second couple set for a container drops the first: the list becomes a nil pointer followed by
  the new couple.
\<close>

theorem CntPortMapping_Set_drops:
  "CntPortMapping_Get a (CntPortMapping_Set a nc2 (CntPortMapping_Set a nc1 cp)) = [None, Some nc2]"
  by (simp add: CntPortMapping_Get_def CntPortMapping_Set_def Let_def split: option.split)

end
