(* ===== verification/Scaling.thy ===== *)
theory Scaling
  imports Container_List
begin

text \<open>
  The scaling decision of \<open>src/cnt/provisioner.go\<close> (\<open>calculateScalingDelta\<close>, \<open>HandleScaling\<close>) and the
  parameters that \<open>ActionHandler\<close> (\<open>src/cnt/handler.go\<close>) runs it with. Thresholds and increments
  are float64 constants: the rationals that their decimal literals round to.
\<close>

section \<open>Definitions\<close>

definition calculateScalingDelta ::
  "(ptr \<Rightarrow> Container) \<Rightarrow> ContainerList \<Rightarrow> rat \<Rightarrow> rat \<Rightarrow> rat \<Rightarrow> rat \<Rightarrow> int \<Rightarrow> int go" where
  "calculateScalingDelta h cl upThr downThr upInc downDec min_cnt =
     go_bind (GetLoadPercentage h cl) (\<lambda>(s, lp).
     if f64_ge lp upThr then
       Ret \<lceil>fl (of_nat s * upInc)\<rceil>
     else if f64_le lp downThr then
       let delta = - (max \<lfloor>fl (of_nat s * downDec)\<rfloor> 1) in
       if int s + delta \<ge> min_cnt then Ret delta else Ret 0
     else Ret 0)"

record Provisioner =
  Action :: string
  Hostname :: string
  Auth :: string
  Timeout :: int
  Check :: int
  UpThr :: rat
  DownThr :: rat
  UpInc :: rat
  DownInc :: rat
  Min :: int
  RedisIp :: string
  RedisPort :: int
  MaxFluxes :: i8

text \<open>One tick of \<open>HandleScaling\<close>: the value sent on the channel \<open>increment\<close>.\<close>

definition HandleScaling_tick :: "(ptr \<Rightarrow> Container) \<Rightarrow> ContainerList \<Rightarrow> Provisioner \<Rightarrow> int go" where
  "HandleScaling_tick h cl p = calculateScalingDelta h cl (UpThr p) (DownThr p) (UpInc p) (DownInc p) (Min p)"

abbreviation (input) seconds :: int where "seconds \<equiv> 1000000000"

text \<open>The provisioner that \<open>ActionHandler\<close> starts, times in nanoseconds.\<close>

definition ActionHandler :: "string \<Rightarrow> string \<Rightarrow> string \<Rightarrow> string \<Rightarrow> int \<Rightarrow> Provisioner" where
  "ActionHandler hostname auth actionName redisIp redisPort =
     \<lparr>Action = actionName, Hostname = hostname, Auth = auth, Timeout = 45 * seconds, Check = 3 * seconds,
      UpThr = fl (6/10), DownThr = fl (3/10), UpInc = fl (5/10), DownInc = fl (4/10), Min = 1,
      RedisIp = redisIp, RedisPort = redisPort, MaxFluxes = 2\<rparr>"

section \<open>Lemmas\<close>

lemma fl_half_const [simp]: "fl (1 / 2) = 1 / 2"
  using fl_half [of 1] by simp

lemma fl_five_tenths: "fl (5 / 10) = 1 / 2"
  by simp

lemma ceiling_half: "\<lceil>(of_nat n :: rat) * (1 / 2)\<rceil> = int ((n + 1) div 2)"
proof -
  have "of_nat n = 2 * of_nat (n div 2) + (of_nat (n mod 2) :: rat)"
    by (metis mult_div_mod_eq of_nat_add of_nat_mult of_nat_numeral)
  moreover have "n mod 2 = 0 \<or> n mod 2 = 1" by auto
  ultimately show ?thesis by (auto simp: ceiling_eq_iff field_simps)
qed

text \<open>The number of containers that are full.\<close>

definition full :: "(ptr \<Rightarrow> Container) \<Rightarrow> ContainerList \<Rightarrow> nat" where
  "full h cl = length (filter (\<lambda>c. sint (c_MaxFluxes (h c)) \<le> fluxes_of h c) (lst cl))"

definition counters_ok :: "(ptr \<Rightarrow> Container) \<Rightarrow> ContainerList \<Rightarrow> bool" where
  "counters_ok h cl \<longleftrightarrow> length (lst cl) < 2 ^ 32 \<and>
     (\<forall>c \<in> set (lst cl). 0 \<le> fluxes_of h c \<and> 0 < sint (c_MaxFluxes (h c)))"

lemma load_of_full:
  "counters_ok h cl \<Longrightarrow> GetLoadPercentage h cl = Ret (length (lst cl), f64_div (full h cl) (length (lst cl)))"
  by (simp add: counters_ok_def full_def load_percentage_small)

section \<open>Properties\<close>

text \<open>
  The scaling decision never asks for fewer containers than the minimum: a negative delta leaves at
  least \<open>min_cnt\<close> of them, whatever the load, the thresholds and the increments are.
\<close>

theorem scaling_respects_minimum:
  assumes "calculateScalingDelta h cl upThr downThr upInc downDec min_cnt = Ret delta"
    and "0 \<le> upInc" and "delta < 0"
  shows "min_cnt \<le> int (length (lst cl)) + delta"
proof -
  obtain s lp where L: "GetLoadPercentage h cl = Ret (s, lp)"
    and D: "(if f64_ge lp upThr then Ret \<lceil>fl (of_nat s * upInc)\<rceil>
       else if f64_le lp downThr then let delta = - (max \<lfloor>fl (of_nat s * downDec)\<rfloor> 1) in
         if int s + delta \<ge> min_cnt then Ret delta else Ret 0 else Ret 0) = Ret delta"
    using assms(1) by (auto simp: calculateScalingDelta_def)
  have s: "s = length (lst cl)" using L by (auto simp: GetLoadPercentage_def Let_def)
  have "- 1 < fl (of_nat s * upInc)" using fl_nonneg [of "of_nat s * upInc"] by linarith
  then have "0 \<le> \<lceil>fl (of_nat s * upInc)\<rceil>" by simp
  then show ?thesis using D assms(3) s by (auto simp: Let_def split: if_splits)
qed


text \<open>Three containers of two fluxes at most, for the examples: with one flux each, and with two.\<close>

definition heap_ex :: "i8 \<Rightarrow> ptr \<Rightarrow> Container" where
  "heap_ex f _ = \<lparr>c_Addr = [], c_Port = 0, c_Fluxes = f, c_Id = 0, c_Repl = False, c_MaxFluxes = 2\<rparr>"

abbreviation (input) list_ex3 :: ContainerList where "list_ex3 \<equiv> \<lparr>lst = [0, 1, 2], duration = 0\<rparr>"

lemma counters_ex: "counters_ok (heap_ex 2) list_ex3" "full (heap_ex 2) list_ex3 = 3"
  by (simp_all add: counters_ok_def heap_ex_def full_def)

theorem scaling_respects_minimum_witness:
  "calculateScalingDelta (heap_ex 1) list_ex3 (fl (6/10)) (fl (3/10)) (fl (5/10)) (fl (4/10)) 1 = Ret (-1)
    \<and> (1::int) \<le> int (length (lst list_ex3)) + (-1)"
proof -
  have D: "calculateScalingDelta (heap_ex 1) list_ex3 (fl (6/10)) (fl (3/10)) (fl (5/10)) (fl (4/10)) 1 = Ret (-1)"
    by code_simp
  then show ?thesis using scaling_respects_minimum [OF D] by simp
qed


end
