(* ===== verification/Go_Strings.thy ===== *)
theory Go_Strings
  imports Go_Prelude
begin

text \<open>
  The string functions of Go's standard library that the gateway uses: decimal numbers
  (\<open>strconv.Itoa\<close>, \<open>strconv.ParseUint\<close>, \<open>strconv.Atoi\<close>) and \<open>strings.Split\<close> at a separator
  character. Numbers below are the non-negative ones the program prints and reads.
\<close>

section \<open>Definitions\<close>

definition digit_val :: "char \<Rightarrow> nat option" where
  "digit_val c = (let n = of_char c in if 48 \<le> n \<and> n \<le> 57 then Some (n - 48) else None)"

fun parse_digits :: "string \<Rightarrow> nat \<Rightarrow> nat option" where
  "parse_digits [] n = Some n"
| "parse_digits (c # cs) n =
     (case digit_val c of None \<Rightarrow> None | Some d \<Rightarrow> parse_digits cs (10 * n + d))"

text \<open>Parsing an unsigned decimal below a bound: the empty string is a syntax error.\<close>

definition parse_below :: "nat \<Rightarrow> string \<Rightarrow> nat option" where
  "parse_below bound s =
     (if s = [] then None else
      case parse_digits s 0 of None \<Rightarrow> None | Some n \<Rightarrow> if n < bound then Some n else None)"

fun Itoa :: "nat \<Rightarrow> string" where
  "Itoa n = (if n < 10 then [char_of (48 + n)] else Itoa (n div 10) @ [char_of (48 + n mod 10)])"

declare Itoa.simps [simp del]

fun split_at :: "char \<Rightarrow> string \<Rightarrow> string list" where
  "split_at sep [] = [[]]"
| "split_at sep (c # cs) =
     (if c = sep then [] # split_at sep cs
      else case split_at sep cs of [] \<Rightarrow> [[c]] | w # ws \<Rightarrow> (c # w) # ws)"

section \<open>Lemmas\<close>

lemma digit_val_char [simp]: "d < 10 \<Longrightarrow> digit_val (char_of (48 + d :: nat)) = Some d"
  by (simp add: digit_val_def Let_def of_char_of take_bit_eq_mod)

lemma parse_digits_append:
  "parse_digits (s @ t) n = (case parse_digits s n of None \<Rightarrow> None | Some m \<Rightarrow> parse_digits t m)"
  by (induction s n rule: parse_digits.induct) (auto split: option.split)

lemma Itoa_not_Nil [simp]: "Itoa n \<noteq> []"
  by (subst Itoa.simps) simp

lemma parse_Itoa: "parse_digits (Itoa n) 0 = Some n"
proof (induction n rule: Itoa.induct)
  case (1 n)
  show ?case
  proof (cases "n < 10")
    case True
    then show ?thesis by (subst Itoa.simps) simp
  next
    case False
    then show ?thesis using 1 by (subst Itoa.simps) (simp add: parse_digits_append)
  qed
qed

lemma parse_below_Itoa [simp]: "n < bound \<Longrightarrow> parse_below bound (Itoa n) = Some n"
  by (simp add: parse_below_def parse_Itoa)

lemma digits_only: "parse_digits s n = Some m \<Longrightarrow> c \<in> set s \<Longrightarrow> digit_val c \<noteq> None"
  by (induction s n rule: parse_digits.induct) (auto split: option.splits)

lemma Itoa_digit: "c \<in> set (Itoa n) \<Longrightarrow> digit_val c \<noteq> None"
  using digits_only parse_Itoa by blast

lemma Itoa_no_sep: "digit_val sep = None \<Longrightarrow> sep \<notin> set (Itoa n)"
  using Itoa_digit by fastforce

lemma split_at_word: "sep \<notin> set w \<Longrightarrow> split_at sep w = [w]"
  by (induction w) auto

lemma split_at_join: "sep \<notin> set w \<Longrightarrow> split_at sep (w @ sep # rest) = w # split_at sep rest"
  by (induction w) auto

end
