(* ===== verification/Registration.thy ===== *)
theory Registration
  imports Crc2Conn Container_List Registry_Maps Bytes_Utils Go_Strings
begin

text \<open>
  \<open>src/cnt/handler.go\<close>: the registration messages of containers, \<open>addEntryToChan\<close> with the goroutine
  that deletes the container before its run time ends, and the state that \<open>InitRuleMap\<close> builds.

  The world holds the heaps that the code's pointers lead into: flow maps (each with the pool it owns),
  container lists, provisioner maps. \<open>nflib.GetMsgFromBytes\<close> decodes a registration message in the
  package \<open>github.com/NFoSSystem/nflib\<close>; it is a parameter, as is the outcome of \<open>net.DialUDP\<close>.
\<close>

section \<open>Definitions\<close>

subsection \<open>The message codec of the package\<close>

record msg =
  m_Addr :: "u8 list" \<comment> \<open>an array of four bytes\<close>
  m_Port :: u16

text \<open>\<open>strconv.ParseUint(frag, 10, 8)\<close>.\<close>

definition ParseUint8 :: "string \<Rightarrow> u8 option" where
  "ParseUint8 s = map_option of_nat (parse_below 256 s)"

text \<open>The loop over the fragments; a fragment that does not parse resets the address and ends it.\<close>

fun NewMsg_loop :: "string list \<Rightarrow> nat \<Rightarrow> u8 list \<Rightarrow> u8 list" where
  "NewMsg_loop [] i addr = addr"
| "NewMsg_loop (frag # frags) i addr =
     (case ParseUint8 frag of
        None \<Rightarrow> replicate 4 0
      | Some byteInWord \<Rightarrow> NewMsg_loop frags (Suc i) (addr[i := byteInWord]))"

text \<open>The address arrives as the text that \<open>addr.String()\<close> makes of it.\<close>

definition NewMsg :: "string \<Rightarrow> u16 \<Rightarrow> msg" where
  "NewMsg addrString port =
     (let split = split_at (CHR ''.'') addrString in
      if length split \<noteq> 4 then \<lparr>m_Addr = replicate 4 0, m_Port = 0\<rparr>
      else \<lparr>m_Addr = NewMsg_loop split 0 (replicate 4 0), m_Port = port\<rparr>)"

text \<open>\<open>binary.Read\<close> and \<open>binary.Write\<close> of the struct in big-endian order; a short buffer is an error.\<close>

definition getMsgFromBytes :: "bytes \<Rightarrow> msg go" where
  "getMsgFromBytes bSlice =
     (if length bSlice < 6 then Panic Panicked
      else Ret \<lparr>m_Addr = take 4 bSlice, m_Port = be16 (bSlice ! 4) (bSlice ! 5)\<rparr>)"

definition getBytesFromMsg :: "msg \<Rightarrow> bytes" where
  "getBytesFromMsg src = m_Addr src @ [ucast (drop_bit 8 (m_Port src)), ucast (m_Port src AND 255)]"

text \<open>The part of the name before the first NUL.\<close>

fun trimActionName :: "string \<Rightarrow> string" where
  "trimActionName [] = []"
| "trimActionName (c # cs) = (if c = CHR 0x00 then [] else c # trimActionName cs)"

subsection \<open>The world\<close>

record ContainerInfo =
  cntPool :: ptr \<comment> \<open>the flow map that owns the pool\<close>
  cntLst :: ptr
  maxFluxes :: i8

text \<open>A pending goroutine of \<open>addEntryToChan\<close>: the element and the container it will remove, and whence.\<close>

record removal =
  rm_map :: ptr
  rm_elem :: ptr
  rm_list :: ptr
  rm_cnt :: ptr

record world =
  w_maps :: "ptr \<Rightarrow> Crc2ConnMap"
  w_lists :: "ptr \<Rightarrow> ContainerList"
  w_ceps :: "ptr \<Rightarrow> ConnElemProvisioner"
  w_a2c :: Action2Cep
  w_cil :: "string \<Rightarrow> ContainerInfo option"
  w_removals :: "removal list"

text \<open>What \<open>nflib.GetMsgFromBytes\<close> returns.\<close>

record nfmsg =
  n_Addr :: "u8 list"
  n_Port :: u16
  n_Name :: string
  n_CntId :: u16
  n_Repl :: bool

text \<open>
  \<open>UDPConnFactory\<close>: \<open>dial\<close> is the outcome of \<open>net.DialUDP\<close>, a failure gives a nil connection.
\<close>

definition UDPConnFactory :: "(bytes \<Rightarrow> u16 \<Rightarrow> conn option) \<Rightarrow> bytes \<Rightarrow> u16 \<Rightarrow> conn option" where
  "UDPConnFactory dial addr port = (case dial addr port of None \<Rightarrow> None | Some conn \<Rightarrow> Some conn)"

text \<open>The container and the element are added to the pool and to the list of the action.\<close>

definition addEntryToChan :: "(bytes \<Rightarrow> nfmsg go) \<Rightarrow> (bytes \<Rightarrow> u16 \<Rightarrow> conn option) \<Rightarrow>
    bytes \<Rightarrow> nat \<Rightarrow> world \<Rightarrow> world go" where
  "addEntryToChan GetMsgFromBytes dial buff n w =
     (if n > length buff then Panic SliceOutOfRange else
      go_bind (GetMsgFromBytes (take n buff)) (\<lambda>tMsg.
      let ipAddr = IPv4 (n_Addr tMsg ! 0) (n_Addr tMsg ! 1) (n_Addr tMsg ! 2) (n_Addr tMsg ! 3);
          actionName = trimActionName (n_Name tMsg) in
      go_bind (deref (w_cil w actionName)) (\<lambda>ci.
      let cnt = \<lparr>c_Addr = ipAddr, c_Port = n_Port tMsg, c_Fluxes = 0, c_Id = n_CntId tMsg,
                 c_Repl = n_Repl tMsg, c_MaxFluxes = maxFluxes ci\<rparr> in
      go_bind (register (UDPConnFactory dial ipAddr (n_Port tMsg)) cnt (w_maps w (cntPool ci))) (\<lambda>((c, connPoolElem), s).
      let w = w\<lparr>w_maps := (w_maps w)(cntPool ci := s)\<rparr>;
          w = w\<lparr>w_lists := (w_lists w)(cntLst ci := AddContainer c (w_lists w (cntLst ci)))\<rparr> in
      go_bind (deref (Action2Cep_Get actionName (w_a2c w))) (\<lambda>cep.
      let w = w\<lparr>w_ceps := (w_ceps w)(cep := AddConnElem (n_CntId tMsg) connPoolElem (cntLst ci) (w_ceps w cep))\<rparr> in
      go_bind (deref (ConnPoolElem_GetContainer connPoolElem (w_maps w (cntPool ci)))) (\<lambda>_.
      Ret (w\<lparr>w_removals := w_removals w @
             [\<lparr>rm_map = cntPool ci, rm_elem = connPoolElem, rm_list = cntLst ci, rm_cnt = c\<rparr>]\<rparr>)))))))"

text \<open>
  The goroutine when its timer fires. Its other case, the closed \<open>stopChan\<close> of the element, ends it
  with no effect.
\<close>

definition removal_fires :: "(u16 list \<Rightarrow> u16 list) \<Rightarrow> removal \<Rightarrow> world \<Rightarrow> world go" where
  "removal_fires rng r w =
     go_bind (RemoveContainer (rm_cnt r) (w_lists w (rm_list r))) (\<lambda>cl.
     let w = w\<lparr>w_lists := (w_lists w)(rm_list r := cl)\<rparr> in
     go_bind (Delete rng (rm_elem r) (w_maps w (rm_map r))) (\<lambda>s.
     Ret (w\<lparr>w_maps := (w_maps w)(rm_map r := s), w_removals := remove1 r (w_removals w)\<rparr>)))"

text \<open>
  The state part of \<open>InitRuleMap\<close>: one flow map and one list for the action \<open>nat\<close>, whose flows live
  500 microseconds and whose containers take ten fluxes.
\<close>

definition InitRuleMap_world :: world where
  "InitRuleMap_world =
     \<lparr>w_maps = (\<lambda>_. NewCrc2ConnMap 500000), w_lists = (\<lambda>_. NewContainerList),
      w_ceps = (\<lambda>_. NewConnElemProvisioner),
      w_a2c = Action2Cep_Set ''nat'' 0 NewAction2Cep,
      w_cil = [''nat'' \<mapsto> \<lparr>cntPool = 0, cntLst = 0, maxFluxes = 10\<rparr>],
      w_removals = []\<rparr>"

subsection \<open>Removal on demand\<close>

text \<open>
  What \<open>startDropFunction\<close> (\<open>src/cnt/provisioner.go\<close>) does to the registration of a container it is
  told to drop: the instance is forgotten, the element deleted and the container removed from its list.
  A nil container is compared with the entries of the list and never found.
\<close>

definition drop_registration :: "(u16 list \<Rightarrow> u16 list) \<Rightarrow> ptr \<Rightarrow> ptr \<Rightarrow> u16 \<Rightarrow> world \<Rightarrow> world go" where
  "drop_registration rng m cep cntInt w =
     (let w = w\<lparr>w_ceps := (w_ceps w)(cep := RemoveInstance cntInt (w_ceps w cep))\<rparr>;
          (connElem, cntList) = GetConnElem cntInt (w_ceps w cep) in
      go_bind (deref connElem) (\<lambda>ce.
      let container = ConnPoolElem_GetContainer ce (w_maps w m) in
      go_bind (Delete rng ce (w_maps w m)) (\<lambda>s.
      let w = w\<lparr>w_maps := (w_maps w)(m := s)\<rparr> in
      go_bind (deref cntList) (\<lambda>l.
      case container of
        None \<Rightarrow> Ret w
      | Some c \<Rightarrow> go_bind (RemoveContainer c (w_lists w l)) (\<lambda>cl. Ret (w\<lparr>w_lists := (w_lists w)(l := cl)\<rparr>))))))"

subsection \<open>Steps and invariant\<close>

text \<open>
  The world of \<open>InitRuleMap\<close>, changed by registrations, by the removal goroutines, by drops on demand, by
  lookups of flows and by the expiry of flows, in any order. Deletions are of elements that are not the
  only member of the pool.
\<close>

definition only_member :: "ptr \<Rightarrow> world \<Rightarrow> bool" where
  "only_member e w \<longleftrightarrow> e_next (elems (connPool (w_maps w 0)) e) = Some e"

inductive world_step :: "(bytes \<Rightarrow> nfmsg go) \<Rightarrow> (u16 list \<Rightarrow> u16 list) \<Rightarrow> world \<Rightarrow> world \<Rightarrow> bool" for GM rng where
  ws_register: "addEntryToChan GM dial buff n w = Ret w' \<Longrightarrow> world_step GM rng w w'"
| ws_removal: "r \<in> set (w_removals w) \<Longrightarrow> \<not> only_member (rm_elem r) w \<Longrightarrow> removal_fires rng r w = Ret w' \<Longrightarrow>
    world_step GM rng w w'"
| ws_stopped: "r \<in> set (w_removals w) \<Longrightarrow> GetStopChan (rm_elem r) (w_maps w (rm_map r)) \<Longrightarrow>
    world_step GM rng w (w\<lparr>w_removals := remove1 r (w_removals w)\<rparr>)"
| ws_drop: "c2e (w_ceps w 0) cntInt = Some e \<Longrightarrow> \<not> only_member e w \<Longrightarrow>
    drop_registration rng 0 0 cntInt w = Ret w' \<Longrightarrow> world_step GM rng w w'"
| ws_get: "Get crc now (w_maps w 0) = Ret (r, s) \<Longrightarrow> world_step GM rng w (w\<lparr>w_maps := (w_maps w)(0 := s)\<rparr>)"
| ws_tick: "flux_tick now t (w_maps w 0) = Ret (b, s) \<Longrightarrow>
    world_step GM rng w (w\<lparr>w_maps := (w_maps w)(0 := s)\<rparr>)"

inductive world_reachable :: "(bytes \<Rightarrow> nfmsg go) \<Rightarrow> (u16 list \<Rightarrow> u16 list) \<Rightarrow> world \<Rightarrow> bool" for GM rng where
  world_init: "world_reachable GM rng InitRuleMap_world"
| world_next: "world_reachable GM rng w \<Longrightarrow> world_step GM rng w w' \<Longrightarrow> world_reachable GM rng w'"

text \<open>
  The list of the action holds the containers of the members of the pool, in the order of the pool, and
  no two elements have the same container.
\<close>

definition agree :: "Crc2ConnMap \<Rightarrow> ContainerList \<Rightarrow> ptr list \<Rightarrow> bool" where
  "agree s cl xs \<longleftrightarrow> c2c_inv s xs \<and> lst cl = map (\<lambda>e. the (cptr s e)) xs
     \<and> (\<forall>e < nextElem (connPool s). \<forall>c. cptr s e = Some c \<longrightarrow> c < nextContainer s
          \<and> (\<forall>e' < nextElem (connPool s). cptr s e' = Some c \<longrightarrow> e' = e))"

definition removal_ok :: "Crc2ConnMap \<Rightarrow> removal \<Rightarrow> bool" where
  "removal_ok s r \<longleftrightarrow> rm_map r = 0 \<and> rm_list r = 0 \<and> rm_elem r < nextElem (connPool s) \<and> rm_cnt r < nextContainer s
     \<and> cptr s (rm_elem r) \<in> {Some (rm_cnt r), None}
     \<and> (\<forall>e < nextElem (connPool s). cptr s e = Some (rm_cnt r) \<longrightarrow> e = rm_elem r)"

definition world_inv :: "world \<Rightarrow> ptr list \<Rightarrow> bool" where
  "world_inv w xs \<longleftrightarrow> agree (w_maps w 0) (w_lists w 0) xs
     \<and> w_cil w = [''nat'' \<mapsto> \<lparr>cntPool = 0, cntLst = 0, maxFluxes = 10\<rparr>]
     \<and> a2c (w_a2c w) = [''nat'' \<mapsto> 0]
     \<and> (\<forall>r \<in> set (w_removals w). removal_ok (w_maps w 0) r)
     \<and> (\<forall>i e. c2e (w_ceps w 0) i = Some e \<longrightarrow> e < nextElem (connPool (w_maps w 0)) \<and> c2l (w_ceps w 0) i = Some 0)"

section \<open>Lemmas\<close>

subsection \<open>The pool and the list agree\<close>

lemma agreeD:
  assumes "agree s cl xs"
  shows "c2c_inv s xs" and "lst cl = map (\<lambda>e. the (cptr s e)) xs"
    and "e < nextElem (connPool s) \<Longrightarrow> cptr s e = Some c \<Longrightarrow> c < nextContainer s"
    and "e < nextElem (connPool s) \<Longrightarrow> cptr s e = Some c \<Longrightarrow> e' < nextElem (connPool s) \<Longrightarrow> cptr s e' = Some c \<Longrightarrow> e' = e"
  using assms unfolding agree_def by blast+

lemma agreeI:
  assumes "c2c_inv s xs" and "lst cl = map (\<lambda>e. the (cptr s e)) xs"
    and "\<And>e c. e < nextElem (connPool s) \<Longrightarrow> cptr s e = Some c \<Longrightarrow> c < nextContainer s"
    and "\<And>e e' c. e < nextElem (connPool s) \<Longrightarrow> cptr s e = Some c \<Longrightarrow> e' < nextElem (connPool s) \<Longrightarrow>
      cptr s e' = Some c \<Longrightarrow> e' = e"
  shows "agree s cl xs"
  using assms unfolding agree_def by blast

lemma agree_member:
  assumes "agree s cl xs" and "e \<in> set xs"
  shows "e < nextElem (connPool s)" and "\<exists>c. cptr s e = Some c"
  using agreeD(1) [OF assms(1)] assms(2) by (auto simp: c2c_inv_def ring_def live_ok_def)

lemma agree_inj:
  assumes "agree s cl xs"
  shows "inj_on (\<lambda>e. the (cptr s e)) (set xs)" and "distinct (lst cl)" and "distinct xs"
proof -
  show inj: "inj_on (\<lambda>e. the (cptr s e)) (set xs)"
  proof (rule inj_onI)
    fix e e' assume e: "e \<in> set xs" "e' \<in> set xs" and eq: "the (cptr s e) = the (cptr s e')"
    from agree_member [OF assms e(1)] agree_member [OF assms e(2)] eq
    obtain c where "cptr s e = Some c" "cptr s e' = Some c" "e < nextElem (connPool s)" "e' < nextElem (connPool s)" by auto
    then show "e = e'" using agreeD(4) [OF assms] by blast
  qed
  show d: "distinct xs" using agreeD(1) [OF assms] by (simp add: c2c_inv_def ring_def)
  show "distinct (lst cl)" using agreeD(2) [OF assms] inj d by (simp add: distinct_map)
qed

lemma remove1_map_inj:
  assumes "inj_on f (set xs)" and "x \<in> set xs"
  shows "remove1 (f x) (map f xs) = map f (remove1 x xs)"
  using assms by (induction xs) (auto simp: inj_on_def)

lemma agree_cong:
  assumes ag: "agree s cl xs" and "c2c_inv s' xs" and eq: "cptr s' = cptr s" "nextContainer s' = nextContainer s"
    "nextElem (connPool s') = nextElem (connPool s)"
  shows "agree s' cl xs"
proof -
  have c: "cptr s' e = cptr s e" for e using eq(1) by (rule fun_cong)
  show ?thesis using ag assms(2) unfolding agree_def c eq(2,3) by blast
qed

lemma agree_register:
  assumes "agree s cl xs"
  shows "\<exists>s'. register conn cnt s = Ret ((nextContainer s, nextElem (connPool s)), s')
    \<and> agree s' (AddContainer (nextContainer s) cl) (xs @ [nextElem (connPool s)])
    \<and> nextContainer s' = Suc (nextContainer s) \<and> nextElem (connPool s') = Suc (nextElem (connPool s))
    \<and> (\<forall>x. cptr s' x = (if x = nextElem (connPool s) then Some (nextContainer s) else cptr s x))"
proof -
  let ?e = "nextElem (connPool s)"
  have inv: "c2c_inv s xs" using assms by (rule agreeD)
  from register_cptr [OF inv, of conn cnt] obtain s' where
    s': "register conn cnt s = Ret ((nextContainer s, ?e), s')" "c2c_inv s' (xs @ [?e])"
      "nextContainer s' = Suc (nextContainer s)" "nextElem (connPool s') = Suc ?e"
      "\<forall>x. cptr s' x = (if x = ?e then Some (nextContainer s) else cptr s x)" by blast
  have ne: "e \<noteq> ?e" if "e \<in> set xs" for e using agree_member(1) [OF assms that] by simp
  have lt: "c \<noteq> nextContainer s" if "e < ?e" "cptr s e = Some c" for e c using agreeD(3) [OF assms that] by simp
  have "agree s' (AddContainer (nextContainer s) cl) (xs @ [?e])"
  proof (rule agreeI)
    show "c2c_inv s' (xs @ [?e])" by fact
    show "lst (AddContainer (nextContainer s) cl) = map (\<lambda>e. the (cptr s' e)) (xs @ [?e])"
      using agreeD(2) [OF assms] s'(5) ne by (simp add: AddContainer_def)
    fix e c assume e: "e < nextElem (connPool s')" "cptr s' e = Some c"
    then show "c < nextContainer s'"
      using s'(3-5) agreeD(3) [OF assms, of e c] by (auto simp: less_Suc_eq split: if_splits)
    fix e' assume "e' < nextElem (connPool s')" "cptr s' e' = Some c"
    then show "e' = e"
      using e s'(4,5) lt [of e c] lt [of e' c] agreeD(4) [OF assms, of e c e'] by (auto simp: less_Suc_eq split: if_splits)
  qed
  then show ?thesis using s' by blast
qed

text \<open>Deleting an element and removing its container, whether it is still a member or not.\<close>

definition members_without :: "ptr \<Rightarrow> ptr list \<Rightarrow> ptr list" where
  "members_without e xs = (if e \<in> set xs then remove1 e xs else xs)"

lemma delete_cptr_any:
  assumes ag: "agree s cl xs" and e: "e < nextElem (connPool s)" and more: "xs \<noteq> [e]" and rng: "range_order rng"
  shows "\<exists>s'. Delete rng e s = Ret s' \<and> c2c_inv s' (members_without e xs) \<and> nextContainer s' = nextContainer s
    \<and> nextElem (connPool s') = nextElem (connPool s)
    \<and> (\<forall>x. x \<noteq> e \<longrightarrow> cptr s' x = cptr s x) \<and> cptr s' e \<in> {cptr s e, None}"
proof (cases "e \<in> set xs")
  case True
  then show ?thesis using Delete_cptr [OF agreeD(1) [OF ag] True more rng] by (simp add: members_without_def)
next
  case False
  have inv: "c2c_inv s xs" using ag by (rule agreeD)
  obtain s' where s': "Delete rng e s = Ret s'" "c2c_inv s' xs" using Delete_again [OF inv e False] by blast
  with Delete_again_eq [OF inv e False, of rng] have "s' = s\<lparr>connPool :=
    upd_elem e (\<lambda>e. e\<lparr>e_conn := None, e_container := None, e_crc2ConnMap := False\<rparr>) (connPool s)\<rparr>" by simp
  then show ?thesis using s' False by (simp add: members_without_def)
qed

lemma agree_delete:
  assumes ag: "agree s cl xs" and e: "e < nextElem (connPool s)" and more: "xs \<noteq> [e]" and rng: "range_order rng"
    and c: "\<forall>x < nextElem (connPool s). cptr s x = Some c \<longrightarrow> x = e" and own: "cptr s e \<in> {Some c, None}"
  shows "\<exists>s' cl'. Delete rng e s = Ret s' \<and> RemoveContainer c cl = Ret cl' \<and> agree s' cl' (members_without e xs)
    \<and> nextContainer s' = nextContainer s \<and> nextElem (connPool s') = nextElem (connPool s)
    \<and> (\<forall>x. x \<noteq> e \<longrightarrow> cptr s' x = cptr s x) \<and> cptr s' e \<in> {cptr s e, None}"
proof -
  obtain s' where s': "Delete rng e s = Ret s'" "c2c_inv s' (members_without e xs)" "nextContainer s' = nextContainer s"
    "nextElem (connPool s') = nextElem (connPool s)" "\<forall>x. x \<noteq> e \<longrightarrow> cptr s' x = cptr s x" "cptr s' e \<in> {cptr s e, None}"
    using delete_cptr_any [OF ag e more rng] by blast
  have l: "lst cl = map (\<lambda>e. the (cptr s e)) xs" using ag by (rule agreeD)
  have R: "RemoveContainer c cl = Ret (cl\<lparr>lst := remove1 c (lst cl)\<rparr>)"
    by (rule RemoveContainer_remove1) (rule agree_inj(2) [OF ag])
  have "remove1 c (lst cl) = map (\<lambda>e. the (cptr s e)) (members_without e xs)"
  proof (cases "e \<in> set xs")
    case True
    then have "the (cptr s e) = c" using agree_member(2) [OF ag True] own by auto
    then show ?thesis using True remove1_map_inj [OF agree_inj(1) [OF ag] True] l by (simp add: members_without_def)
  next
    case False
    have "c \<notin> set (lst cl)"
    proof
      assume "c \<in> set (lst cl)"
      then obtain x where x: "x \<in> set xs" "c = the (cptr s x)" using l by auto
      then have "cptr s x = Some c" "x < nextElem (connPool s)" using agree_member [OF ag x(1)] by auto
      then show False using c x(1) False by blast
    qed
    then show ?thesis using False l by (simp add: members_without_def remove1_idem)
  qed
  also have "\<dots> = map (\<lambda>e. the (cptr s' e)) (members_without e xs)"
  proof (rule map_cong)
    fix x assume "x \<in> set (members_without e xs)"
    then have "x \<noteq> e" using agree_inj(3) [OF ag] by (auto simp: members_without_def split: if_splits)
    then show "the (cptr s x) = the (cptr s' x)" using s'(5) by simp
  qed simp
  finally have l': "lst (cl\<lparr>lst := remove1 c (lst cl)\<rparr>) = map (\<lambda>e. the (cptr s' e)) (members_without e xs)" by simp
  have sub: "cptr s' x = Some k \<Longrightarrow> cptr s x = Some k" for x k using s'(5,6) by (cases "x = e") auto
  have "agree s' (cl\<lparr>lst := remove1 c (lst cl)\<rparr>) (members_without e xs)"
  proof (rule agreeI [OF s'(2) l'])
    fix x k assume x: "x < nextElem (connPool s')" "cptr s' x = Some k"
    then have xs: "x < nextElem (connPool s)" "cptr s x = Some k" using sub s'(4) by auto
    then show "k < nextContainer s'" using agreeD(3) [OF ag xs] s'(3) by simp
    fix y assume y: "y < nextElem (connPool s')" "cptr s' y = Some k"
    then show "y = x" using agreeD(4) [OF ag xs, of y] sub s'(4) by simp
  qed
  then show ?thesis using s' R by blast
qed

subsection \<open>Every step of the world keeps the invariant\<close>

lemma removal_okD:
  assumes "removal_ok s r"
  shows "rm_map r = 0" and "rm_list r = 0" and "rm_elem r < nextElem (connPool s)" and "rm_cnt r < nextContainer s"
    and "cptr s (rm_elem r) \<in> {Some (rm_cnt r), None}"
    and "\<forall>e < nextElem (connPool s). cptr s e = Some (rm_cnt r) \<longrightarrow> e = rm_elem r"
  using assms unfolding removal_ok_def by blast+

lemma removal_ok_shrink:
  assumes r: "removal_ok s r" and eq: "nextContainer s' = nextContainer s" "nextElem (connPool s') = nextElem (connPool s)"
    and sub: "\<And>x. cptr s' x \<in> {cptr s x, None}"
  shows "removal_ok s' r"
proof -
  have s: "cptr s' x = Some k \<Longrightarrow> cptr s x = Some k" for x k using sub [of x] by auto
  have "cptr s' (rm_elem r) \<in> {Some (rm_cnt r), None}" using removal_okD(5) [OF r] sub [of "rm_elem r"] by auto
  moreover have "x = rm_elem r" if "x < nextElem (connPool s')" "cptr s' x = Some (rm_cnt r)" for x
    using removal_okD(6) [OF r] s [OF that(2)] that(1) eq(2) by simp
  ultimately show ?thesis using r eq unfolding removal_ok_def by simp
qed

lemma removal_ok_register:
  assumes r: "removal_ok s r" and eq: "nextContainer s' = Suc (nextContainer s)" "nextElem (connPool s') = Suc (nextElem (connPool s))"
    and c: "\<And>x. cptr s' x = (if x = nextElem (connPool s) then Some (nextContainer s) else cptr s x)"
  shows "removal_ok s' r"
proof -
  have "x = rm_elem r" if "x < nextElem (connPool s')" "cptr s' x = Some (rm_cnt r)" for x
  proof -
    have "x \<noteq> nextElem (connPool s)" using that(2) removal_okD(4) [OF r] c [of x] by auto
    then show ?thesis using that removal_okD(6) [OF r] eq(2) c [of x] by simp
  qed
  moreover have "cptr s' (rm_elem r) = cptr s (rm_elem r)" using removal_okD(3) [OF r] c [of "rm_elem r"] by simp
  ultimately show ?thesis using r eq unfolding removal_ok_def by simp
qed

lemma world_invD:
  assumes "world_inv w xs"
  shows "agree (w_maps w 0) (w_lists w 0) xs"
    and "r \<in> set (w_removals w) \<Longrightarrow> removal_ok (w_maps w 0) r"
    and "c2e (w_ceps w 0) i = Some e \<Longrightarrow> e < nextElem (connPool (w_maps w 0)) \<and> c2l (w_ceps w 0) i = Some 0"
  using assms by (auto simp: world_inv_def)

lemma world_inv_init: "world_inv InitRuleMap_world []"
proof -
  have "agree (NewCrc2ConnMap 500000) NewContainerList []"
    by (rule agreeI [OF c2c_inv_new]) (auto simp: NewContainerList_def NewCrc2ConnMap_def NewConnPool_def)
  then show ?thesis
    by (simp add: world_inv_def InitRuleMap_world_def Action2Cep_Set_def NewAction2Cep_def NewConnElemProvisioner_def)
qed

lemma addEntryToChan_inv:
  assumes inv: "world_inv w xs" and add: "addEntryToChan GM dial buff n w = Ret w'"
  shows "world_inv w' (xs @ [nextElem (connPool (w_maps w 0))])"
proof -
  let ?s = "w_maps w 0" let ?e = "nextElem (connPool ?s)"
  note ag = world_invD(1) [OF inv]
  obtain m ci where m: "GM (take n buff) = Ret m" and ci: "w_cil w (trimActionName (n_Name m)) = Some ci"
    using add by (auto simp: addEntryToChan_def Let_def split: if_splits)
  then have nat: "trimActionName (n_Name m) = ''nat''" "ci = \<lparr>cntPool = 0, cntLst = 0, maxFluxes = 10\<rparr>"
    using inv by (auto simp: world_inv_def split: if_splits)
  define ip where "ip = IPv4 (n_Addr m ! 0) (n_Addr m ! 1) (n_Addr m ! 2) (n_Addr m ! 3)"
  define cnt where "cnt = \<lparr>c_Addr = ip, c_Port = n_Port m, c_Fluxes = 0, c_Id = n_CntId m, c_Repl = n_Repl m, c_MaxFluxes = 10\<rparr>"
  obtain s' where s': "register (UDPConnFactory dial ip (n_Port m)) cnt ?s = Ret ((nextContainer ?s, ?e), s')"
    "agree s' (AddContainer (nextContainer ?s) (w_lists w 0)) (xs @ [?e])"
    "nextContainer s' = Suc (nextContainer ?s)" "nextElem (connPool s') = Suc ?e"
    "\<forall>x. cptr s' x = (if x = ?e then Some (nextContainer ?s) else cptr ?s x)"
    using agree_register [OF ag] by blast
  have a2c: "Action2Cep_Get ''nat'' (w_a2c w) = Some 0" using inv by (simp add: world_inv_def Action2Cep_Get_def)
  have w': "w' = w\<lparr>w_maps := (w_maps w)(0 := s'), w_lists := (w_lists w)(0 := AddContainer (nextContainer ?s) (w_lists w 0)),
      w_ceps := (w_ceps w)(0 := AddConnElem (n_CntId m) ?e 0 (w_ceps w 0)),
      w_removals := w_removals w @ [\<lparr>rm_map = 0, rm_elem = ?e, rm_list = 0, rm_cnt = nextContainer ?s\<rparr>]\<rparr>"
    using add m ci nat s'(1,5) a2c
    by (auto simp: addEntryToChan_def Let_def ip_def cnt_def ConnPoolElem_GetContainer_def split: if_splits)
  have "removal_ok s' r" if "r \<in> set (w_removals w)" for r
    using removal_ok_register [OF world_invD(2) [OF inv that] s'(3,4)] s'(5) by blast
  moreover have "removal_ok s' \<lparr>rm_map = 0, rm_elem = ?e, rm_list = 0, rm_cnt = nextContainer ?s\<rparr>"
    unfolding removal_ok_def using s'(3-5) agreeD(3) [OF ag] by (fastforce simp: less_Suc_eq split: if_splits)
  moreover have "e < nextElem (connPool s') \<and> c2l (AddConnElem (n_CntId m) ?e 0 (w_ceps w 0)) i = Some 0"
    if "c2e (AddConnElem (n_CntId m) ?e 0 (w_ceps w 0)) i = Some e" for i e
    using that world_invD(3) [OF inv, of i e] s'(4) by (auto simp: AddConnElem_def split: if_splits)
  ultimately show ?thesis
    using inv s'(2) unfolding w' world_inv_def by auto
qed

lemma addEntryToChan_nat:
  assumes "n \<le> length buff" and "GM (take n buff) = Ret m" and "world_inv w xs" and "trimActionName (n_Name m) = ''nat''"
  shows "\<exists>w'. addEntryToChan GM dial buff n w = Ret w'"
proof -
  have cil: "w_cil w ''nat'' = Some \<lparr>cntPool = 0, cntLst = 0, maxFluxes = 10\<rparr>"
    and a2c: "Action2Cep_Get ''nat'' (w_a2c w) = Some 0"
    using assms(3) by (auto simp: world_inv_def Action2Cep_Get_def)
  define ip where "ip = IPv4 (n_Addr m ! 0) (n_Addr m ! 1) (n_Addr m ! 2) (n_Addr m ! 3)"
  obtain s' where s': "register (UDPConnFactory dial ip (n_Port m)) \<lparr>c_Addr = ip, c_Port = n_Port m, c_Fluxes = 0,
        c_Id = n_CntId m, c_Repl = n_Repl m, c_MaxFluxes = 10\<rparr> (w_maps w 0)
      = Ret ((nextContainer (w_maps w 0), nextElem (connPool (w_maps w 0))), s')"
    "cptr s' (nextElem (connPool (w_maps w 0))) = Some (nextContainer (w_maps w 0))"
    using agree_register [OF world_invD(1) [OF assms(3)]] by fastforce
  show ?thesis
    using assms(1,2,4) cil a2c s' by (simp add: addEntryToChan_def ip_def Let_def ConnPoolElem_GetContainer_def)
qed

text \<open>Lookups and ticks leave containers, list and registrations alone.\<close>

lemma world_inv_quiet:
  assumes inv: "world_inv w xs" and s: "c2c_inv s xs" "cptr s = cptr (w_maps w 0)"
    "nextContainer s = nextContainer (w_maps w 0)" "nextElem (connPool s) = nextElem (connPool (w_maps w 0))"
  shows "world_inv (w\<lparr>w_maps := (w_maps w)(0 := s)\<rparr>) xs"
proof -
  have "agree s (w_lists w 0) xs" by (rule agree_cong [OF world_invD(1) [OF inv] s])
  moreover have "removal_ok s r" if "r \<in> set (w_removals w)" for r
    using removal_ok_shrink [OF world_invD(2) [OF inv that] s(3,4)] fun_cong [OF s(2)] by blast
  ultimately show ?thesis using inv s(4) by (auto simp: world_inv_def)
qed

lemma not_only_member:
  assumes "world_inv w xs" and "\<not> only_member e w"
  shows "xs \<noteq> [e]"
  using agreeD(1) [OF world_invD(1) [OF assms(1)]] assms(2)
  by (auto simp: only_member_def c2c_inv_def ring_def links_def)

text \<open>An element is deleted and its container removed.\<close>

lemma world_inv_deleted:
  assumes inv: "world_inv w xs" and ag: "agree s cl (members_without e xs)"
    and eq: "nextContainer s = nextContainer (w_maps w 0)" "nextElem (connPool s) = nextElem (connPool (w_maps w 0))"
    and frame: "\<forall>x. x \<noteq> e \<longrightarrow> cptr s x = cptr (w_maps w 0) x" "cptr s e \<in> {cptr (w_maps w 0) e, None}"
    and cep: "c2e cep = c2e (w_ceps w 0)" "c2l cep = c2l (w_ceps w 0)" and rs: "set rs \<subseteq> set (w_removals w)"
  shows "world_inv (w\<lparr>w_maps := (w_maps w)(0 := s), w_lists := (w_lists w)(0 := cl),
      w_ceps := (w_ceps w)(0 := cep), w_removals := rs\<rparr>) (members_without e xs)"
proof -
  have "cptr s x \<in> {cptr (w_maps w 0) x, None}" for x using frame by (cases "x = e") auto
  then have "removal_ok s r" if "r \<in> set rs" for r
    using removal_ok_shrink [OF world_invD(2) [OF inv] eq] that rs by blast
  then show ?thesis using inv ag eq(2) cep by (auto simp: world_inv_def)
qed

lemma removal_fires_inv:
  assumes inv: "world_inv w xs" and r: "r \<in> set (w_removals w)" and more: "\<not> only_member (rm_elem r) w"
    and rng: "range_order rng"
  shows "\<exists>w'. removal_fires rng r w = Ret w' \<and> world_inv w' (members_without (rm_elem r) xs)"
proof -
  have ok: "removal_ok (w_maps w 0) r" using world_invD(2) [OF inv r] .
  have own: "rm_elem r < nextElem (connPool (w_maps w 0))"
    "\<forall>x < nextElem (connPool (w_maps w 0)). cptr (w_maps w 0) x = Some (rm_cnt r) \<longrightarrow> x = rm_elem r"
    "cptr (w_maps w 0) (rm_elem r) \<in> {Some (rm_cnt r), None}" "rm_map r = 0" "rm_list r = 0"
    using removal_okD [OF ok] by blast+
  obtain s' cl' where D: "Delete rng (rm_elem r) (w_maps w 0) = Ret s'" "RemoveContainer (rm_cnt r) (w_lists w 0) = Ret cl'"
    and ag: "agree s' cl' (members_without (rm_elem r) xs)" and eq: "nextContainer s' = nextContainer (w_maps w 0)"
      "nextElem (connPool s') = nextElem (connPool (w_maps w 0))"
    and frame: "\<forall>x. x \<noteq> rm_elem r \<longrightarrow> cptr s' x = cptr (w_maps w 0) x"
      "cptr s' (rm_elem r) \<in> {cptr (w_maps w 0) (rm_elem r), None}"
    using agree_delete [OF world_invD(1) [OF inv] own(1) not_only_member [OF inv more] rng own(2,3)] by blast
  have "removal_fires rng r w = Ret (w\<lparr>w_maps := (w_maps w)(0 := s'), w_lists := (w_lists w)(0 := cl'),
      w_ceps := (w_ceps w)(0 := w_ceps w 0), w_removals := remove1 r (w_removals w)\<rparr>)"
    using D own(4,5) by (cases w) (simp add: removal_fires_def Let_def)
  moreover have "set (remove1 r (w_removals w)) \<subseteq> set (w_removals w)" by (rule set_remove1_subset)
  ultimately show ?thesis using world_inv_deleted [OF inv ag eq frame refl refl] by blast
qed

lemma drop_registration_inv:
  assumes inv: "world_inv w xs" and e: "c2e (w_ceps w 0) i = Some e" and more: "\<not> only_member e w" and rng: "range_order rng"
  shows "\<exists>w'. drop_registration rng 0 0 i w = Ret w' \<and> world_inv w' (members_without e xs)
    \<and> GetInstance i (w_ceps w' 0) = None"
proof -
  let ?cep = "RemoveInstance i (w_ceps w 0)"
  note ag = world_invD(1) [OF inv] and el = world_invD(3) [OF inv e]
  have cep: "c2e ?cep = c2e (w_ceps w 0)" "c2l ?cep = c2l (w_ceps w 0)" by (simp_all add: RemoveInstance_def)
  have G: "GetConnElem i ?cep = (Some e, Some 0)" using e el by (simp add: GetConnElem_def RemoveInstance_def)
  have gone: "GetInstance i ?cep = None" by (simp add: GetInstance_def RemoveInstance_def)
  show ?thesis
  proof (cases "cptr (w_maps w 0) e")
    case None
    then have "e \<notin> set xs" using agree_member(2) [OF ag, of e] by auto
    then have mw: "members_without e xs = xs" by (simp add: members_without_def)
    obtain s' where s': "Delete rng e (w_maps w 0) = Ret s'" "c2c_inv s' (members_without e xs)"
      "nextContainer s' = nextContainer (w_maps w 0)" "nextElem (connPool s') = nextElem (connPool (w_maps w 0))"
      "\<forall>x. x \<noteq> e \<longrightarrow> cptr s' x = cptr (w_maps w 0) x" "cptr s' e \<in> {cptr (w_maps w 0) e, None}"
      using delete_cptr_any [OF ag _ not_only_member [OF inv more] rng] el by blast
    have "cptr s' x = cptr (w_maps w 0) x" for x using s'(5,6) None by (cases "x = e") auto
    then have "cptr s' = cptr (w_maps w 0)" by (rule ext)
    then have ag': "agree s' (w_lists w 0) (members_without e xs)"
      using agree_cong [OF ag _ _ s'(3,4)] s'(2) unfolding mw by blast
    have "drop_registration rng 0 0 i w = Ret (w\<lparr>w_maps := (w_maps w)(0 := s'), w_lists := (w_lists w)(0 := w_lists w 0),
        w_ceps := (w_ceps w)(0 := ?cep), w_removals := w_removals w\<rparr>)"
      using G s'(1) None by (cases w) (simp add: drop_registration_def Let_def ConnPoolElem_GetContainer_def)
    then show ?thesis using world_inv_deleted [OF inv ag' s'(3-6) cep subset_refl] gone by fastforce
  next
    case (Some c)
    have uniq: "\<forall>x < nextElem (connPool (w_maps w 0)). cptr (w_maps w 0) x = Some c \<longrightarrow> x = e"
      using agreeD(4) [OF ag _ Some] el by blast
    have own: "cptr (w_maps w 0) e \<in> {Some c, None}" using Some by simp
    obtain s' cl' where D: "Delete rng e (w_maps w 0) = Ret s'" "RemoveContainer c (w_lists w 0) = Ret cl'"
      and ag': "agree s' cl' (members_without e xs)" and eq: "nextContainer s' = nextContainer (w_maps w 0)"
        "nextElem (connPool s') = nextElem (connPool (w_maps w 0))"
      and frame: "\<forall>x. x \<noteq> e \<longrightarrow> cptr s' x = cptr (w_maps w 0) x" "cptr s' e \<in> {cptr (w_maps w 0) e, None}"
      using agree_delete [OF ag _ not_only_member [OF inv more] rng uniq own] el by blast
    have "drop_registration rng 0 0 i w = Ret (w\<lparr>w_maps := (w_maps w)(0 := s'), w_lists := (w_lists w)(0 := cl'),
        w_ceps := (w_ceps w)(0 := ?cep), w_removals := w_removals w\<rparr>)"
      using G D Some by (cases w) (simp add: drop_registration_def Let_def ConnPoolElem_GetContainer_def)
    then show ?thesis using world_inv_deleted [OF inv ag' eq frame cep subset_refl] gone by fastforce
  qed
qed

lemma world_step_inv:
  assumes "world_step GM rng w w'" and "world_inv w xs" and "range_order rng"
  shows "\<exists>ys. world_inv w' ys"
  using assms
proof (induction rule: world_step.induct)
  case (ws_register dial buff n w w')
  then show ?case using addEntryToChan_inv by blast
next
  case (ws_removal r w w')
  then show ?case using removal_fires_inv [of w xs r rng] by auto
next
  case (ws_stopped r w)
  then have "world_inv (w\<lparr>w_removals := remove1 r (w_removals w)\<rparr>) xs"
    using set_remove1_subset [of r "w_removals w"] unfolding world_inv_def by auto
  then show ?case ..
next
  case (ws_drop w i e w')
  then show ?case using drop_registration_inv [of w xs i e rng] by auto
next
  case (ws_get crc now w r s)
  have inv: "c2c_inv (w_maps w 0) xs" using ws_get.prems(1) world_invD(1) agreeD(1) by blast
  have "c2c_inv s xs" using ws_get.hyps Get_inv [OF inv, of crc now] Get_empty [of "w_maps w 0"] inv
    by (cases "xs = []") auto
  then show ?case using world_inv_quiet [OF ws_get.prems(1) _ Get_cptr [OF ws_get.hyps]] by blast
next
  case (ws_tick now t w b s)
  have "c2c_inv s xs" using ws_tick.prems(1) ws_tick.hyps world_invD(1) agreeD(1) flux_tick_inv by blast
  then show ?case using world_inv_quiet [OF ws_tick.prems(1) _ flux_tick_cptr [OF ws_tick.hyps]] by blast
qed

lemma world_reachable_inv:
  "world_reachable GM rng w \<Longrightarrow> range_order rng \<Longrightarrow> \<exists>xs. world_inv w xs"
proof (induction rule: world_reachable.induct)
  case world_init
  then show ?case using world_inv_init by blast
next
  case (world_next w w')
  then show ?case using world_step_inv by blast
qed

subsection \<open>Messages\<close>

lemma trimActionName_takeWhile: "trimActionName s = takeWhile (\<lambda>c. c \<noteq> CHR 0x00) s"
  by (induction s) auto

lemma dotted_split:
  "split_at (CHR ''.'') (Itoa a @ ''.'' @ Itoa b @ ''.'' @ Itoa c @ ''.'' @ Itoa d) = [Itoa a, Itoa b, Itoa c, Itoa d]"
proof -
  have "CHR ''.'' \<notin> set (Itoa n)" for n by (rule Itoa_no_sep) code_simp
  then show ?thesis by (simp add: split_at_join split_at_word)
qed

lemma ParseUint8_Itoa: "ParseUint8 (Itoa (unat b)) = Some b"
proof -
  have "unat b < 256" using unsigned_less [of b, where 'a = nat] by simp
  then show ?thesis by (simp add: ParseUint8_def)
qed

lemma NewMsg_dotted:
  "NewMsg (Itoa (unat a) @ ''.'' @ Itoa (unat b) @ ''.'' @ Itoa (unat c) @ ''.'' @ Itoa (unat d)) p = \<lparr>m_Addr = [a, b, c, d], m_Port = p\<rparr>"
proof -
  have "replicate 4 (0 :: u8) = [0, 0, 0, 0]" by (simp add: numeral_eq_Suc)
  then show ?thesis unfolding NewMsg_def dotted_split Let_def by (simp add: ParseUint8_Itoa)
qed

section \<open>Properties\<close>


text \<open>A decoder of registration messages for the examples: the first byte is the container id.\<close>

definition GM_ex :: "bytes \<Rightarrow> nfmsg go" where
  "GM_ex b = Ret \<lparr>n_Addr = [10, 0, 0, 1], n_Port = 9000, n_Name = ''nat'' @ [CHR 0x00],
     n_CntId = ucast (if b = [] then 0 else hd b), n_Repl = False\<rparr>"

definition world_ex :: world where
  "world_ex = (case addEntryToChan GM_ex (\<lambda>_ _. Some 1) [1] 1 InitRuleMap_world of Ret w \<Rightarrow> w | _ \<Rightarrow> InitRuleMap_world)"

lemma world_ex: "addEntryToChan GM_ex (\<lambda>_ _. Some 1) [1] 1 InitRuleMap_world = Ret world_ex"
proof -
  let ?m = "\<lparr>n_Addr = [10, 0, 0, 1], n_Port = 9000, n_Name = ''nat'' @ [CHR 0x00], n_CntId = 1, n_Repl = False\<rparr>"
  have "trimActionName (n_Name ?m) = ''nat''" by code_simp
  then have "\<exists>w. addEntryToChan GM_ex (\<lambda>_ _. Some 1) [1] 1 InitRuleMap_world = Ret w"
    by (intro addEntryToChan_nat [OF _ _ world_inv_init, of _ _ _ ?m]) (simp_all add: GM_ex_def)
  then show ?thesis by (auto simp: world_ex_def)
qed


text \<open>
  A registration is accepted exactly for the actions the gateway knows: for any other action name in
  the message the missing entry of the table is dereferenced and the process panics.
\<close>

theorem registration_of_unknown_action_panics:
  assumes "n \<le> length buff" and "GM (take n buff) = Ret m" and "world_inv w xs"
  shows "if trimActionName (n_Name m) = ''nat'' then \<exists>w'. addEntryToChan GM dial buff n w = Ret w'
    else addEntryToChan GM dial buff n w = Panic NilDereference"
proof (cases "trimActionName (n_Name m) = ''nat''")
  case True
  then show ?thesis using addEntryToChan_nat [of n buff GM m w xs dial] assms by simp
next
  case False
  then show ?thesis using assms by (auto simp: addEntryToChan_def Let_def world_inv_def)
qed

theorem registration_of_unknown_action_panics_witness:
  "addEntryToChan (\<lambda>_. Ret \<lparr>n_Addr = [10, 0, 0, 1], n_Port = 9000, n_Name = ''dhcp'', n_CntId = 1, n_Repl = False\<rparr>)
     (\<lambda>_ _. None) [] 0 InitRuleMap_world = Panic NilDereference"
proof -
  let ?GM = "\<lambda>_. Ret \<lparr>n_Addr = [10, 0, 0, 1], n_Port = 9000, n_Name = ''dhcp'', n_CntId = 1, n_Repl = False\<rparr>"
  show ?thesis
    using registration_of_unknown_action_panics [of 0 "[]" ?GM _ InitRuleMap_world "[]" "\<lambda>_ _. None"] world_inv_init by simp
qed

text \<open>
  C38: The message codec is a round trip: encoding a message with a four-byte address and decoding the
  bytes, whatever follows them, gives the message back; and \<open>NewMsg\<close> reads every dotted address that
  the address prints.
\<close>

theorem msg_roundtrip:
  assumes "length (m_Addr m) = 4"
  shows "getMsgFromBytes (getBytesFromMsg m @ rest) = Ret m
    \<and> length (getBytesFromMsg m) = 6
    \<and> NewMsg (Itoa (unat (m_Addr m ! 0)) @ ''.'' @ Itoa (unat (m_Addr m ! 1)) @ ''.'' @ Itoa (unat (m_Addr m ! 2))
         @ ''.'' @ Itoa (unat (m_Addr m ! 3))) (m_Port m) = m"
proof -
  obtain a b c d where addr: "m_Addr m = [a, b, c, d]"
    using assms by (auto simp: numeral_eq_Suc length_Suc_conv)
  have port: "be16 (ucast (drop_bit 8 (m_Port m))) (ucast (m_Port m AND 255)) = m_Port m"
    by (simp add: be16_def u16_of_bytes)
  have "getMsgFromBytes (getBytesFromMsg m @ rest) = Ret m" "length (getBytesFromMsg m) = 6"
    using addr port by (cases m, simp add: getMsgFromBytes_def getBytesFromMsg_def)+
  moreover have "NewMsg (Itoa (unat a) @ ''.'' @ Itoa (unat b) @ ''.'' @ Itoa (unat c) @ ''.'' @ Itoa (unat d)) (m_Port m) = m"
    using addr unfolding NewMsg_dotted by (cases m) simp
  ultimately show ?thesis unfolding addr by (simp add: numeral_eq_Suc)
qed

theorem msg_roundtrip_witness:
  "getMsgFromBytes (getBytesFromMsg \<lparr>m_Addr = [10, 0, 0, 1], m_Port = 9000\<rparr>) = Ret \<lparr>m_Addr = [10, 0, 0, 1], m_Port = 9000\<rparr>"
  using msg_roundtrip [of "\<lparr>m_Addr = [10, 0, 0, 1], m_Port = 9000\<rparr>" "[]"] by simp

end
