(* ===== verification/Provision.thy ===== *)
theory Provision
  imports Registration Scaling "HOL-Library.Sublist"
begin

text \<open>
  The goroutines of \<open>src/cnt/provisioner.go\<close> that create and drop containers: \<open>startDropFunction\<close>,
  the creation loop and the scale-down loop of \<open>InstantiateFunctions\<close>.

  Each iteration of a goroutine's select is one definition. \<open>op.CreateFunction\<close> only sends a request
  here: the calls are the list \<open>p_created\<close>, with the container id and the replica flag; their errors are
  logged and change nothing. The values of \<open>rand.Intn(65535)\<close> and the order of ranges are arguments.
\<close>

section \<open>Definitions\<close>

record Instance =
  i_size :: int
  decChan :: "u16 list option"
  decCap :: nat

record prov =
  p_world :: world
  p_insts :: "ptr \<Rightarrow> Instance"
  p_next :: ptr
  p_ids :: "ptr \<Rightarrow> u16 list" \<comment> \<open>\<open>cntIdMap\<close> of the goroutine that serves the instance\<close>
  p_created :: "(u16 \<times> string) list"

definition rand_id :: "nat \<Rightarrow> u16" where
  "rand_id r = of_nat r + 1"

definition upd_cep :: "ptr \<Rightarrow> (ConnElemProvisioner \<Rightarrow> ConnElemProvisioner) \<Rightarrow> prov \<Rightarrow> prov" where
  "upd_cep cep f p = p\<lparr>p_world := (p_world p)\<lparr>w_ceps := (w_ceps (p_world p))(cep := f (w_ceps (p_world p) cep))\<rparr>\<rparr>"

subsection \<open>Creation\<close>

text \<open>
  The loop that requests one container per random number; \<open>startDropFunction\<close> also remembers the ids.
\<close>

fun create_loop :: "bool \<Rightarrow> string \<Rightarrow> ptr \<Rightarrow> ptr \<Rightarrow> nat list \<Rightarrow> prov \<Rightarrow> prov" where
  "create_loop remember repl cep inst [] p = p"
| "create_loop remember repl cep inst (r # rs) p =
     (let cntId = rand_id r;
          p = p\<lparr>p_created := p_created p @ [(cntId, repl)]\<rparr>;
          p = (if remember then p\<lparr>p_ids := (p_ids p)(inst := List.insert cntId (p_ids p inst))\<rparr> else p);
          p = upd_cep cep (AddInstance cntId inst) p
      in create_loop remember repl cep inst rs p)"

text \<open>
  The permanent containers of \<open>InstantiateFunctions\<close>: its first instance, whose channel has no buffer,
  and one round of the goroutine that creates \<open>p.Min\<close> replicas.
\<close>

definition InstantiateFunctions_start :: "Provisioner \<Rightarrow> prov \<Rightarrow> ptr \<times> prov" where
  "InstantiateFunctions_start pr p =
     (let inst = p_next p in
      (inst, p\<lparr>p_insts := (p_insts p)(inst := \<lparr>i_size = Min pr, decChan = Some [], decCap = 0\<rparr>), p_next := Suc inst\<rparr>))"

definition InstantiateFunctions_replicas :: "Provisioner \<Rightarrow> ptr \<Rightarrow> ptr \<Rightarrow> (nat \<Rightarrow> nat) \<Rightarrow> prov \<Rightarrow> prov" where
  "InstantiateFunctions_replicas pr cep inst rand p = create_loop False ''1'' cep inst (map rand [0..<nat (Min pr)]) p"

text \<open>Scaling up: a new instance with a channel for \<open>delta + 1\<close> ids.\<close>

definition scale_up :: "int \<Rightarrow> prov \<Rightarrow> ptr \<times> prov" where
  "scale_up delta p =
     (let inst = p_next p in
      (inst, p\<lparr>p_insts := (p_insts p)(inst := \<lparr>i_size = delta, decChan = Some [], decCap = nat (delta + 1)\<rparr>),
             p_ids := (p_ids p)(inst := []), p_next := Suc inst\<rparr>))"

text \<open>\<open>startDropFunction\<close>: its first creation, and the case of its ticker; the flag says that it returns.\<close>

definition startDropFunction_start :: "ptr \<Rightarrow> ptr \<Rightarrow> (nat \<Rightarrow> nat) \<Rightarrow> prov \<Rightarrow> prov" where
  "startDropFunction_start cep inst rand p =
     create_loop True ''0'' cep inst (map rand [0..<nat (i_size (p_insts p inst))]) p"

definition startDropFunction_tick :: "ptr \<Rightarrow> ptr \<Rightarrow> (nat \<Rightarrow> nat) \<Rightarrow> prov \<Rightarrow> bool \<times> prov" where
  "startDropFunction_tick cep inst rand p =
     (if i_size (p_insts p inst) \<le> 0 then (True, p)
      else (False, create_loop True ''0'' cep inst (map rand [0..<nat (i_size (p_insts p inst))]) p))"

subsection \<open>Dropping\<close>

text \<open>The case of \<open>startDropFunction\<close> that receives the id of a container to drop.\<close>

definition startDropFunction_dec :: "(u16 list \<Rightarrow> u16 list) \<Rightarrow> ptr \<Rightarrow> ptr \<Rightarrow> ptr \<Rightarrow> prov \<Rightarrow> prov go" where
  "startDropFunction_dec rng m cep inst p =
     (case decChan (p_insts p inst) of
        None \<Rightarrow> Block
      | Some ch \<Rightarrow>
          go_bind (chan_recv ch) (\<lambda>(cntInt, ch').
          let p = p\<lparr>p_insts := (p_insts p)(inst := (p_insts p inst)\<lparr>decChan := Some ch'\<rparr>)\<rparr> in
          if cntInt \<in> set (p_ids p inst) then
            let p = p\<lparr>p_ids := (p_ids p)(inst := filter (\<lambda>i. i \<noteq> cntInt) (p_ids p inst))\<rparr> in
            go_bind (drop_registration rng m cep cntInt (p_world p)) (\<lambda>w.
            let p = p\<lparr>p_world := w\<rparr> in
            Ret (p\<lparr>p_insts := (p_insts p)(inst := (p_insts p inst)\<lparr>i_size := i_size (p_insts p inst) - 1\<rparr>)\<rparr>))
          else Ret p))"

text \<open>
  The loop of \<open>InstantiateFunctions\<close> for a negative delta, over the ids of \<open>c2e\<close> in the order of the
  range. The result lists the ids that were sent to their instances.
\<close>

fun scale_down_loop :: "ptr \<Rightarrow> ptr \<Rightarrow> (u16 \<times> ptr) list \<Rightarrow> int \<Rightarrow> prov \<Rightarrow> (u16 list \<times> prov) go" where
  "scale_down_loop m cep [] delta p = Ret ([], p)"
| "scale_down_loop m cep ((cntId, connElem) # rest) delta p =
     (let s = w_maps (p_world p) m;
          forget = upd_cep cep (RemoveConnElem cntId) in
      if IsAlive connElem (connPool s) then
        go_bind (IsRepl connElem s) (\<lambda>repl.
        if \<not> repl then
          (case GetInstanceNoLock cntId (w_ceps (p_world p) cep) of
             None \<Rightarrow> scale_down_loop m cep rest delta (forget p)
           | Some inst \<Rightarrow>
               (case decChan (p_insts p inst) of
                  None \<Rightarrow> scale_down_loop m cep rest delta (forget p)
                | Some ch \<Rightarrow>
                    go_bind (chan_send (decCap (p_insts p inst)) ch cntId) (\<lambda>ch'.
                    let p = p\<lparr>p_insts := (p_insts p)(inst := (p_insts p inst)\<lparr>decChan := Some ch'\<rparr>)\<rparr>;
                        delta = delta + 1 in
                    if delta = 0 then Ret ([cntId], p)
                    else go_bind (scale_down_loop m cep rest delta p) (\<lambda>(ids, p). Ret (cntId # ids, p)))))
        else scale_down_loop m cep rest delta p)
      else scale_down_loop m cep rest delta (forget p))"

section \<open>Lemmas\<close>

lemma upd_cep_simps [simp]:
  "w_maps (p_world (upd_cep cep f p)) = w_maps (p_world p)" "p_insts (upd_cep cep f p) = p_insts p"
  "p_ids (upd_cep cep f p) = p_ids p" "p_created (upd_cep cep f p) = p_created p"
  "w_ceps (p_world (upd_cep cep f p)) cep = f (w_ceps (p_world p) cep)"
  by (simp_all add: upd_cep_def)

lemma unat_rand_id: "r < 65535 \<Longrightarrow> unat (rand_id r) = r + 1"
  by (simp add: rand_id_def unat_word_ariths unat_of_nat)

lemma create_loop_effect:
  fixes p cep inst rs repl
  defines "q \<equiv> create_loop True repl cep inst rs p"
  shows "p_created q = p_created p @ map (\<lambda>r. (rand_id r, repl)) rs"
    and "set (p_ids q inst) = set (p_ids p inst) \<union> rand_id ` set rs"
    and "GetInstance k (w_ceps (p_world q) cep) =
      (if k \<in> rand_id ` set rs then Some inst else GetInstance k (w_ceps (p_world p) cep))"
proof -
  have "p_created q = p_created p @ map (\<lambda>r. (rand_id r, repl)) rs \<and>
    set (p_ids q inst) = set (p_ids p inst) \<union> rand_id ` set rs \<and>
    GetInstance k (w_ceps (p_world q) cep) =
      (if k \<in> rand_id ` set rs then Some inst else GetInstance k (w_ceps (p_world p) cep))"
    unfolding q_def
  proof (induction rs arbitrary: p)
    case (Cons r rs)
    show ?case by (simp add: Let_def Cons.IH inst_map.get_put)
  qed simp
  then show "p_created q = p_created p @ map (\<lambda>r. (rand_id r, repl)) rs"
    "set (p_ids q inst) = set (p_ids p inst) \<union> rand_id ` set rs"
    "GetInstance k (w_ceps (p_world q) cep) =
      (if k \<in> rand_id ` set rs then Some inst else GetInstance k (w_ceps (p_world p) cep))" by auto
qed

text \<open>The entries that the scale-down loop may send: live containers that are no replicas.\<close>

definition droppable :: "ptr \<Rightarrow> prov \<Rightarrow> u16 \<times> ptr \<Rightarrow> bool" where
  "droppable m p x \<longleftrightarrow> IsAlive (snd x) (connPool (w_maps (p_world p) m)) \<and> IsRepl (snd x) (w_maps (p_world p) m) = Ret False"

lemma droppable_cong [simp]:
  "droppable m (upd_cep cep f p) = droppable m p" "droppable m (p\<lparr>p_insts := is\<rparr>) = droppable m p"
  by (simp_all add: droppable_def fun_eq_iff)

text \<open>One iteration: the entry is passed over, perhaps forgotten, or it is sent.\<close>

lemma scale_down_iteration:
  assumes "scale_down_loop m cep ((i, e) # rest) delta p = Ret (ids, p')"
  obtains (skip) p1 where "w_maps (p_world p1) = w_maps (p_world p)" and "scale_down_loop m cep rest delta p1 = Ret (ids, p')"
  | (last) "droppable m p (i, e)" and "delta + 1 = 0" and "ids = [i]" and "w_maps (p_world p') = w_maps (p_world p)"
  | (send) p1 ids' where "droppable m p (i, e)" and "delta + 1 \<noteq> 0" and "ids = i # ids'"
      and "w_maps (p_world p1) = w_maps (p_world p)" and "scale_down_loop m cep rest (delta + 1) p1 = Ret (ids', p')"
proof (cases "IsAlive e (connPool (w_maps (p_world p) m))")
  case False
  then show thesis using assms by (intro skip [of "upd_cep cep (RemoveConnElem i) p"]) (auto simp: Let_def)
next
  case True
  then obtain repl where r: "IsRepl e (w_maps (p_world p) m) = Ret repl" using assms by (auto simp: Let_def)
  show thesis
  proof (cases repl)
    case True
    then show thesis using \<open>IsAlive e _\<close> r assms by (intro skip [of p]) (auto simp: Let_def)
  next
    case False
    then have d: "droppable m p (i, e)" using True r by (simp add: droppable_def)
    let ?inst = "GetInstanceNoLock i (w_ceps (p_world p) cep)"
    show thesis
    proof (cases "\<exists>inst ch. ?inst = Some inst \<and> decChan (p_insts p inst) = Some ch")
      case False
      then have "scale_down_loop m cep rest delta (upd_cep cep (RemoveConnElem i) p) = Ret (ids, p')"
        using True r \<open>\<not> repl\<close> assms by (auto simp: Let_def split: option.splits)
      then show thesis by (intro skip [of "upd_cep cep (RemoveConnElem i) p"]) auto
    next
      case (True)
      then obtain inst ch where ic: "?inst = Some inst" "decChan (p_insts p inst) = Some ch" by blast
      let ?p1 = "p\<lparr>p_insts := (p_insts p)(inst := (p_insts p inst)\<lparr>decChan := Some (ch @ [i])\<rparr>)\<rparr>"
      have res: "(if delta + 1 = 0 then Ret ([i], ?p1)
          else go_bind (scale_down_loop m cep rest (delta + 1) ?p1) (\<lambda>(ids, p). Ret (i # ids, p))) = Ret (ids, p')"
        using \<open>IsAlive e _\<close> r \<open>\<not> repl\<close> ic assms by (auto simp: Let_def)
      show thesis
      proof (cases "delta + 1 = 0")
        case True
        then show thesis using res last d by auto
      next
        case False
        then obtain ids' where "scale_down_loop m cep rest (delta + 1) ?p1 = Ret (ids', p')" "ids = i # ids'"
          using res by auto
        then show thesis using send [OF d False, of ids' ?p1] by simp
      qed
    qed
  qed
qed

lemma scale_down_loop_sent:
  assumes "scale_down_loop m cep es delta p = Ret (ids, p')" and "delta < 0"
  shows "length ids \<le> nat (- delta) \<and> (\<exists>xs. subseq xs es \<and> ids = map fst xs \<and> (\<forall>x \<in> set xs. droppable m p x))
    \<and> w_maps (p_world p') = w_maps (p_world p)"
  using assms
proof (induction es arbitrary: delta p ids)
  case Nil
  then show ?case by auto
next
  case (Cons x es)
  obtain i e where x: "x = (i, e)" by (cases x)
  have cong: "droppable m q = droppable m p" if "w_maps (p_world q) = w_maps (p_world p)" for q
    using that by (simp add: droppable_def fun_eq_iff)
  from Cons.prems(1) [unfolded x] show ?case
  proof (cases rule: scale_down_iteration)
    case (skip p1)
    from Cons.IH [OF skip(2) Cons.prems(2)] skip(1) cong [OF skip(1)] show ?thesis by auto
  next
    case last
    then show ?thesis using Cons.prems(2) x by (auto intro!: exI [of _ "[(i, e)]"])
  next
    case (send p1 ids')
    have neg: "delta + 1 < 0" using send(2) Cons.prems(2) by simp
    obtain xs where xs: "subseq xs es" "ids' = map fst xs" "\<forall>x \<in> set xs. droppable m p x" "length ids' \<le> nat (- (delta + 1))"
      "w_maps (p_world p') = w_maps (p_world p)"
      using Cons.IH [OF send(5) neg] cong [OF send(4)] send(4) by auto
    then show ?thesis using send(1,3) Cons.prems(2) x by (intro conjI exI [of _ "(i, e) # xs"]) auto
  qed
qed

section \<open>Properties\<close>

text \<open>
  Scaling down by \<open>-delta\<close> tells at most \<open>-delta\<close> containers to go, no container twice, and only
  live containers that are not permanent replicas; the pool itself is left to the receivers.
\<close>

theorem scale_down_selects:
  assumes "scale_down_loop m cep es delta p = Ret (ids, p')" and "delta < 0" and "distinct (map fst es)"
  shows "length ids \<le> nat (- delta) \<and> distinct ids
    \<and> (\<forall>i \<in> set ids. \<exists>e. (i, e) \<in> set es \<and> IsAlive e (connPool (w_maps (p_world p) m)) \<and> IsRepl e (w_maps (p_world p) m) = Ret False)
    \<and> w_maps (p_world p') = w_maps (p_world p)"
proof -
  obtain xs where xs: "length ids \<le> nat (- delta)" "subseq xs es" "ids = map fst xs" "\<forall>x \<in> set xs. droppable m p x"
    "w_maps (p_world p') = w_maps (p_world p)"
    using scale_down_loop_sent [OF assms(1,2)] by blast
  have "map fst xs \<in> set (subseqs (map fst es))" using subseq_map [OF xs(2), of fst] by simp
  then have "distinct ids" using subseqs_distinctD assms(3) xs(3) by blast
  moreover have "xs \<in> set (subseqs es)" using xs(2) by simp
  then have "set xs \<subseteq> set es" using subseqs_powset [of es] by blast
  ultimately show ?thesis using xs by (fastforce simp: droppable_def)
qed

text \<open>The world with one registered container, owned by an instance with a buffered channel.\<close>

definition prov_ex :: prov where
  "prov_ex = \<lparr>p_world = world_ex\<lparr>w_ceps := (w_ceps world_ex)(0 := AddInstance 1 0 (w_ceps world_ex 0))\<rparr>,
     p_insts = (\<lambda>_. \<lparr>i_size = 1, decChan = Some [], decCap = 2\<rparr>), p_next = 1, p_ids = (\<lambda>_. [1]), p_created = []\<rparr>"

lemma prov_ex_sends: "map_go fst (scale_down_loop 0 0 [(1, 0)] (-1) prov_ex) = Ret [1]"
  by code_simp

theorem scale_down_selects_witness:
  "\<exists>p'. scale_down_loop 0 0 [(1, 0)] (-1) prov_ex = Ret ([1], p')
    \<and> IsRepl 0 (w_maps (p_world prov_ex) 0) = Ret False \<and> w_maps (p_world p') = w_maps (p_world prov_ex)"
proof -
  obtain ids p' where R: "scale_down_loop 0 0 [(1, 0)] (-1) prov_ex = Ret (ids, p')"
    using prov_ex_sends by (cases "scale_down_loop 0 0 [(1, 0)] (-1) prov_ex") auto
  then have "ids = [1]" using prov_ex_sends by simp
  then show ?thesis using scale_down_selects [OF R] R by simp
qed


definition world_ex2 :: world where
  "world_ex2 = (case addEntryToChan GM_ex (\<lambda>_ _. Some 2) [2] 1 world_ex of Ret w \<Rightarrow> w | _ \<Rightarrow> world_ex)"

lemma world_ex_inv: "world_inv world_ex [0]" and world_ex2_inv: "world_inv world_ex2 [0, 1]"
proof -
  have "nextElem (connPool (w_maps InitRuleMap_world 0)) = 0" by code_simp
  then show 1: "world_inv world_ex [0]" using addEntryToChan_inv [OF world_inv_init world_ex] by simp
  have t: "trimActionName (n_Name \<lparr>n_Addr = [10, 0, 0, 1], n_Port = 9000, n_Name = ''nat'' @ [CHR 0x00], n_CntId = 2, n_Repl = False\<rparr>) = ''nat''"
    by code_simp
  have "\<exists>w'. addEntryToChan GM_ex (\<lambda>_ _. Some 2) [2] 1 world_ex = Ret w'"
    by (rule addEntryToChan_nat [OF _ _ 1 t]) (simp_all add: GM_ex_def)
  then have "addEntryToChan GM_ex (\<lambda>_ _. Some 2) [2] 1 world_ex = Ret world_ex2" by (auto simp: world_ex2_def)
  moreover have "nextElem (connPool (w_maps world_ex 0)) = 1" by code_simp
  ultimately show "world_inv world_ex2 [0, 1]" using addEntryToChan_inv [OF 1, of GM_ex "\<lambda>_ _. Some 2" "[2]" 1 world_ex2] by simp
qed

definition prov_ex2 :: prov where
  "prov_ex2 = \<lparr>p_world = world_ex2, p_insts = (\<lambda>_. \<lparr>i_size = 1, decChan = Some [1], decCap = 2\<rparr>),
     p_next = 1, p_ids = (\<lambda>_. [1]), p_created = []\<rparr>"


text \<open>
  A container told to go whose element was forgotten meanwhile (the scale-down loop forgets the
  elements that are not alive) crashes the gateway: the nil element is dereferenced.
\<close>

theorem drop_of_forgotten_element_panics:
  assumes "decChan (p_insts p inst) = Some (i # ch)" and "i \<in> set (p_ids p inst)" and "c2e (w_ceps (p_world p) cep) i = None"
  shows "startDropFunction_dec rng m cep inst p = Panic NilDereference"
  using assms by (simp add: startDropFunction_dec_def drop_registration_def GetConnElem_def RemoveInstance_def Let_def)

theorem drop_of_forgotten_element_panics_witness:
  "startDropFunction_dec id 0 0 0 (upd_cep 0 (RemoveConnElem 1) prov_ex2) = Panic NilDereference"
proof -
  have "decChan (p_insts (upd_cep 0 (RemoveConnElem 1) prov_ex2) 0) = Some [1]"
    "1 \<in> set (p_ids (upd_cep 0 (RemoveConnElem 1) prov_ex2) 0)"
    "c2e (w_ceps (p_world (upd_cep 0 (RemoveConnElem 1) prov_ex2)) 0) 1 = None"
    by (simp_all add: prov_ex2_def RemoveConnElem_def upd_cep_def)
  then show ?thesis by (rule drop_of_forgotten_element_panics)
qed

text \<open>
  The scale-down loop waits forever, holding the read lock, on a container of the first instance
  that did not register as a replica: the channel of that instance has no buffer and no receiver.
\<close>

theorem scale_down_blocks_without_receiver:
  assumes "droppable m p (i, e)" and "GetInstanceNoLock i (w_ceps (p_world p) cep) = Some inst"
    and "p_insts p inst = p_insts (snd (InstantiateFunctions_start pr p0)) (fst (InstantiateFunctions_start pr p0))"
  shows "scale_down_loop m cep ((i, e) # rest) delta p = Block"
  using assms by (simp add: droppable_def InstantiateFunctions_start_def chan_send_def Let_def)

theorem scale_down_blocks_without_receiver_witness:
  "scale_down_loop 0 0 [(1, 0)] (-1)
     (prov_ex\<lparr>p_insts := (\<lambda>_. \<lparr>i_size = 1, decChan = Some [], decCap = 0\<rparr>)\<rparr>) = Block"
proof -
  let ?pr = "ActionHandler [] [] [] [] 0"
  have d: "droppable 0 prov_ex (1, 0)" unfolding droppable_def by (rule conjI; code_simp)
  have i: "GetInstanceNoLock 1 (w_ceps (p_world prov_ex) 0) = Some 0" by code_simp
  show ?thesis
    by (rule scale_down_blocks_without_receiver [where inst = 0 and pr = ?pr and ?p0.0 = prov_ex])
      (use d i in \<open>simp_all add: InstantiateFunctions_start_def ActionHandler_def Let_def\<close>)
qed

text \<open>
  A round of creation requests one container per unit of the instance's size, with ids from 1 to
  65535, and registers every id with the instance.
\<close>

theorem creation_registers_ids:
  assumes "\<forall>k. rand k < 65535"
  shows "\<exists>ids. p_created (startDropFunction_start cep inst rand p) = p_created p @ map (\<lambda>i. (i, ''0'')) ids
    \<and> length ids = nat (i_size (p_insts p inst)) \<and> 0 \<notin> set ids
    \<and> (\<forall>i \<in> set ids. i \<in> set (p_ids (startDropFunction_start cep inst rand p) inst)
         \<and> GetInstance i (w_ceps (p_world (startDropFunction_start cep inst rand p)) cep) = Some inst)"
proof -
  let ?rs = "map rand [0..<nat (i_size (p_insts p inst))]"
  have "rand_id (rand k) \<noteq> 0" for k
    using unat_rand_id [of "rand k"] assms by (metis add_is_0 one_neq_zero unat_0)
  then show ?thesis
    unfolding startDropFunction_start_def
    by (intro exI [of _ "map rand_id ?rs"]) (auto simp: create_loop_effect)
qed

theorem creation_registers_ids_witness:
  "\<exists>ids. p_created (startDropFunction_start 0 0 (\<lambda>k. 6) prov_ex) = map (\<lambda>i. (i, ''0'')) ids \<and> length ids = 1 \<and> 0 \<notin> set ids"
  using creation_registers_ids [of "\<lambda>k. 6" 0 0 prov_ex] by (auto simp: prov_ex_def)

end
