(* ===== verification/Flow_Forward.thy ===== *)
theory Flow_Forward
  imports Packet_Crc Conn_Pool
begin

text \<open>
  The forwarders that keep one UDP connection per flow in a plain map: \<open>sendToContainerHelper\<close> of
  \<open>src/cnt/handler.go\<close> and \<open>sendToIpv2\<close> of the two throughput tools
  (\<open>src/testthroughput/eth/eth2ip.go\<close>, \<open>src/testthroughput/ip/ip2ip.go\<close>), which carry their own copies of
  the packet extractors and of \<open>PktCrc16\<close>.

  The interface \<open>flow_forwarder\<close> states what a forwarder does with a known and with a new flow; its
  lemma, that all the packets of a flow leave through the connection opened for the first one, holds for
  all three.

  The outcome of \<open>net.DialUDP\<close> and the payload that \<open>header.UDP\<close> (package
  \<open>github.com/google/netstack\<close>) cuts out of a packet are parameters.
\<close>

section \<open>Definitions\<close>

subsection \<open>The copies of the extractors\<close>

definition eth_GetIPsFromPkt :: "bytes \<Rightarrow> (bytes \<times> bytes \<times> error option) go" where
  "eth_GetIPsFromPkt = GetIPsFromBytes 12 16"

definition eth_GetPortsFromPkt :: "bytes \<Rightarrow> (u16 \<times> u16 \<times> error option) go" where
  "eth_GetPortsFromPkt = GetPortsFromBytes 20 (20 + 1) 22 (22 + 1)"

definition eth_PktCrc16 :: "(bytes \<Rightarrow> u16) \<Rightarrow> bytes \<Rightarrow> (u16 \<times> error option) go" where
  "eth_PktCrc16 ChecksumIBM = PktCrc16_body ChecksumIBM eth_GetIPsFromPkt eth_GetPortsFromPkt"

definition ip_GetIPsFromPkt :: "bytes \<Rightarrow> (bytes \<times> bytes \<times> error option) go" where
  "ip_GetIPsFromPkt = GetIPsFromBytes 12 16"

definition ip_GetPortsFromPkt :: "bytes \<Rightarrow> (u16 \<times> u16 \<times> error option) go" where
  "ip_GetPortsFromPkt = GetPortsFromBytes 20 (20 + 1) 22 (22 + 1)"

definition ip_PktCrc16 :: "(bytes \<Rightarrow> u16) \<Rightarrow> bytes \<Rightarrow> (u16 \<times> error option) go" where
  "ip_PktCrc16 ChecksumIBM = PktCrc16_body ChecksumIBM ip_GetIPsFromPkt ip_GetPortsFromPkt"

subsection \<open>The forwarders\<close>

text \<open>
  \<open>f_conns\<close> is the shared map; a stored nil connection is \<open>Some None\<close>. \<open>f_out\<close> are the writes, \<open>f_dials\<close>
  the number of connections that were opened or tried, \<open>f_cnts\<close> the channel of containers.
\<close>

record fwd =
  f_conns :: "u16 \<Rightarrow> conn option option"
  f_out :: "(conn \<times> bytes) list"
  f_dials :: nat
  f_cnts :: "(bytes \<times> u16) list"

text \<open>A write to a nil connection fails; the error is logged.\<close>

definition fwd_write :: "conn option \<Rightarrow> bytes \<Rightarrow> fwd \<Rightarrow> fwd" where
  "fwd_write conn pkt f = (case conn of None \<Rightarrow> f | Some cn \<Rightarrow> f\<lparr>f_out := f_out f @ [(cn, pkt)]\<rparr>)"

definition sendToContainerHelper ::
  "(bytes \<Rightarrow> u16) \<Rightarrow> (bytes \<Rightarrow> u16 \<Rightarrow> nat \<Rightarrow> conn option) \<Rightarrow> bytes \<Rightarrow> fwd \<Rightarrow> fwd go" where
  "sendToContainerHelper ChecksumIBM dial pkt f =
     go_bind (PktCrc16 ChecksumIBM pkt) (\<lambda>(code, err).
     if err \<noteq> None then Ret f else
     case f_conns f code of
       Some conn \<Rightarrow> Ret (fwd_write conn pkt f)
     | None \<Rightarrow>
         go_bind (chan_recv (f_cnts f)) (\<lambda>((addr, port), rest).
         let conn = dial addr port (f_dials f);
             f = f\<lparr>f_cnts := rest, f_dials := Suc (f_dials f), f_conns := (f_conns f)(code := Some conn)\<rparr>
         in Ret (fwd_write conn pkt f)))"

text \<open>Here a failed dial ends the process (\<open>log.Fatalf\<close>).\<close>

definition eth_sendToIpv2 ::
  "(bytes \<Rightarrow> u16) \<Rightarrow> (bytes \<Rightarrow> int \<Rightarrow> nat \<Rightarrow> conn option) \<Rightarrow> bytes \<Rightarrow> int \<Rightarrow> bytes \<Rightarrow> fwd \<Rightarrow> fwd go" where
  "eth_sendToIpv2 ChecksumIBM dial addr port pkt f =
     go_bind (eth_PktCrc16 ChecksumIBM pkt) (\<lambda>(crc, err).
     if err \<noteq> None then Ret f else
     case f_conns f crc of
       Some conn \<Rightarrow> Ret (fwd_write conn pkt f)
     | None \<Rightarrow>
         (case dial addr port (f_dials f) of
            None \<Rightarrow> Exit
          | Some cn \<Rightarrow>
              let f = f\<lparr>f_dials := Suc (f_dials f), f_conns := (f_conns f)(crc := Some (Some cn))\<rparr>
              in Ret (fwd_write (Some cn) pkt f)))"

text \<open>The variant of \<open>ip2ip\<close> sends the payload of the UDP packet; \<open>payload\<close> may panic on a short one.\<close>

definition ip_sendToIpv2 ::
  "(bytes \<Rightarrow> u16) \<Rightarrow> (bytes \<Rightarrow> bytes go) \<Rightarrow> (bytes \<Rightarrow> int \<Rightarrow> nat \<Rightarrow> conn option) \<Rightarrow> bytes \<Rightarrow> int \<Rightarrow> bytes \<Rightarrow> fwd \<Rightarrow> fwd go" where
  "ip_sendToIpv2 ChecksumIBM payload dial addr port pkt f =
     go_bind (ip_PktCrc16 ChecksumIBM pkt) (\<lambda>(crc, err).
     go_bind (payload pkt) (\<lambda>udpPayload.
     if err \<noteq> None then Ret f else
     case f_conns f crc of
       Some conn \<Rightarrow> Ret (fwd_write conn udpPayload f)
     | None \<Rightarrow>
         (case dial addr port (f_dials f) of
            None \<Rightarrow> Exit
          | Some cn \<Rightarrow>
              let f = f\<lparr>f_dials := Suc (f_dials f), f_conns := (f_conns f)(crc := Some (Some cn))\<rparr>
              in Ret (fwd_write (Some cn) udpPayload f))))"

section \<open>Lemmas\<close>

interpretation eth_fields: packet_fields eth_GetIPsFromPkt eth_GetPortsFromPkt
  by unfold_locales (auto simp: eth_GetIPsFromPkt_def eth_GetPortsFromPkt_def extractor_simps)

interpretation ip_fields: packet_fields ip_GetIPsFromPkt ip_GetPortsFromPkt
  by unfold_locales (auto simp: ip_GetIPsFromPkt_def ip_GetPortsFromPkt_def extractor_simps)

text \<open>The contract: packets with a complete header, by the state of their flow.\<close>

locale flow_forwarder =
  fixes send :: "bytes \<Rightarrow> fwd \<Rightarrow> fwd go"
    and flow :: "bytes \<Rightarrow> u16"
    and out :: "bytes \<Rightarrow> bytes"
    and good :: "bytes \<Rightarrow> bool"
  assumes known: "good p \<Longrightarrow> f_conns f (flow p) = Some cn \<Longrightarrow> send p f = Ret (fwd_write cn (out p) f)"
    and fresh: "good p \<Longrightarrow> f_conns f (flow p) = None \<Longrightarrow> send p f = Ret f' \<Longrightarrow>
      \<exists>cn g. f_conns g = (f_conns f)(flow p := Some cn) \<and> f_out g = f_out f \<and> f_dials g = Suc (f_dials f)
        \<and> f' = fwd_write cn (out p) g"
begin

text \<open>All later packets of the flow are written to the connection the first one got, with no further dial.\<close>

lemma one_connection_per_flow:
  assumes "good p" and "f_conns f (flow p) = None" and "send p f = Ret f1"
    and "\<forall>q \<in> set qs. good q \<and> flow q = flow p"
  shows "\<exists>cn f2. f_conns f1 (flow p) = Some cn \<and> foldl (\<lambda>r q. go_bind r (send q)) (Ret f1) qs = Ret f2
    \<and> f_dials f2 = Suc (f_dials f) \<and> f_conns f2 = f_conns f1
    \<and> f_out f2 = f_out f @ (case cn of None \<Rightarrow> [] | Some c \<Rightarrow> map (\<lambda>q. (c, out q)) (p # qs))"
proof -
  obtain cn g where g: "f_conns g = (f_conns f)(flow p := Some cn)" "f_out g = f_out f" "f_dials g = Suc (f_dials f)"
    "f1 = fwd_write cn (out p) g" using fresh [OF assms(1-3)] by blast
  have f1: "f_conns f1 (flow p) = Some cn" "f_dials f1 = Suc (f_dials f)"
    "f_out f1 = f_out f @ (case cn of None \<Rightarrow> [] | Some c \<Rightarrow> [(c, out p)])"
    using g by (auto simp: fwd_write_def split: option.split)
  have "\<exists>f2. foldl (\<lambda>r q. go_bind r (send q)) (Ret h) qs = Ret f2 \<and> f_dials f2 = f_dials h \<and> f_conns f2 = f_conns h
      \<and> f_out f2 = f_out h @ (case cn of None \<Rightarrow> [] | Some c \<Rightarrow> map (\<lambda>q. (c, out q)) qs)"
    if "f_conns h (flow p) = Some cn" for h
    using assms(4) that
  proof (induction qs arbitrary: h)
    case (Cons q qs)
    then have "send q h = Ret (fwd_write cn (out q) h)" using known [of q h cn] by simp
    then show ?case using Cons.IH [of "fwd_write cn (out q) h"] Cons.prems
      by (auto simp: fwd_write_def split: option.splits)
  qed (simp split: option.split)
  from this [OF f1(1)] show ?thesis using f1 by (auto split: option.splits)
qed

end

interpretation container_fwd: flow_forwarder "sendToContainerHelper ck dial" "\<lambda>p. ck (hash_input p)" "\<lambda>p. p" "\<lambda>p. 24 \<le> length p"
  for ck dial
proof unfold_locales
  fix p cn and f :: fwd
  assume p: "24 \<le> length p" and "f_conns f (ck (hash_input p)) = Some cn"
  then show "sendToContainerHelper ck dial p f = Ret (fwd_write cn p f)"
    by (simp add: sendToContainerHelper_def PktCrc16_def udp_fields.crc_by_length)
next
  fix p and f f' :: fwd
  assume p: "24 \<le> length p" "f_conns f (ck (hash_input p)) = None" and s: "sendToContainerHelper ck dial p f = Ret f'"
  then obtain addr port rest where r: "f_cnts f = (addr, port) # rest"
    by (cases "f_cnts f") (auto simp: sendToContainerHelper_def PktCrc16_def udp_fields.crc_by_length)
  with p s show "\<exists>cn g. f_conns g = (f_conns f)(ck (hash_input p) := Some cn) \<and> f_out g = f_out f
      \<and> f_dials g = Suc (f_dials f) \<and> f' = fwd_write cn p g"
    by (intro exI [of _ "dial addr port (f_dials f)"] exI [of _ "f\<lparr>f_cnts := rest, f_dials := Suc (f_dials f),
        f_conns := (f_conns f)(ck (hash_input p) := Some (dial addr port (f_dials f)))\<rparr>"])
      (auto simp: sendToContainerHelper_def PktCrc16_def udp_fields.crc_by_length Let_def)
qed

interpretation eth_fwd: flow_forwarder "eth_sendToIpv2 ck dial addr port" "\<lambda>p. ck (hash_input p)" "\<lambda>p. p" "\<lambda>p. 24 \<le> length p"
  for ck dial addr port
proof unfold_locales
  fix p cn and f :: fwd
  assume "24 \<le> length p" and "f_conns f (ck (hash_input p)) = Some cn"
  then show "eth_sendToIpv2 ck dial addr port p f = Ret (fwd_write cn p f)"
    by (simp add: eth_sendToIpv2_def eth_PktCrc16_def eth_fields.crc_by_length)
next
  fix p and f f' :: fwd
  assume "24 \<le> length p" "f_conns f (ck (hash_input p)) = None" "eth_sendToIpv2 ck dial addr port p f = Ret f'"
  then show "\<exists>cn g. f_conns g = (f_conns f)(ck (hash_input p) := Some cn) \<and> f_out g = f_out f
      \<and> f_dials g = Suc (f_dials f) \<and> f' = fwd_write cn p g"
    by (intro exI [of _ "dial addr port (f_dials f)"] exI [of _ "f\<lparr>f_dials := Suc (f_dials f),
        f_conns := (f_conns f)(ck (hash_input p) := Some (dial addr port (f_dials f)))\<rparr>"])
      (auto simp: eth_sendToIpv2_def eth_PktCrc16_def eth_fields.crc_by_length Let_def split: option.splits)
qed

interpretation ip_fwd: flow_forwarder "ip_sendToIpv2 ck (\<lambda>p. Ret (body p)) dial addr port" "\<lambda>p. ck (hash_input p)" body
    "\<lambda>p. 24 \<le> length p"
  for ck body dial addr port
proof unfold_locales
  fix p cn and f :: fwd
  assume "24 \<le> length p" and "f_conns f (ck (hash_input p)) = Some cn"
  then show "ip_sendToIpv2 ck (\<lambda>p. Ret (body p)) dial addr port p f = Ret (fwd_write cn (body p) f)"
    by (simp add: ip_sendToIpv2_def ip_PktCrc16_def ip_fields.crc_by_length)
next
  fix p and f f' :: fwd
  assume "24 \<le> length p" "f_conns f (ck (hash_input p)) = None"
    "ip_sendToIpv2 ck (\<lambda>p. Ret (body p)) dial addr port p f = Ret f'"
  then show "\<exists>cn g. f_conns g = (f_conns f)(ck (hash_input p) := Some cn) \<and> f_out g = f_out f
      \<and> f_dials g = Suc (f_dials f) \<and> f' = fwd_write cn (body p) g"
    by (intro exI [of _ "dial addr port (f_dials f)"] exI [of _ "f\<lparr>f_dials := Suc (f_dials f),
        f_conns := (f_conns f)(ck (hash_input p) := Some (dial addr port (f_dials f)))\<rparr>"])
      (auto simp: ip_sendToIpv2_def ip_PktCrc16_def ip_fields.crc_by_length Let_def split: option.splits)
qed

section \<open>Properties\<close>

text \<open>
  The three further copies of \<open>PktCrc16\<close> compute the same function as the one of the rule map, on
  every packet, errors and panics included.
\<close>

theorem PktCrc16_copies_agree:
  "tcp_PktCrc16 ChecksumIBM p = PktCrc16 ChecksumIBM p \<and> eth_PktCrc16 ChecksumIBM p = PktCrc16 ChecksumIBM p
   \<and> ip_PktCrc16 ChecksumIBM p = PktCrc16 ChecksumIBM p"
  unfolding tcp_PktCrc16_def eth_PktCrc16_def ip_PktCrc16_def PktCrc16_def
    udp_fields.crc_by_length tcp_fields.crc_by_length eth_fields.crc_by_length ip_fields.crc_by_length
  by simp

text \<open>
  \<open>sendToContainerHelper\<close> opens one connection per flow: after the first packet of a flow, all further
  packets with the same hash are written to the connection that was opened for it, with no further dial;
  if that dial failed, the nil connection is kept and every one of these packets is lost.
\<close>

theorem sendToContainerHelper_one_connection:
  assumes "24 \<le> length p" and "f_conns f (ck (hash_input p)) = None" and "sendToContainerHelper ck dial p f = Ret f1"
    and "\<forall>q \<in> set qs. 24 \<le> length q \<and> ck (hash_input q) = ck (hash_input p)"
  shows "\<exists>cn f2. f_conns f1 (ck (hash_input p)) = Some cn
    \<and> foldl (\<lambda>r q. go_bind r (sendToContainerHelper ck dial q)) (Ret f1) qs = Ret f2
    \<and> f_dials f2 = Suc (f_dials f)
    \<and> f_out f2 = f_out f @ (case cn of None \<Rightarrow> [] | Some c \<Rightarrow> map (\<lambda>q. (c, q)) (p # qs))"
  using container_fwd.one_connection_per_flow [OF assms] by blast

theorem sendToContainerHelper_one_connection_witness:
  "\<exists>f1 f2. sendToContainerHelper (\<lambda>_. 0) (\<lambda>_ _ _. Some 3) (replicate 24 1) \<lparr>f_conns = (\<lambda>_. None), f_out = [], f_dials = 0, f_cnts = [([], 9)]\<rparr> = Ret f1
    \<and> sendToContainerHelper (\<lambda>_. 0) (\<lambda>_ _ _. Some 3) (replicate 24 2) f1 = Ret f2 \<and> f_dials f2 = 1"
proof -
  let ?f = "\<lparr>f_conns = (\<lambda>_. None), f_out = [], f_dials = 0, f_cnts = [([], 9)]\<rparr>"
  obtain f1 where f1: "sendToContainerHelper (\<lambda>_. 0) (\<lambda>_ _ _. Some 3) (replicate 24 1) ?f = Ret f1"
    by (simp add: sendToContainerHelper_def PktCrc16_def udp_fields.crc_by_length Let_def)
  have "\<exists>cn f2. f_conns f1 0 = Some cn \<and>
      foldl (\<lambda>r q. go_bind r (sendToContainerHelper (\<lambda>_. 0) (\<lambda>_ _ _. Some 3) q)) (Ret f1) [replicate 24 2] = Ret f2
      \<and> f_dials f2 = Suc (f_dials ?f)"
    using sendToContainerHelper_one_connection [OF _ _ f1, of "[replicate 24 2]"] by auto
  then show ?thesis using f1 by auto
qed

text \<open>
  The same holds for the forwarder of the \<open>eth2ip\<close> tool, which ends the process when a dial fails:
  every packet of a flow leaves unchanged through the flow's connection.
\<close>

theorem eth_sendToIpv2_one_connection:
  assumes "24 \<le> length p" and "f_conns f (ck (hash_input p)) = None" and "eth_sendToIpv2 ck dial addr port p f = Ret f1"
    and "\<forall>q \<in> set qs. 24 \<le> length q \<and> ck (hash_input q) = ck (hash_input p)"
  shows "\<exists>c f2. dial addr port (f_dials f) = Some c
    \<and> foldl (\<lambda>r q. go_bind r (eth_sendToIpv2 ck dial addr port q)) (Ret f1) qs = Ret f2
    \<and> f_dials f2 = Suc (f_dials f) \<and> f_out f2 = f_out f @ map (\<lambda>q. (c, q)) (p # qs)"
proof -
  obtain cn f2 where f2: "f_conns f1 (ck (hash_input p)) = Some cn"
    "foldl (\<lambda>r q. go_bind r (eth_sendToIpv2 ck dial addr port q)) (Ret f1) qs = Ret f2" "f_dials f2 = Suc (f_dials f)"
    "f_out f2 = f_out f @ (case cn of None \<Rightarrow> [] | Some c \<Rightarrow> map (\<lambda>q. (c, q)) (p # qs))"
    using eth_fwd.one_connection_per_flow [OF assms] by blast
  obtain c where "dial addr port (f_dials f) = Some c" "f_conns f1 (ck (hash_input p)) = Some (Some c)"
    using assms(1-3)
    by (auto simp: eth_sendToIpv2_def eth_PktCrc16_def eth_fields.crc_by_length Let_def fwd_write_def split: option.splits)
  then show ?thesis using f2 by auto
qed

theorem eth_sendToIpv2_one_connection_witness:
  "\<exists>f1 f2. eth_sendToIpv2 (\<lambda>_. 0) (\<lambda>_ _ _. Some 3) [] 9 (replicate 24 1) \<lparr>f_conns = (\<lambda>_. None), f_out = [], f_dials = 0, f_cnts = []\<rparr> = Ret f1
    \<and> eth_sendToIpv2 (\<lambda>_. 0) (\<lambda>_ _ _. Some 3) [] 9 (replicate 24 2) f1 = Ret f2 \<and> f_dials f2 = 1"
proof -
  let ?f = "\<lparr>f_conns = (\<lambda>_. None), f_out = [], f_dials = 0, f_cnts = []\<rparr>"
  obtain f1 where f1: "eth_sendToIpv2 (\<lambda>_. 0) (\<lambda>_ _ _. Some 3) [] 9 (replicate 24 1) ?f = Ret f1"
    by (simp add: eth_sendToIpv2_def eth_PktCrc16_def eth_fields.crc_by_length Let_def)
  have "\<exists>c f2. foldl (\<lambda>r q. go_bind r (eth_sendToIpv2 (\<lambda>_. 0) (\<lambda>_ _ _. Some 3) [] 9 q)) (Ret f1) [replicate 24 2] = Ret f2
      \<and> f_dials f2 = Suc (f_dials ?f)"
    using eth_sendToIpv2_one_connection [OF _ _ f1, of "[replicate 24 2]"] by auto
  then show ?thesis using f1 by auto
qed

end
