(* ===== verification/Openwhisk.thy ===== *)
theory Openwhisk
  imports Nat_Context Go_Strings
begin

text \<open>
  \<open>src/openwhisk/openwhisk.go\<close>: the request that starts a container on OpenWhisk. For the NAT action it
  leases ports first, from the global port mapping of \<open>src/utils/init.go\<close>.

  The HTTP exchange is a parameter: whether the request can be built, and what the server answers. So is
  \<open>nflib.GetStringFromPortSlice\<close> of the package \<open>github.com/NFoSSystem/nflib\<close>.
\<close>

section \<open>Definitions\<close>

datatype http_result = SendError | Response nat bool \<comment> \<open>status, and whether the body can be read\<close>

record 'b ow_state =
  Counter :: u32
  CPMap :: "'b CntPortMapping"
  nextAddr :: ptr \<comment> \<open>the address of the next local \<open>addrPtr\<close>\<close>
  requests :: "(string \<times> string) list" \<comment> \<open>endpoint and body\<close>

definition makeEndpointString :: "string \<Rightarrow> string \<Rightarrow> string" where
  "makeEndpointString hostname actionName =
     ''http://'' @ hostname @ ''/api/v1/namespaces/_/actions/'' @ actionName @ ''?blocking=false''"

definition quoted :: "string \<Rightarrow> string" where
  "quoted s = [CHR 0x22] @ s @ [CHR 0x22]"

text \<open>The common end of the two bodies: the Redis address, the container id and the replica flag.\<close>

definition param_tail :: "string \<Rightarrow> nat \<Rightarrow> u16 \<Rightarrow> string \<Rightarrow> string" where
  "param_tail redisIp redisPort cntId repl =
     quoted ''redisIp'' @ '':'' @ quoted redisIp @ '','' @ quoted ''redisPort'' @ '':'' @ Itoa redisPort @ '', ''
     @ quoted ''cntId'' @ '':'' @ quoted (Itoa (unat cntId)) @ '', '' @ quoted ''repl'' @ '':'' @ quoted repl @ ''}''"

definition param_head :: string where
  "param_head = ''{'' @ quoted ''address'' @ '':'' @ quoted ''172.17.0.1'' @ '', '' @ quoted ''port'' @ '':'' @ quoted ''9082'' @ '', ''"

definition CreateFunction :: "'b bitset_ops \<Rightarrow> (u16 list \<Rightarrow> string) \<Rightarrow> (string \<Rightarrow> bool) \<Rightarrow> (string \<Rightarrow> string \<Rightarrow> http_result) \<Rightarrow>
    string \<Rightarrow> string \<Rightarrow> string \<Rightarrow> nat \<Rightarrow> u16 \<Rightarrow> string \<Rightarrow> 'b ow_state \<Rightarrow> (error option \<times> 'b ow_state) go" where
  "CreateFunction B portString newRequestOk exchange hostname action redisIp redisPort cntId repl st =
     (let endpoint = makeEndpointString hostname action;
          st = st\<lparr>Counter := Counter st + 1, nextAddr := Suc (nextAddr st)\<rparr>;
          addrPtr = nextAddr st - 1;
          paramStr = param_head @ param_tail redisIp redisPort cntId repl;
          (paramStr, st) =
            (if action = ''nat'' then
               let (leasedPorts, cp) = AssignPorts B addrPtr (CPMap st) in
               (param_head @ quoted ''leasedPorts'' @ '':'' @ quoted (portString leasedPorts) @ '', ''
                  @ param_tail redisIp redisPort cntId repl, st\<lparr>CPMap := cp\<rparr>)
             else (paramStr, st))
      in
      if \<not> newRequestOk endpoint then Exit else
      let st = st\<lparr>requests := requests st @ [(endpoint, paramStr)]\<rparr> in
      case exchange endpoint paramStr of
        SendError \<Rightarrow> Ret (Some (''Error sending POST request to '' @ endpoint), st)
      | Response statusCode bodyOk \<Rightarrow>
          if statusCode \<noteq> 200 \<and> statusCode \<noteq> 202 then
            (if \<not> bodyOk then Exit else Ret (Some (''Error StatusCode different by 200: '' @ Itoa statusCode), st))
          else if \<not> bodyOk then Exit
          else Ret (None, st))"

text \<open>A first state, on the port set of the examples.\<close>

definition ow_ex :: "nat list ow_state" where
  "ow_ex = \<lparr>Counter = 0, CPMap = NewCntPortMapping [], nextAddr = 0, requests = []\<rparr>"

section \<open>Lemmas\<close>

text \<open>The state after the call does not depend on the answer.\<close>

lemma CreateFunction_state:
  assumes "CreateFunction B ps ok ex h action rip rport i repl st = Ret (err, st')"
  shows "CPMap st' = (if action = ''nat'' then snd (AssignPorts B (nextAddr st) (CPMap st)) else CPMap st)"
    and "nextAddr st' = Suc (nextAddr st)" and "length (requests st') = Suc (length (requests st))"
proof -
  obtain ports cp where A: "AssignPorts B (nextAddr st) (CPMap st) = (ports, cp)" by (cases "AssignPorts B (nextAddr st) (CPMap st)")
  show "CPMap st' = (if action = ''nat'' then snd (AssignPorts B (nextAddr st) (CPMap st)) else CPMap st)"
    "nextAddr st' = Suc (nextAddr st)" "length (requests st') = Suc (length (requests st))"
    using assms A by (auto simp: CreateFunction_def Let_def split: if_splits http_result.splits)
qed

section \<open>Properties\<close>

text \<open>
  What a call returns depends on the exchange only: no error for the statuses 200 and 202, an error
  value when the request could not be sent or for any other status, and the end of the process when the
  request cannot be built or the body cannot be read.
\<close>

theorem CreateFunction_outcome:
  assumes "endpoint = makeEndpointString h action"
  shows "\<exists>body. case CreateFunction B ps ok ex h action rip rport i repl st of
      Ret (err, st') \<Rightarrow> ok endpoint \<and> requests st' = requests st @ [(endpoint, body)]
        \<and> (err = None \<longleftrightarrow> ex endpoint body \<in> {Response 200 True, Response 202 True})
    | Exit \<Rightarrow> \<not> ok endpoint \<or> (\<exists>code. ex endpoint body = Response code False)
    | _ \<Rightarrow> False"
proof -
  define body where "body = (if action = ''nat'' then param_head @ quoted ''leasedPorts'' @ '':''
      @ quoted (ps (fst (AssignPorts B (nextAddr st) (CPMap st)))) @ '', '' @ param_tail rip rport i repl
    else param_head @ param_tail rip rport i repl)"
  show ?thesis
    by (rule exI [of _ body])
      (cases "ex endpoint body"; auto simp: CreateFunction_def Let_def assms body_def split: prod.splits)
qed

theorem CreateFunction_outcome_witness:
  "\<exists>st'. CreateFunction bits_ex (\<lambda>_. []) (\<lambda>_. True) (\<lambda>_ _. Response 202 True) ''h'' ''dhcp'' ''r'' 6379 1 ''1'' ow_ex = Ret (None, st')
    \<and> (\<exists>body. requests st' = [(makeEndpointString ''h'' ''dhcp'', body)])" (is "\<exists>st'. ?call = _ \<and> _")
proof (cases ?call)
  case (Ret r)
  then show ?thesis
    using CreateFunction_outcome [OF refl, where B = bits_ex and ps = "\<lambda>_. []" and ok = "\<lambda>_. True" and ex = "\<lambda>_ _. Response 202 True"
      and h = "''h''" and action = "''dhcp''" and rip = "''r''" and rport = 6379 and i = 1 and repl = "''1''" and st = ow_ex]
    by (cases r) (auto simp: ow_ex_def)
qed (simp_all add: CreateFunction_def Let_def)

text \<open>
  Starting a NAT container leases its ports before the request is sent and keeps them leased whatever
  the answer is: when the call returns an error, the ports are marked as used and recorded under a pointer
  that no one else has, so nothing can release them.
\<close>

theorem CreateFunction_leaks_ports_on_error:
  assumes "CreateFunction B ps ok ex h ''nat'' rip rport i repl st = Ret (Some err, st')"
    and "bitset_laws B" and "window_fits B 1 (bSet (CPMap st))"
    and "window_fits B 1025 (snd (setHelper B 1 (replicate 100 0) (bSet (CPMap st))))"
    and "leases_ok B (CPMap st)" and "am (CPMap st) (nextAddr st) = None"
  shows "\<exists>res. am (CPMap st') (nextAddr st) = Some res \<and> leases_ok B (CPMap st')
    \<and> (\<forall>p \<in> set res - {0}. \<not> Test B (unat p) (bSet (CPMap st)) \<and> Test B (unat p) (bSet (CPMap st')))"
  using AssignPorts_leases [OF assms(2,5,6,3,4)] CreateFunction_state(1) [OF assms(1)] by auto

theorem CreateFunction_leaks_ports_on_error_witness:
  "\<exists>err st'. CreateFunction bits_ex (\<lambda>_. []) (\<lambda>_. True) (\<lambda>_ _. SendError) ''h'' ''nat'' ''r'' 6379 1 ''1'' ow_ex = Ret (Some err, st')
    \<and> (\<exists>res. am (CPMap st') 0 = Some res)"
proof -
  obtain err st' where C: "CreateFunction bits_ex (\<lambda>_. []) (\<lambda>_. True) (\<lambda>_ _. SendError) ''h'' ''nat'' ''r'' 6379 1 ''1'' ow_ex = Ret (Some err, st')"
    by (cases "AssignPorts bits_ex (nextAddr ow_ex) (CPMap ow_ex)") (simp add: CreateFunction_def Let_def)
  have "\<exists>res. am (CPMap st') (nextAddr ow_ex) = Some res"
    using CreateFunction_leaks_ports_on_error [OF C bits_ex_laws] bits_ex_new by (auto simp: ow_ex_def)
  then show ?thesis using C by (auto simp: ow_ex_def)
qed

end
