(* ===== verification/Gateway.thy ===== *)
theory Gateway
  imports Rule_Map Buffers_Pool Go_Strings
begin

text \<open>
  The edges of the gateway: the arguments of \<open>main\<close> and the frames of a network interface
  (\<open>src/gateway.go\<close>), the start-up of the network functions (\<open>src/initnf\<close>) and the TCP handler
  (\<open>src/tcp/tcp_handler.go\<close>).

  The decoder of Ethernet frames (package \<open>github.com/mdlayher/ethernet\<close>) is the parameter \<open>unmarshal\<close>,
  which gives the payload of a frame; the calls of the database packages are parameters that give their
  errors; what the sockets deliver is an argument.
\<close>

section \<open>Definitions\<close>

subsection \<open>Arguments\<close>

definition is_digit :: "char \<Rightarrow> bool" where
  "is_digit c \<longleftrightarrow> digit_val c \<noteq> None"

text \<open>
  The match of the regular expression \<open>(.*):(\d+)\<close> on one line: the greedy prefix ends at the last
  colon that a digit follows, the second group is the longest run of digits there. The dot does not match
  a line feed, so the leftmost match is on the first line that has one.
\<close>

fun match_line :: "string \<Rightarrow> (string \<times> string) option" where
  "match_line [] = None"
| "match_line (c # cs) =
     (case match_line cs of
        Some (host, port) \<Rightarrow> Some (c # host, port)
      | None \<Rightarrow> if c = CHR '':'' \<and> cs \<noteq> [] \<and> is_digit (hd cs) then Some ([], takeWhile is_digit cs) else None)"

fun first_match :: "string list \<Rightarrow> (string \<times> string) option" where
  "first_match [] = None"
| "first_match (l # ls) = (case match_line l of Some r \<Rightarrow> Some r | None \<Rightarrow> first_match ls)"

definition parseRedisAddressParam :: "string \<Rightarrow> (string \<times> nat) go" where
  "parseRedisAddressParam redisAddress =
     (case first_match (split_at (CHR 0x0A) redisAddress) of
        None \<Rightarrow> Exit
      | Some (host, digits) \<Rightarrow>
          (case parse_below (2 ^ 63) digits of None \<Rightarrow> Exit | Some port \<Rightarrow> Ret (host, port)))"

record gw_args =
  a_hostname :: string
  a_auth :: string
  a_redisIp :: string
  a_redisPort :: nat
  a_ninf :: "string list"

definition main_args :: "string list \<Rightarrow> gw_args go" where
  "main_args args =
     (if length args < 4 then Exit
      else go_bind (parseRedisAddressParam (args ! 2)) (\<lambda>(redisIp, redisPort).
        Ret \<lparr>a_hostname = args ! 0, a_auth = args ! 1, a_redisIp = redisIp, a_redisPort = redisPort, a_ninf = drop 3 args\<rparr>))"

subsection \<open>Frames\<close>

text \<open>
  One round of the loop of \<open>readFromNetworkInterface\<close>: \<open>buff\<close> is the whole buffer after the read,
  \<open>size\<close> the number of bytes read (\<open>None\<close> for an error). The result is the packet that a goroutine of the
  UDP handler is started with, if any.
\<close>

definition frame_step :: "(bytes \<Rightarrow> bytes option) \<Rightarrow> bytes \<Rightarrow> nat option \<Rightarrow> bytes option go" where
  "frame_step unmarshal buff read =
     (case read of
        None \<Rightarrow> Exit
      | Some n \<Rightarrow>
          if n > length buff then Panic SliceOutOfRange else
          (case unmarshal (take n buff) of
             None \<Rightarrow> Exit
           | Some ipBuff \<Rightarrow>
               go_bind (index ipBuff 9) (\<lambda>proto.
               if proto = 17 then
                 go_bind (index buff 23) (\<lambda>b. if b = 67 then Ret (Some buff) else Ret (Some ipBuff))
               else Ret None)))"

subsection \<open>Start-up of the network functions\<close>

text \<open>Each call of the database package gives an error or not; an error ends the process.\<close>

fun fatal_on_error :: "error option list \<Rightarrow> unit go" where
  "fatal_on_error [] = Ret ()"
| "fatal_on_error (err # errs) = (if err \<noteq> None then Exit else fatal_on_error errs)"

definition InitNat :: "error option \<Rightarrow> error option \<Rightarrow> error option \<Rightarrow> unit go" where
  "InitNat cleanUpSets cleanUpFlowSets initBitSets = fatal_on_error [cleanUpSets, cleanUpFlowSets, initBitSets]"

definition InitDhcp :: "error option \<Rightarrow> error option \<Rightarrow> error option \<Rightarrow> error option \<Rightarrow> unit go" where
  "InitDhcp cleanUpAvailableIpRange cleanUpIpMacMapping cleanUpIpSets initAvailableIpRange =
     fatal_on_error [cleanUpAvailableIpRange, cleanUpIpMacMapping, cleanUpIpSets, initAvailableIpRange]"

subsection \<open>The TCP handler\<close>

abbreviation (input) MAX_TCP_PACKET_SIZE :: u16 where "MAX_TCP_PACKET_SIZE \<equiv> 65535"

text \<open>
  One round: a buffer is taken, filled by the read (\<open>None\<close> for an error), its whole content sent on
  \<open>pktChan\<close> and the buffer released. The flag says that the loop goes on.
\<close>

definition tcp_round :: "bytes option \<Rightarrow> BuffersPool \<times> bytes list \<Rightarrow> (bool \<times> BuffersPool \<times> bytes list) go" where
  "tcp_round read st = (case st of (bp, pktChan) \<Rightarrow>
     go_bind (Next_buffer bp) (\<lambda>(b, bp).
     case read of
       None \<Rightarrow> go_bind (Release b bp) (\<lambda>bp. Ret (False, bp, pktChan))
     | Some data \<Rightarrow>
         let buff = go_copy (bp_buff bp b) data;
             bp = bp\<lparr>bp_buff := (bp_buff bp)(b := buff)\<rparr>;
             pktChan = pktChan @ [buff] in
         go_bind (Release b bp) (\<lambda>bp.
         go_bind (tcp_GetPortsFromPkt buff) (\<lambda>_.
         go_bind (tcp_GetIPsFromPkt buff) (\<lambda>_.
         Ret (True, bp, pktChan))))))"

fun tcp_loop :: "bytes option list \<Rightarrow> BuffersPool \<times> bytes list \<Rightarrow> (BuffersPool \<times> bytes list) go" where
  "tcp_loop [] st = Ret st"
| "tcp_loop (r # rs) st = go_bind (tcp_round r st) (\<lambda>(go_on, st). if go_on then tcp_loop rs st else Ret st)"

definition tcp_HandleIncomingRequestsFromIPv4 :: "bytes option list \<Rightarrow> (BuffersPool \<times> bytes list) go" where
  "tcp_HandleIncomingRequestsFromIPv4 reads =
     go_bind (NewBuffersPool MAX_TCP_PACKET_SIZE 5) (\<lambda>bp. tcp_loop reads (bp, []))"

section \<open>Lemmas\<close>

lemma is_digit_Itoa: "c \<in> set (Itoa n) \<Longrightarrow> is_digit c"
  using Itoa_digit by (simp add: is_digit_def)

lemma colon_no_digit [simp]: "\<not> is_digit (CHR '':'')"
  unfolding is_digit_def by code_simp

lemma match_line_none: "CHR '':'' \<notin> set l \<Longrightarrow> match_line l = None"
  by (induction l) auto

lemma match_line_host:
  "match_line rest = Some (h, d) \<Longrightarrow> match_line (host @ rest) = Some (host @ h, d)"
  by (induction host) auto

lemma match_line_Itoa: "match_line (host @ '':'' @ Itoa port) = Some (host, Itoa port)"
proof -
  have "CHR '':'' \<notin> set (Itoa port)" using is_digit_Itoa by fastforce
  then have none: "match_line (Itoa port) = None" by (rule match_line_none)
  have "is_digit (hd (Itoa port))" by (rule is_digit_Itoa [of _ port]) simp
  moreover have "takeWhile is_digit (Itoa port) = Itoa port"
    using is_digit_Itoa by (auto simp: takeWhile_eq_all_conv)
  ultimately have "match_line ('':'' @ Itoa port) = Some ([], Itoa port)" using none by simp
  from match_line_host [OF this, of host] show ?thesis by simp
qed

text \<open>The state of the TCP handler's pool after \<open>k\<close> rounds: it was given no buffer back.\<close>

definition tcp_pool :: "nat \<Rightarrow> BuffersPool \<Rightarrow> bool" where
  "tcp_pool k bp \<longleftrightarrow> k \<le> 5 \<and> bp_pool bp = [k..<5] \<and> length (bp_cleanChan bp) = k \<and> bp_cap bp = 5
     \<and> (\<forall>b < 5. length (bp_buff bp b) = 65535)"

lemma tcp_pool_new: "\<exists>bp. NewBuffersPool MAX_TCP_PACKET_SIZE 5 = Ret bp \<and> tcp_pool 0 bp"
  by (simp add: NewBuffersPool_eq tcp_pool_def)

lemma tcp_fields_long:
  assumes "24 \<le> length p"
  shows "\<exists>r. tcp_GetPortsFromPkt p = Ret r" and "\<exists>r. tcp_GetIPsFromPkt p = Ret r"
  using assms tcp_fields.ports_ok [of p] tcp_fields.IPs_ok [of p] by auto

lemma tcp_round_ok:
  assumes "tcp_pool k bp" and "k < 5"
  shows "\<exists>bp' buff. tcp_round (Some data) (bp, out) = Ret (True, bp', out @ [buff]) \<and> tcp_pool (Suc k) bp'
    \<and> length buff = 65535"
proof -
  have pool: "bp_pool bp = k # [Suc k..<5]" using assms by (simp add: tcp_pool_def upt_conv_Cons)
  have cc: "length (bp_cleanChan bp) < bp_cap bp" using assms by (simp add: tcp_pool_def)
  define buff where "buff = go_copy (bp_buff bp k) data"
  have len: "length buff = 65535" using assms by (simp add: tcp_pool_def buff_def)
  obtain r1 r2 where r: "tcp_GetPortsFromPkt buff = Ret r1" "tcp_GetIPsFromPkt buff = Ret r2"
    using tcp_fields_long [of buff] len by auto
  let ?bp = "bp\<lparr>bp_pool := [Suc k..<5], bp_buff := (bp_buff bp)(k := buff), bp_cleanChan := bp_cleanChan bp @ [k]\<rparr>"
  have "tcp_round (Some data) (bp, out) = Ret (True, ?bp, out @ [buff])"
    using cc pool r by (simp add: tcp_round_def pool_ops Let_def buff_def [symmetric] chan_send_def)
  moreover have "tcp_pool (Suc k) ?bp" using assms len by (auto simp: tcp_pool_def)
  ultimately show ?thesis using len by blast
qed

lemma tcp_loop_rounds:
  assumes "tcp_pool k bp"
  shows "tcp_loop (map Some datas) (bp, out) = Block \<or>
    (\<exists>bp' out'. tcp_loop (map Some datas) (bp, out) = Ret (bp', out @ out') \<and> length out' = length datas
      \<and> (\<forall>p \<in> set out'. length p = 65535))"
    and "tcp_loop (map Some datas) (bp, out) = Block \<longleftrightarrow> 5 < k + length datas"
proof -
  have "(tcp_loop (map Some datas) (bp, out) = Block \<or>
    (\<exists>bp' out'. tcp_loop (map Some datas) (bp, out) = Ret (bp', out @ out') \<and> length out' = length datas
      \<and> (\<forall>p \<in> set out'. length p = 65535)))
    \<and> (tcp_loop (map Some datas) (bp, out) = Block \<longleftrightarrow> 5 < k + length datas)"
    using assms
  proof (induction datas arbitrary: k bp out)
    case Nil
    then show ?case by (auto simp: tcp_pool_def)
  next
    case (Cons d ds)
    show ?case
    proof (cases "k < 5")
      case True
      obtain bp' buff where step: "tcp_round (Some d) (bp, out) = Ret (True, bp', out @ [buff])" "tcp_pool (Suc k) bp'"
        "length buff = 65535" using tcp_round_ok [OF Cons.prems True] by blast
      then have eq: "tcp_loop (map Some (d # ds)) (bp, out) = tcp_loop (map Some ds) (bp', out @ [buff])" by simp
      show ?thesis unfolding eq using Cons.IH [OF step(2), of "out @ [buff]"] step(3) by auto
    next
      case False
      then have "k = 5" "bp_pool bp = []" using Cons.prems by (auto simp: tcp_pool_def)
      then show ?thesis by (simp add: tcp_round_def pool_ops)
    qed
  qed
  then show "tcp_loop (map Some datas) (bp, out) = Block \<or>
    (\<exists>bp' out'. tcp_loop (map Some datas) (bp, out) = Ret (bp', out @ out') \<and> length out' = length datas
      \<and> (\<forall>p \<in> set out'. length p = 65535))"
    "tcp_loop (map Some datas) (bp, out) = Block \<longleftrightarrow> 5 < k + length datas" by auto
qed

section \<open>Properties\<close>

text \<open>
  The Redis address is read back from every pair of a host and a port that the command line can
  express: the last colon separates them, so that hosts with colons (IPv6 addresses) are accepted.
\<close>

theorem redis_address_roundtrip:
  assumes "CHR 0x0A \<notin> set host" and "port < 2 ^ 63"
  shows "parseRedisAddressParam (host @ '':'' @ Itoa port) = Ret (host, port)"
proof -
  have "\<not> is_digit (CHR 0x0A)" unfolding is_digit_def by code_simp
  then have "CHR 0x0A \<notin> set (Itoa port)" using is_digit_Itoa by blast
  then have "split_at (CHR 0x0A) (host @ '':'' @ Itoa port) = [host @ '':'' @ Itoa port]"
    using assms(1) by (intro split_at_word) auto
  then show ?thesis
    using match_line_Itoa [of host port] assms(2) by (simp add: parseRedisAddressParam_def)
qed

theorem redis_address_roundtrip_witness:
  "parseRedisAddressParam (''::1'' @ '':'' @ Itoa 6379) = Ret (''::1'', 6379)"
  by (rule redis_address_roundtrip) simp_all

text \<open>
  On frames without VLAN tags the gateway hands exactly the UDP packets to the handler, and always the
  IP packet: the byte that the code compares with the DHCP port 67 is the protocol byte itself, which is
  17 there, so the branch that would hand over the whole frame is never taken.
\<close>

theorem frame_dispatch:
  assumes "unmarshal (take n buff) = Some (drop 14 (take n buff))" and "24 \<le> n" and "n \<le> length buff"
  shows "frame_step unmarshal buff (Some n) =
    Ret (if buff ! 23 = 17 then Some (drop 14 (take n buff)) else None)"
  using assms by (simp add: frame_step_def index_def)

theorem frame_dispatch_witness:
  "frame_step (\<lambda>f. Some (drop 14 f)) (replicate 23 0 @ [17] @ replicate 20 0) (Some 44) =
    Ret (Some (replicate 9 0 @ [17] @ replicate 20 0))"
  using frame_dispatch [of "\<lambda>f. Some (drop 14 f)" 44 "replicate 23 0 @ [17] @ replicate 20 0"]
  by (simp add: nth_append)



end
