(* ===== verification/Flow_Threads.thy ===== *)
theory Flow_Threads
  imports Crc2Conn
begin

text \<open>
  The interleavings inside \<open>Crc2ConnMap.Get\<close>, \<open>ConnPoolElem.Delete\<close> and the expiry goroutines
  (\<open>src/utils/rulemap.go\<close>). In \<open>Crc2Conn\<close> a call is one step; here it is a thread that stops between
  its critical sections, so that the sections of concurrent calls mix in any order. A section is what the
  code does while it holds one mutex, or between two of them.

  Run alone, a thread does exactly what the call of \<open>Crc2Conn\<close> does. In every interleaving without
  overlapping deletions of one element the list of the pool stays intact and a lookup that returns has a
  semaphore; but a lookup may pick an element whose
  deletion then ends before it is used.
\<close>

section \<open>Definitions\<close>

subsection \<open>Threads\<close>

text \<open>
  Where a call stands, with the local variables it needs from there on. The constructors follow the
  sections of the source, in their order.
\<close>

datatype thread =
    GetRead u16
  | GetTouch u16 "conn option option" "ptr option option" "nat option"
  | GetCheck u16 "conn option option" "ptr option option" "nat option"
  | GetNext u16
  | GetAddCrc u16 ptr
  | GetStore u16 ptr
  | GetStart u16 ptr nat
  | GetDone "conn option" "nat option"
  | DelUnlink ptr
  | DelClose ptr
  | DelCheck ptr
  | DelTerminate ptr
  | DelClear ptr
  | DelNext ptr
  | DelMove ptr ptr
  | DelAdopt ptr ptr
  | DelSignal ptr
  | DelDone
  | TickRead flux_timer
  | TickDecide flux_timer "int option"
  | TickForget flux_timer
  | TickDone bool

text \<open>The sections of \<open>Get\<close>: the two short ones on the map, the check, and the slow path.\<close>

definition get_section :: "int \<Rightarrow> thread \<Rightarrow> Crc2ConnMap \<Rightarrow> (thread \<times> Crc2ConnMap) go" where
  "get_section now th s =
     (case th of
        GetRead crc \<Rightarrow> Ret (GetTouch crc (crc2conn s crc) (crcContainer s crc) (crc2lock s crc), s)
      | GetTouch crc val container lock \<Rightarrow>
          Ret (GetCheck crc val container lock, s\<lparr>crcFluxUsageMap := (crcFluxUsageMap s)(crc := Some now)\<rparr>)
      | GetCheck crc val container lock \<Rightarrow>
          go_bind (Get_hit val container s) (\<lambda>hit.
          Ret (if hit then GetDone (case val of Some cn \<Rightarrow> cn | None \<Rightarrow> None) lock else GetNext crc, s))
      | GetNext crc \<Rightarrow> go_bind (ConnPool_Next (connPool s)) (\<lambda>(cpe, cp). Ret (GetAddCrc crc cpe, s\<lparr>connPool := cp\<rparr>))
      | GetAddCrc crc cpe \<Rightarrow> Ret (GetStore crc cpe, s\<lparr>connPool := AddCrc crc cpe (connPool s)\<rparr>)
      | GetStore crc cpe \<Rightarrow>
          (let elem = elems (connPool s) cpe; sem = nextSem s in
           Ret (GetStart crc cpe sem,
             s\<lparr>crc2conn := (crc2conn s)(crc := Some (e_conn elem)),
               nextSem := Suc sem,
               crc2lock := (crc2lock s)(crc := Some sem),
               crcContainer := (crcContainer s)(crc := Some (e_container elem))\<rparr>))
      | GetStart crc cpe sem \<Rightarrow>
          (let elem = elems (connPool s) cpe in
           go_bind (deref (e_container elem)) (\<lambda>c.
           let s = upd_container c IncFluxes s;
               s = s\<lparr>timers := timers s @ [\<lparr>ft_crc = crc, ft_elem = cpe, ft_timeout = fluxMaxAge s, ft_from = None\<rparr>]\<rparr>
           in Ret (GetDone (e_conn elem) (Some sem), s)))
      | _ \<Rightarrow> Ret (th, s))"

text \<open>The sections of \<open>Delete\<close>.\<close>

definition del_section :: "(u16 list \<Rightarrow> u16 list) \<Rightarrow> thread \<Rightarrow> Crc2ConnMap \<Rightarrow> (thread \<times> Crc2ConnMap) go" where
  "del_section rng th s =
     (case th of
        DelUnlink ce \<Rightarrow>
          (case Delete_unlink ce (connPool s) of
             (True, cp) \<Rightarrow> Ret (DelDone, s\<lparr>connPool := cp\<rparr>)
           | (False, cp) \<Rightarrow> Ret (DelClose ce, s\<lparr>connPool := cp\<rparr>))
      | DelClose ce \<Rightarrow> go_bind (Delete_close ce (connPool s)) (\<lambda>cp. Ret (DelCheck ce, s\<lparr>connPool := cp\<rparr>))
      | DelCheck ce \<Rightarrow> Ret (if e_ports (elems (connPool s) ce) = [] then DelTerminate ce else DelNext ce, s)
      | DelTerminate ce \<Rightarrow>
          (let elem = elems (connPool s) ce in
           go_bind (deref (e_container elem)) (\<lambda>_. Ret (DelClear ce, sendTerminationSignal (e_conn elem) s)))
      | DelClear ce \<Rightarrow> Ret (DelDone, s\<lparr>connPool := upd_elem ce (\<lambda>e. e\<lparr>e_container := None\<rparr>) (connPool s)\<rparr>)
      | DelNext ce \<Rightarrow> go_bind (ConnPool_Next (connPool s)) (\<lambda>(rCe, cp). Ret (DelMove ce rCe, s\<lparr>connPool := cp\<rparr>))
      | DelMove ce rCe \<Rightarrow>
          (if \<not> e_crc2ConnMap (elems (connPool s) ce) then Panic NilDereference else
           go_bind (Delete_move ce rCe (rng (e_ports (elems (connPool s) ce))) s) (\<lambda>s. Ret (DelAdopt ce rCe, s)))
      | DelAdopt ce rCe \<Rightarrow>
          Ret (DelSignal ce, s\<lparr>connPool :=
            fold (\<lambda>key. AddCrc key rCe) (rng (e_ports (elems (connPool s) ce))) (connPool s)\<rparr>)
      | DelSignal ce \<Rightarrow>
          (let elem = elems (connPool s) ce in
           go_bind (deref (e_container elem)) (\<lambda>_. Ret (DelDone, sendTerminationSignal (e_conn elem) s)))
      | _ \<Rightarrow> Ret (th, s))"

text \<open>
  The sections of one tick of an expiry goroutine; the flag of \<open>TickDone\<close> says that the goroutine ends.
\<close>

definition tick_section :: "int \<Rightarrow> thread \<Rightarrow> Crc2ConnMap \<Rightarrow> (thread \<times> Crc2ConnMap) go" where
  "tick_section now th s =
     (case th of
        TickRead t \<Rightarrow>
          (if (case ft_from t of Some ce \<Rightarrow> \<not> e_crc2ConnMap (elems (connPool s) ce) | None \<Rightarrow> False)
           then Panic NilDereference
           else Ret (TickDecide t (crcFluxUsageMap s (ft_crc t)), s))
      | TickDecide t timestamp \<Rightarrow>
          (case timestamp of
             None \<Rightarrow> Ret (TickDone False, s)
           | Some timestamp \<Rightarrow>
               if now - timestamp > ft_timeout t then
                 go_bind (deref (e_container (elems (connPool s) (ft_elem t)))) (\<lambda>c.
                 Ret (TickForget t, upd_container c DecFluxes s))
               else Ret (TickDone False, s))
      | TickForget t \<Rightarrow>
          (if (case ft_from t of Some ce \<Rightarrow> \<not> e_crc2ConnMap (elems (connPool s) ce) | None \<Rightarrow> False)
           then Panic NilDereference
           else let s = s\<lparr>crc2conn := (crc2conn s)(ft_crc t := None)\<rparr>;
                    s = (if ft_from t \<noteq> None then s else s\<lparr>crcContainer := (crcContainer s)(ft_crc t := None)\<rparr>)
                in Ret (TickDone True, s))
      | _ \<Rightarrow> Ret (th, s))"

fun is_get :: "thread \<Rightarrow> bool" where
  "is_get (GetRead _) = True" | "is_get (GetTouch _ _ _ _) = True" | "is_get (GetCheck _ _ _ _) = True"
| "is_get (GetNext _) = True" | "is_get (GetAddCrc _ _) = True" | "is_get (GetStore _ _) = True"
| "is_get (GetStart _ _ _) = True" | "is_get (GetDone _ _) = True" | "is_get _ = False"

fun is_tick :: "thread \<Rightarrow> bool" where
  "is_tick (TickRead _) = True" | "is_tick (TickDecide _ _) = True" | "is_tick (TickForget _) = True"
| "is_tick (TickDone _) = True" | "is_tick _ = False"

definition thread_section :: "(u16 list \<Rightarrow> u16 list) \<Rightarrow> int \<Rightarrow> thread \<Rightarrow> Crc2ConnMap \<Rightarrow> (thread \<times> Crc2ConnMap) go" where
  "thread_section rng now th s =
     (if is_get th then get_section now th s else if is_tick th then tick_section now th s else del_section rng th s)"

text \<open>A thread that runs alone for \<open>n\<close> sections.\<close>

fun solo :: "(u16 list \<Rightarrow> u16 list) \<Rightarrow> int \<Rightarrow> nat \<Rightarrow> thread \<Rightarrow> Crc2ConnMap \<Rightarrow> (thread \<times> Crc2ConnMap) go" where
  "solo rng now 0 th s = Ret (th, s)"
| "solo rng now (Suc n) th s = go_bind (thread_section rng now th s) (\<lambda>(th, s). solo rng now n th s)"

subsection \<open>The system\<close>

text \<open>The element that a call of \<open>Delete\<close> under way works on.\<close>

fun del_of :: "thread \<Rightarrow> ptr option" where
  "del_of (DelUnlink ce) = Some ce" | "del_of (DelClose ce) = Some ce" | "del_of (DelCheck ce) = Some ce"
| "del_of (DelTerminate ce) = Some ce" | "del_of (DelClear ce) = Some ce" | "del_of (DelNext ce) = Some ce"
| "del_of (DelMove ce _) = Some ce" | "del_of (DelAdopt ce _) = Some ce" | "del_of (DelSignal ce) = Some ce"
| "del_of _ = None"

record sys =
  sys_map :: Crc2ConnMap
  sys_threads :: "thread list"

text \<open>
  What can happen next: a container registers; a packet or a deletion starts a call; the ticker of an
  expiry goroutine fires or its element is closed; a thread runs its next section. Deletions of one element
  do not overlap, and the only member of the pool is not deleted.
\<close>

datatype action =
    ARegister "conn option" Container
  | AGet u16
  | ADelete ptr
  | ATick flux_timer
  | AStop flux_timer
  | ARun nat int

text \<open>A goroutine whose flow is still in use waits for its next tick.\<close>

fun rearm :: "thread \<Rightarrow> thread \<Rightarrow> Crc2ConnMap \<Rightarrow> Crc2ConnMap" where
  "rearm (TickDecide t _) (TickDone False) s = s\<lparr>timers := timers s @ [t]\<rparr>"
| "rearm _ _ s = s"

definition last_member :: "thread \<Rightarrow> Crc2ConnMap \<Rightarrow> bool" where
  "last_member th s \<longleftrightarrow> (case th of DelUnlink ce \<Rightarrow> e_next (elems (connPool s) ce) = Some ce | _ \<Rightarrow> False)"

fun exec :: "(u16 list \<Rightarrow> u16 list) \<Rightarrow> action \<Rightarrow> sys \<Rightarrow> sys go" where
  "exec rng (ARegister conn cnt) y = go_bind (register conn cnt (sys_map y)) (\<lambda>(_, s). Ret (y\<lparr>sys_map := s\<rparr>))"
| "exec rng (AGet crc) y = Ret (y\<lparr>sys_threads := sys_threads y @ [GetRead crc]\<rparr>)"
| "exec rng (ADelete ce) y =
     (if ce < nextElem (connPool (sys_map y)) \<and> (\<forall>th \<in> set (sys_threads y). del_of th \<noteq> Some ce)
      then Ret (y\<lparr>sys_threads := sys_threads y @ [DelUnlink ce]\<rparr>) else Block)"
| "exec rng (ATick t) y =
     (if t \<in> set (timers (sys_map y))
      then Ret (y\<lparr>sys_map := (sys_map y)\<lparr>timers := remove1 t (timers (sys_map y))\<rparr>, sys_threads := sys_threads y @ [TickRead t]\<rparr>)
      else Block)"
| "exec rng (AStop t) y =
     (if t \<in> set (timers (sys_map y)) \<and> flux_stopped t (sys_map y)
      then Ret (y\<lparr>sys_map := (sys_map y)\<lparr>timers := remove1 t (timers (sys_map y))\<rparr>\<rparr>) else Block)"
| "exec rng (ARun i now) y =
     (if i < length (sys_threads y) \<and> \<not> last_member (sys_threads y ! i) (sys_map y)
      then go_bind (thread_section rng now (sys_threads y ! i) (sys_map y)) (\<lambda>(th, s).
           Ret \<lparr>sys_map = rearm (sys_threads y ! i) th s, sys_threads = (sys_threads y)[i := th]\<rparr>)
      else Block)"

fun exec_all :: "(u16 list \<Rightarrow> u16 list) \<Rightarrow> action list \<Rightarrow> sys \<Rightarrow> sys go" where
  "exec_all rng [] y = Ret y"
| "exec_all rng (a # as) y = go_bind (exec rng a y) (exec_all rng as)"

definition NewSys :: "int \<Rightarrow> sys" where
  "NewSys maxAge = \<lparr>sys_map = NewCrc2ConnMap maxAge, sys_threads = []\<rparr>"

inductive sys_reachable :: "(u16 list \<Rightarrow> u16 list) \<Rightarrow> int \<Rightarrow> sys \<Rightarrow> bool" for rng maxAge where
  sys_init: "sys_reachable rng maxAge (NewSys maxAge)"
| sys_next: "sys_reachable rng maxAge y \<Longrightarrow> exec rng a y = Ret y' \<Longrightarrow> sys_reachable rng maxAge y'"

subsection \<open>Invariant\<close>

text \<open>
  Between its first two sections \<open>Delete\<close> leaves its element out of the list with its links still set.
  \<open>settle\<close> finishes the second section for all such elements: what remains is a ring.
\<close>

definition closing :: "thread list \<Rightarrow> ptr set" where
  "closing ths = {ce. DelClose ce \<in> set ths}"

definition settle :: "ptr set \<Rightarrow> ConnPool \<Rightarrow> ConnPool" where
  "settle Z cp = cp\<lparr>elems := (\<lambda>x. if x \<in> Z then (elems cp x)\<lparr>e_stopped := True, e_next := None, e_prev := None\<rparr> else elems cp x)\<rparr>"

definition pool_ok :: "ptr set \<Rightarrow> ConnPool \<Rightarrow> ptr list \<Rightarrow> bool" where
  "pool_ok Z cp xs \<longleftrightarrow> ring (settle Z cp) xs \<and> (\<forall>ce \<in> Z. ce < nextElem cp \<and> \<not> e_stopped (elems cp ce))
     \<and> (xs = [] \<longrightarrow> currElem cp = None)"

text \<open>What a lookup under way knows of its semaphore.\<close>

fun lock_ok :: "thread \<Rightarrow> bool" where
  "lock_ok (GetTouch _ _ container lock) = (container \<noteq> None \<longrightarrow> lock \<noteq> None)"
| "lock_ok (GetCheck _ _ container lock) = (container \<noteq> None \<longrightarrow> lock \<noteq> None)"
| "lock_ok (GetDone _ lock) = (lock \<noteq> None)"
| "lock_ok _ = True"

definition sys_inv :: "sys \<Rightarrow> ptr list \<Rightarrow> bool" where
  "sys_inv y xs \<longleftrightarrow> pool_ok (closing (sys_threads y)) (connPool (sys_map y)) xs
     \<and> (\<forall>i < length (sys_threads y). \<forall>j < length (sys_threads y).
          del_of (sys_threads y ! i) \<noteq> None \<longrightarrow> del_of (sys_threads y ! i) = del_of (sys_threads y ! j) \<longrightarrow> i = j)
     \<and> (\<forall>th \<in> set (sys_threads y). \<forall>ce. del_of th = Some ce \<longrightarrow> ce < nextElem (connPool (sys_map y)))
     \<and> (\<forall>crc. crcContainer (sys_map y) crc \<noteq> None \<longrightarrow> crc2lock (sys_map y) crc \<noteq> None)
     \<and> (\<forall>th \<in> set (sys_threads y). lock_ok th)"

section \<open>Lemmas\<close>

lemmas sections = thread_section_def get_section_def del_section_def tick_section_def

subsection \<open>A thread alone\<close>

lemma Delete_move_connPool: "Delete_move ce r ps s = Ret s' \<Longrightarrow> connPool s' = connPool s"
  by (induction ps arbitrary: s) (auto simp: Let_def)

lemma Delete_move_cases:
  "(\<exists>s'. Delete_move ce r ps s = Ret s' \<and> connPool s' = connPool s) \<or> (\<exists>x. Delete_move ce r ps s = Panic x)"
proof (induction ps arbitrary: s)
  case (Cons p ps)
  show ?case
  proof (cases "e_container (elems (connPool s) r)")
    case (Some c)
    define s1 where "s1 = upd_container c IncFluxes (s\<lparr>crc2conn := (crc2conn s)(p := Some (e_conn (elems (connPool s) r)))\<rparr>)"
    have "connPool s1 = connPool s" by (simp add: s1_def)
    then show ?thesis
      using Cons.IH [of "s1\<lparr>timers := timers s1 @ [\<lparr>ft_crc = p, ft_elem = r, ft_timeout = 500000, ft_from = Some ce\<rparr>]\<rparr>"] Some
      by (simp add: Let_def s1_def)
  qed (simp add: Let_def)
qed simp

lemma solo_get: "solo rng now 7 (GetRead crc) s = go_bind (Get crc now s) (\<lambda>((cn, lk), s'). Ret (GetDone cn lk, s'))"
proof -
  define s1 where "s1 = s\<lparr>crcFluxUsageMap := (crcFluxUsageMap s)(crc := Some now)\<rparr>"
  have *: "solo rng now 4 (GetNext crc) s1 = go_bind (Get_miss crc s1) (\<lambda>((cn, lk), s'). Ret (GetDone cn lk, s'))"
    by (cases "currElem (connPool s1)")
      (auto simp: numeral_eq_Suc sections Get_miss_def ConnPool_Next_def Let_def deref_def split: option.splits)
  have "solo rng now 7 (GetRead crc) s =
      go_bind (Get_hit (crc2conn s crc) (crcContainer s crc) s1) (\<lambda>hit.
        if hit then Ret (GetDone (case crc2conn s crc of Some cn \<Rightarrow> cn | None \<Rightarrow> None) (crc2lock s crc), s1)
        else solo rng now 4 (GetNext crc) s1)"
    by (cases "Get_hit (crc2conn s crc) (crcContainer s crc) s1") (simp_all add: numeral_eq_Suc sections s1_def)
  also have "\<dots> = go_bind (Get crc now s) (\<lambda>((cn, lk), s'). Ret (GetDone cn lk, s'))"
    unfolding * by (cases "Get_hit (crc2conn s crc) (crcContainer s crc) s1") (simp_all add: Get_def Let_def s1_def)
  finally show ?thesis .
qed

lemma solo_moving:
  "solo rng now 3 (DelMove ce r) s =
    (if \<not> e_crc2ConnMap (elems (connPool s) ce) then Panic NilDereference else
     go_bind (Delete_move ce r (rng (e_ports (elems (connPool s) ce))) s) (\<lambda>s'.
     go_bind (deref (e_container (elems (connPool s) ce))) (\<lambda>_.
     Ret (DelDone, sendTerminationSignal (e_conn (elems (connPool s) ce))
       (s'\<lparr>connPool := fold (\<lambda>key. AddCrc key r) (rng (e_ports (elems (connPool s) ce))) (connPool s')\<rparr>)))))"
  using Delete_move_cases [of ce r "rng (e_ports (elems (connPool s) ce))" s]
  by (auto simp: numeral_eq_Suc sections fold_AddCrc Let_def)

lemma solo_del: "solo rng now 7 (DelUnlink ce) s = go_bind (Delete rng ce s) (\<lambda>s'. Ret (DelDone, s'))"
proof (cases "Delete_unlink ce (connPool s)")
  case (Pair gone cp)
  show ?thesis
  proof (cases "gone \<or> \<not> returns (Delete_close ce cp)")
    case True
    then show ?thesis
      by (cases gone; cases "Delete_close ce cp") (simp_all add: Pair numeral_eq_Suc sections Delete_def)
  next
    case False
    then obtain cp1 where cp1: "Delete_close ce cp = Ret cp1" by (auto simp: returns_iff)
    let ?s = "s\<lparr>connPool := cp1\<rparr>" and ?ps = "e_ports (elems cp1 ce)"
    have two: "solo rng now 7 (DelUnlink ce) s = solo rng now 4 (if ?ps = [] then DelTerminate ce else DelNext ce) ?s"
      using False Pair cp1 by (simp add: numeral_eq_Suc sections)
    show ?thesis
    proof (cases "?ps = []")
      case True
      then show ?thesis using False Pair cp1 two
        by (cases "e_container (elems cp1 ce)") (auto simp: numeral_eq_Suc sections Delete_def Let_def)
    next
      case ps: False
      show ?thesis
      proof (cases "ConnPool_Next cp1")
        case (Ret x)
        obtain r cp2 where x: "x = (r, cp2)" by (cases x)
        have e: "elems cp2 = elems cp1" using Ret x by (auto simp: ConnPool_Next_def)
        have "solo rng now 7 (DelUnlink ce) s = solo rng now 3 (DelMove ce r) (s\<lparr>connPool := cp2\<rparr>)"
          unfolding two using ps Ret x by (simp add: numeral_eq_Suc sections)
        then show ?thesis using False Pair cp1 ps Ret x e
          by (simp add: solo_moving Delete_def Let_def)
      qed (use False Pair cp1 two ps in \<open>simp_all add: numeral_eq_Suc sections Delete_def Let_def\<close>)
    qed
  qed
qed

lemma solo_tick: "solo rng now 3 (TickRead t) s = go_bind (flux_tick now t s) (\<lambda>(ended, s'). Ret (TickDone ended, s'))"
proof (cases "case ft_from t of Some ce \<Rightarrow> \<not> e_crc2ConnMap (elems (connPool s) ce) | None \<Rightarrow> False")
  case False
  then show ?thesis
    by (cases "crcFluxUsageMap s (ft_crc t)"; cases "e_container (elems (connPool s) (ft_elem t))")
      (auto simp: numeral_eq_Suc sections flux_tick_def Let_def split: option.splits)
qed (simp add: numeral_eq_Suc sections flux_tick_def)

subsection \<open>The list between the sections of a deletion\<close>

lemma settle_simps [simp]:
  "currElem (settle Z cp) = currElem cp" "headElem (settle Z cp) = headElem cp" "tailElem (settle Z cp) = tailElem cp"
  "nextElem (settle Z cp) = nextElem cp"
  "x \<notin> Z \<Longrightarrow> elems (settle Z cp) x = elems cp x"
  "x \<in> Z \<Longrightarrow> elems (settle Z cp) x = (elems cp x)\<lparr>e_stopped := True, e_next := None, e_prev := None\<rparr>"
  by (simp_all add: settle_def)

lemma pool_ok_member:
  assumes "pool_ok Z cp xs" and "x \<in> set xs"
  shows "x \<notin> Z" and "x < nextElem cp"
  using assms by (auto simp: pool_ok_def ring_def settle_def split: if_splits)

lemma pool_ok_Next:
  assumes "pool_ok Z cp xs"
  shows "ConnPool_Next cp = (if xs = [] then Panic NilDereference else ConnPool_Next cp)"
    and "xs \<noteq> [] \<Longrightarrow> \<exists>e cp'. ConnPool_Next cp = Ret (e, cp') \<and> e \<in> set xs \<and> pool_ok Z cp' xs
      \<and> nextElem cp' = nextElem cp \<and> elems cp' = elems cp"
proof -
  show "ConnPool_Next cp = (if xs = [] then Panic NilDereference else ConnPool_Next cp)"
    using assms by (simp add: pool_ok_def ConnPool_Next_def)
  assume ne: "xs \<noteq> []"
  then obtain k where k: "ring_at (settle Z cp) xs k" using assms ring_at_ex [of "settle Z cp" xs] by (auto simp: pool_ok_def)
  then have mem: "xs ! k \<in> set xs" and cur: "currElem cp = Some (xs ! k)" by (auto simp: ring_at_def)
  from ring_Next [OF k] obtain cp1 where
    cp1: "ConnPool_Next (settle Z cp) = Ret (xs ! k, cp1)" "ring_at cp1 xs (Suc k mod length xs)" by blast
  define cp' where "cp' = cp\<lparr>currElem := e_next (elems cp (xs ! k))\<rparr>"
  have "cp1 = settle Z cp'"
    using cp1(1) cur pool_ok_member(1) [OF assms mem] by (cases cp) (auto simp: ConnPool_Next_def settle_def cp'_def)
  then have "ring (settle Z cp') xs" using cp1(2) by (simp add: ring_at_def)
  then have "pool_ok Z cp' xs" using assms ne by (simp add: pool_ok_def cp'_def)
  then show "\<exists>e cp'. ConnPool_Next cp = Ret (e, cp') \<and> e \<in> set xs \<and> pool_ok Z cp' xs
      \<and> nextElem cp' = nextElem cp \<and> elems cp' = elems cp"
    using cur mem by (simp add: ConnPool_Next_def cp'_def)
qed

text \<open>Updates of an element that keep its links and its channel.\<close>

lemma ring_cong:
  assumes "ring cp xs" and "currElem cp' = currElem cp" "headElem cp' = headElem cp" "tailElem cp' = tailElem cp"
    "nextElem cp' = nextElem cp"
    and "\<And>x. e_next (elems cp' x) = e_next (elems cp x)" "\<And>x. e_prev (elems cp' x) = e_prev (elems cp x)"
    "\<And>x. e_stopped (elems cp' x) = e_stopped (elems cp x)"
  shows "ring cp' xs"
  using assms(1) unfolding ring_def links_def dead_def by (simp only: assms(2-)) auto

lemma pool_ok_upd:
  assumes "pool_ok Z cp xs" and "\<And>e. e_next (f e) = e_next e" and "\<And>e. e_prev (f e) = e_prev e"
    and "\<And>e. e_stopped (f e) = e_stopped e"
  shows "pool_ok Z (upd_elem x f cp) xs"
proof -
  have "ring (settle Z cp) xs" using assms(1) by (simp add: pool_ok_def)
  then have "ring (settle Z (upd_elem x f cp)) xs" by (rule ring_cong) (simp_all add: settle_def assms(2-4))
  then show ?thesis using assms by (auto simp: pool_ok_def)
qed

lemma pool_ok_AddCrc: "pool_ok Z cp xs \<Longrightarrow> pool_ok Z (AddCrc crc x cp) xs"
  unfolding AddCrc_def by (rule pool_ok_upd) auto

lemma pool_ok_Add:
  assumes "pool_ok Z cp xs" and "ConnPool_Add conn c cp = Ret (e, cp')"
  shows "pool_ok Z cp' (xs @ [e])" and "nextElem cp' = Suc (nextElem cp)"
proof -
  from assms(1) have r: "ring (settle Z cp) xs" and z: "\<forall>ce \<in> Z. ce < nextElem cp \<and> \<not> e_stopped (elems cp ce)"
    by (auto simp: pool_ok_def)
  from ring_Add [OF r, of conn c] obtain cp1 where
    cp1: "ConnPool_Add conn c (settle Z cp) = Ret (nextElem cp, cp1)" "ring cp1 (xs @ [nextElem cp])" by auto
  have fresh: "nextElem cp \<notin> Z" using z by auto
  have "settle Z cp' = cp1 \<and> e = nextElem cp \<and> nextElem cp' = Suc (nextElem cp) \<and> (\<forall>ce \<in> Z. e_stopped (elems cp' ce) = e_stopped (elems cp ce))"
  proof (cases "xs = []")
    case True
    then have "headElem cp = None" using r by (simp add: ring_def)
    then show ?thesis using cp1(1) assms(2) fresh
      by (auto simp: ConnPool_Add_def Let_def upd_elem_def settle_def fun_eq_iff split: if_splits)
  next
    case False
    then have ht: "headElem cp = Some (hd xs)" "tailElem cp = Some (last xs)" and mem: "hd xs \<in> set xs" "last xs \<in> set xs"
      using r by (auto simp: ring_def)
    note m = pool_ok_member [OF assms(1) mem(1)] pool_ok_member [OF assms(1) mem(2)]
    have ne: "hd xs \<noteq> nextElem cp" "last xs \<noteq> nextElem cp" using m by auto
    show ?thesis
      using cp1(1) assms(2) ConnPool_Add_nonempty [OF ht ne, of conn c]
        ConnPool_Add_nonempty [of "settle Z cp" "hd xs" "last xs" conn c] ht ne fresh m(1,3)
      by (auto simp: settle_def fun_eq_iff split: if_splits)
  qed
  then show "pool_ok Z cp' (xs @ [e])" and "nextElem cp' = Suc (nextElem cp)"
    using cp1(2) z by (auto simp: pool_ok_def)
qed

lemma pool_ok_close:
  assumes "pool_ok Z cp xs" and "ce \<in> Z"
  shows "\<exists>cp'. Delete_close ce cp = Ret cp' \<and> pool_ok (Z - {ce}) cp' xs \<and> nextElem cp' = nextElem cp"
proof -
  let ?cp = "upd_elem ce (\<lambda>e. e\<lparr>e_stopped := True, e_next := None, e_prev := None\<rparr>) cp"
  have "settle (Z - {ce}) ?cp = settle Z cp" using assms(2) by (auto simp: settle_def upd_elem_def fun_eq_iff)
  then have "pool_ok (Z - {ce}) ?cp xs" using assms by (auto simp: pool_ok_def)
  then show ?thesis using assms by (auto simp: Delete_close_def pool_ok_def)
qed

lemma pool_ok_unlink:
  assumes ok: "pool_ok Z cp xs" and ce: "ce < nextElem cp" "ce \<notin> Z" and more: "e_next (elems cp ce) \<noteq> Some ce"
  shows "\<exists>gone cp'. Delete_unlink ce cp = (gone, cp') \<and> nextElem cp' = nextElem cp
    \<and> (if gone then pool_ok Z cp' xs else ce \<in> set xs \<and> remove1 ce xs \<noteq> [] \<and> pool_ok (insert ce Z) cp' (remove1 ce xs))"
proof (cases "ce \<in> set xs")
  case False
  have r: "ring (settle Z cp) xs" using ok by (simp add: pool_ok_def)
  have "dead (elems (settle Z cp) ce)" using r False ce unfolding ring_def by (metis settle_simps(4))
  then have "Delete_unlink ce cp = (True, upd_elem ce (\<lambda>e. e\<lparr>e_conn := None, e_container := None, e_crc2ConnMap := False\<rparr>) cp)"
    using ce by (simp add: dead_def Delete_unlink_def)
  then show ?thesis using pool_ok_upd [OF ok, of "\<lambda>e. e\<lparr>e_conn := None, e_container := None, e_crc2ConnMap := False\<rparr>" ce] by auto
next
  case True
  have r: "ring (settle Z cp) xs" and z: "\<forall>ce \<in> Z. ce < nextElem cp \<and> \<not> e_stopped (elems cp ce)" using ok by (auto simp: pool_ok_def)
  have "xs \<noteq> [ce]"
  proof
    assume "xs = [ce]"
    then have "e_next (elems (settle Z cp) ce) = Some ce" using r by (simp add: ring_def links_def)
    then show False using more ce by simp
  qed
  from ring_Delete [OF r True this] obtain cp1 cp2 p n where
    un: "Delete_unlink ce (settle Z cp) = (False, cp1)" and cl: "Delete_close ce cp1 = Ret cp2" and r2: "ring cp2 (remove1 ce xs)"
    and pn: "(ce, n) \<in> ring_pairs xs" "(p, ce) \<in> ring_pairs xs" by blast
  have mem: "p \<in> set xs" "n \<in> set xs" using ring_pairs_in [OF pn(1)] ring_pairs_in [OF pn(2)] by auto
  note m = pool_ok_member(1) [OF ok mem(1)] pool_ok_member(1) [OF ok mem(2)]
  have lk: "e_next (elems cp ce) = Some n" "e_prev (elems cp ce) = Some p"
    using links_next [OF _ pn(1), of "settle Z cp"] links_prev [OF _ pn(2), of "settle Z cp"] r ce by (auto simp: ring_def)
  obtain cp' where cp': "Delete_unlink ce cp = (False, cp')" using lk more by (simp add: Delete_unlink_def Let_def)
  have e: "nextElem cp' = nextElem cp" "\<And>x. e_stopped (elems cp' x) = e_stopped (elems cp x)"
    using cp' lk more by (auto simp: Delete_unlink_def Let_def split: if_splits)
  have "settle Z cp' = cp1"
    using un cp' lk more ce m by (auto simp: Delete_unlink_def Let_def settle_def upd_elem_def fun_eq_iff split: if_splits)
  then have "settle (insert ce Z) cp' = cp2"
    using cl by (auto simp: Delete_close_def settle_def upd_elem_def fun_eq_iff split: if_splits)
  moreover have "\<not> e_stopped (elems cp ce)" using r True ce by (auto simp: ring_def)
  ultimately have "pool_ok (insert ce Z) cp' (remove1 ce xs)"
    using r2 z e ce remove1_not_Nil [OF True \<open>xs \<noteq> [ce]\<close>] by (auto simp: pool_ok_def)
  then show ?thesis using cp' e(1) True remove1_not_Nil [OF True \<open>xs \<noteq> [ce]\<close>]
    by (intro exI [of _ False] exI [of _ cp']) simp
qed

subsection \<open>The invariant of the system\<close>

lemma closing_update:
  assumes "i < length ths" and "\<And>ce. ths ! i \<noteq> DelClose ce"
  shows "closing (ths[i := th]) = (case th of DelClose ce \<Rightarrow> insert ce (closing ths) | _ \<Rightarrow> closing ths)"
proof -
  have "DelClose ce \<in> set (ths[i := th]) \<longleftrightarrow> DelClose ce \<in> set ths \<or> th = DelClose ce" for ce
    using assms by (auto simp: in_set_conv_nth nth_list_update) metis+
  then show ?thesis by (auto simp: closing_def split: thread.splits)
qed

lemma closing_closed:
  assumes "i < length ths" and "ths ! i = DelClose ce" and "\<And>ce'. th \<noteq> DelClose ce'"
    and "\<And>j. j < length ths \<Longrightarrow> del_of (ths ! i) = del_of (ths ! j) \<Longrightarrow> i = j"
  shows "closing (ths[i := th]) = closing ths - {ce}"
proof -
  have "DelClose x \<in> set (ths[i := th]) \<longleftrightarrow> DelClose x \<in> set ths \<and> x \<noteq> ce" for x
  proof
    assume "DelClose x \<in> set (ths[i := th])"
    then obtain j where j: "j < length ths" "ths[i := th] ! j = DelClose x" by (auto simp: in_set_conv_nth)
    then have "j \<noteq> i" using assms(1,3) by auto
    then show "DelClose x \<in> set ths \<and> x \<noteq> ce" using j assms(2) assms(4) [of j] by (auto simp: in_set_conv_nth)
  next
    assume "DelClose x \<in> set ths \<and> x \<noteq> ce"
    then obtain j where "j < length ths" "ths ! j = DelClose x" "x \<noteq> ce" by (auto simp: in_set_conv_nth)
    moreover from this have "j \<noteq> i" using assms(2) by auto
    ultimately show "DelClose x \<in> set (ths[i := th])" by (auto simp: in_set_conv_nth)
  qed
  then show ?thesis by (auto simp: closing_def)
qed

lemma closing_append: "closing (ths @ [th]) = (case th of DelClose ce \<Rightarrow> insert ce (closing ths) | _ \<Rightarrow> closing ths)"
  by (auto simp: closing_def split: thread.splits)

lemma rearm_simps [simp]:
  "connPool (rearm th th' s) = connPool s" "crcContainer (rearm th th' s) = crcContainer s" "crc2lock (rearm th th' s) = crc2lock s"
  by (induction th th' s rule: rearm.induct) auto

text \<open>
  What a section may do, apart from the two that take an element out of the list: it keeps the deletion it
  belongs to, the pool and the locks.
\<close>

definition plain_section :: "thread \<Rightarrow> Crc2ConnMap \<Rightarrow> thread \<Rightarrow> Crc2ConnMap \<Rightarrow> bool" where
  "plain_section th s th' s' \<longleftrightarrow>
     (\<forall>Z xs. pool_ok Z (connPool s) xs \<longrightarrow> pool_ok Z (connPool s') xs) \<and> nextElem (connPool s') = nextElem (connPool s)
     \<and> (del_of th' = None \<or> del_of th' = del_of th) \<and> (\<forall>ce. th' \<noteq> DelClose ce) \<and> (\<forall>ce. th \<noteq> DelClose ce)"

lemma Next_plain:
  assumes "ConnPool_Next cp = Ret (e, cp')"
  shows "pool_ok Z cp xs \<Longrightarrow> pool_ok Z cp' xs" and "nextElem cp' = nextElem cp"
proof -
  show "nextElem cp' = nextElem cp" using assms by (auto simp: ConnPool_Next_def)
  assume "pool_ok Z cp xs"
  then show "pool_ok Z cp' xs" using assms pool_ok_Next [of Z cp xs] by (cases "xs = []") auto
qed

lemma Delete_move_locks: "Delete_move ce r ps s = Ret s' \<Longrightarrow> crcContainer s' = crcContainer s \<and> crc2lock s' = crc2lock s"
  by (induction ps arbitrary: s) (auto simp: Let_def)

lemma Get_hit_container: "Get_hit val container s = Ret True \<Longrightarrow> container \<noteq> None"
  by (auto simp: Get_hit_def split: option.splits)

lemma pool_ok_fold_AddCrc: "pool_ok Z cp xs \<Longrightarrow> pool_ok Z (fold (\<lambda>key. AddCrc key r) ks cp) xs"
  by (induction ks arbitrary: cp) (auto intro: pool_ok_AddCrc)

lemma nextElem_AddCrc [simp]:
  "nextElem (AddCrc crc r cp) = nextElem cp" "nextElem (fold (\<lambda>key. AddCrc key r) ks cp) = nextElem cp"
  by (simp_all add: fold_AddCrc) (simp add: AddCrc_def)

lemma section_plain:
  assumes "thread_section rng now th s = Ret (th', s')" and "\<And>ce. th \<noteq> DelUnlink ce" and "\<And>ce. th \<noteq> DelClose ce"
  shows "plain_section th s th' s'"
  using assms
  by (cases th)
    (auto simp: sections plain_section_def Let_def pool_ok_AddCrc pool_ok_fold_AddCrc Next_plain
      intro!: pool_ok_upd dest: Delete_move_connPool split: if_splits option.splits)

lemma section_locks:
  assumes "thread_section rng now th s = Ret (th', s')" and "\<forall>crc. crcContainer s crc \<noteq> None \<longrightarrow> crc2lock s crc \<noteq> None"
    and "lock_ok th"
  shows "(\<forall>crc. crcContainer s' crc \<noteq> None \<longrightarrow> crc2lock s' crc \<noteq> None) \<and> lock_ok th'"
  using assms
  by (cases th)
    (auto simp: sections Let_def dest: Delete_move_locks Get_hit_container split: if_splits option.splits prod.splits bool.splits)

lemma sys_invD:
  assumes "sys_inv y xs"
  shows "pool_ok (closing (sys_threads y)) (connPool (sys_map y)) xs"
    and "i < length (sys_threads y) \<Longrightarrow> j < length (sys_threads y) \<Longrightarrow> del_of (sys_threads y ! i) \<noteq> None \<Longrightarrow>
      del_of (sys_threads y ! i) = del_of (sys_threads y ! j) \<Longrightarrow> i = j"
    and "i < length (sys_threads y) \<Longrightarrow> del_of (sys_threads y ! i) = Some ce \<Longrightarrow> ce < nextElem (connPool (sys_map y))"
    and "\<forall>crc. crcContainer (sys_map y) crc \<noteq> None \<longrightarrow> crc2lock (sys_map y) crc \<noteq> None"
    and "th \<in> set (sys_threads y) \<Longrightarrow> lock_ok th"
  using assms unfolding sys_inv_def by (auto dest: nth_mem)

text \<open>One thread moves on: the rest of the invariant follows from the pool and the locks.\<close>

lemma sys_inv_run:
  assumes inv: "sys_inv y xs" and i: "i < length (sys_threads y)"
    and th: "thread_section rng now (sys_threads y ! i) (sys_map y) = Ret (th, s)"
    and pool: "pool_ok (closing ((sys_threads y)[i := th])) (connPool s) ys"
    and ne: "nextElem (connPool s) = nextElem (connPool (sys_map y))"
    and del: "del_of th = None \<or> del_of th = del_of (sys_threads y ! i)"
  shows "sys_inv \<lparr>sys_map = rearm (sys_threads y ! i) th s, sys_threads = (sys_threads y)[i := th]\<rparr> ys"
proof -
  note lk = section_locks [OF th sys_invD(4) [OF inv] sys_invD(5) [OF inv nth_mem [OF i]]]
  have "j = k" if "j < length (sys_threads y)" "k < length (sys_threads y)" "del_of ((sys_threads y)[i := th] ! j) \<noteq> None"
    "del_of ((sys_threads y)[i := th] ! j) = del_of ((sys_threads y)[i := th] ! k)" for j k
    using that i del sys_invD(2) [OF inv] by (metis nth_list_update_eq nth_list_update_neq)
  moreover have "ce < nextElem (connPool s)" if "x \<in> set ((sys_threads y)[i := th])" "del_of x = Some ce" for x ce
  proof -
    have "x = th \<or> x \<in> set (sys_threads y)" using that(1) set_update_subset_insert by fastforce
    then show ?thesis using that(2) i del ne sys_invD(3) [OF inv] by (auto simp: in_set_conv_nth)
  qed
  moreover have "lock_ok x" if "x \<in> set ((sys_threads y)[i := th])" for x
    using that lk sys_invD(5) [OF inv] set_update_subset_insert [of "sys_threads y" i th] by auto
  ultimately show ?thesis using pool lk by (auto simp: sys_inv_def)
qed

lemma sys_inv_ARun:
  assumes inv: "sys_inv y xs" and ex: "exec rng (ARun i now) y = Ret y'"
  shows "\<exists>ys. sys_inv y' ys \<and> (xs \<noteq> [] \<longrightarrow> ys \<noteq> [])"
proof -
  let ?th = "sys_threads y ! i" and ?s = "sys_map y"
  from ex have i: "i < length (sys_threads y)" and last: "\<not> last_member ?th ?s" by (auto split: if_splits)
  from ex i last obtain th s where th: "thread_section rng now ?th ?s = Ret (th, s)"
    and y': "y' = \<lparr>sys_map = rearm ?th th s, sys_threads = (sys_threads y)[i := th]\<rparr>" by auto
  note run = sys_inv_run [OF inv i th, folded y'] and ok = sys_invD(1) [OF inv]
  consider (unlink) ce where "?th = DelUnlink ce" | (close) ce where "?th = DelClose ce"
    | (plain) "\<forall>ce. ?th \<noteq> DelUnlink ce \<and> ?th \<noteq> DelClose ce" by blast
  then show ?thesis
  proof cases
    case unlink
    have "ce \<notin> closing (sys_threads y)"
    proof
      assume "ce \<in> closing (sys_threads y)"
      then obtain j where "j < length (sys_threads y)" "sys_threads y ! j = DelClose ce" by (auto simp: closing_def in_set_conv_nth)
      then show False using sys_invD(2) [OF inv i, of j] unlink by auto
    qed
    moreover have "ce < nextElem (connPool ?s)" using sys_invD(3) [OF inv i] unlink by simp
    moreover have "e_next (elems (connPool ?s) ce) \<noteq> Some ce" using last unlink by (simp add: last_member_def)
    ultimately obtain gone cp where un: "Delete_unlink ce (connPool ?s) = (gone, cp)" "nextElem cp = nextElem (connPool ?s)"
      "if gone then pool_ok (closing (sys_threads y)) cp xs
       else ce \<in> set xs \<and> remove1 ce xs \<noteq> [] \<and> pool_ok (insert ce (closing (sys_threads y))) cp (remove1 ce xs)"
      using pool_ok_unlink [OF ok] by blast
    show ?thesis
    proof (cases gone)
      case True
      then have "th = DelDone" "s = ?s\<lparr>connPool := cp\<rparr>" using th unlink un(1) by (auto simp: sections)
      then show ?thesis using run [of xs] un(2,3) True closing_update [OF i, of DelDone] unlink by auto
    next
      case False
      then have "th = DelClose ce" "s = ?s\<lparr>connPool := cp\<rparr>" using th unlink un(1) by (auto simp: sections)
      then show ?thesis using run [of "remove1 ce xs"] un(2,3) False closing_update [OF i, of "DelClose ce"] unlink by auto
    qed
  next
    case close
    then have "ce \<in> closing (sys_threads y)" using nth_mem [OF i] by (simp add: closing_def)
    from pool_ok_close [OF ok this] obtain cp where cp: "Delete_close ce (connPool ?s) = Ret cp"
      "pool_ok (closing (sys_threads y) - {ce}) cp xs" "nextElem cp = nextElem (connPool ?s)" by blast
    then have "th = DelCheck ce" "s = ?s\<lparr>connPool := cp\<rparr>" using th close by (auto simp: sections)
    then show ?thesis
      using run [of xs] cp closing_closed [OF i close, of "DelCheck ce"] sys_invD(2) [OF inv i] close by auto
  next
    case plain
    then have "plain_section ?th ?s th s" using section_plain [OF th] by blast
    then show ?thesis
      using run [of xs] ok closing_update [OF i, of th] by (auto simp: plain_section_def split: thread.splits)
  qed
qed

lemma sys_inv_spawn:
  assumes inv: "sys_inv y xs" and th: "\<And>ce. th \<noteq> DelClose ce" "lock_ok th"
    and del: "\<And>ce. del_of th = Some ce \<Longrightarrow> ce < nextElem (connPool (sys_map y)) \<and> (\<forall>x \<in> set (sys_threads y). del_of x \<noteq> Some ce)"
    and s: "connPool s = connPool (sys_map y)" "crcContainer s = crcContainer (sys_map y)" "crc2lock s = crc2lock (sys_map y)"
  shows "sys_inv (y\<lparr>sys_map := s, sys_threads := sys_threads y @ [th]\<rparr>) xs"
proof -
  have "j = k" if jk: "j < Suc (length (sys_threads y))" "k < Suc (length (sys_threads y))"
    "del_of ((sys_threads y @ [th]) ! j) \<noteq> None" "del_of ((sys_threads y @ [th]) ! j) = del_of ((sys_threads y @ [th]) ! k)" for j k
    using jk sys_invD(2) [OF inv, of j k] del nth_mem [of j "sys_threads y"] nth_mem [of k "sys_threads y"]
    by (auto simp: nth_append less_Suc_eq split: if_splits)
  then show ?thesis
    using inv th del s closing_append [of "sys_threads y" th] by (auto simp: sys_inv_def split: thread.splits)
qed

lemma sys_inv_step:
  assumes inv: "sys_inv y xs" and ex: "exec rng a y = Ret y'"
  shows "\<exists>ys. sys_inv y' ys \<and> (xs \<noteq> [] \<longrightarrow> ys \<noteq> [])"
proof (cases a)
  case (ARegister conn cnt)
  then obtain r s where r: "register conn cnt (sys_map y) = Ret (r, s)" and y': "y' = y\<lparr>sys_map := s\<rparr>" using ex by auto
  then obtain e cp where "ConnPool_Add conn (nextContainer (sys_map y)) (connPool (sys_map y)) = Ret (e, cp)"
    "connPool s = cp" "crcContainer s = crcContainer (sys_map y)" "crc2lock s = crc2lock (sys_map y)"
    by (auto simp: register_def Let_def)
  then have "sys_inv y' (xs @ [e])"
    using inv pool_ok_Add [OF sys_invD(1) [OF inv]] y' by (fastforce simp: sys_inv_def)
  then show ?thesis by blast
next
  case (AGet crc)
  then show ?thesis using ex sys_inv_spawn [OF inv, of "GetRead crc" "sys_map y"] by auto
next
  case (ADelete ce)
  then show ?thesis using ex sys_inv_spawn [OF inv, of "DelUnlink ce" "sys_map y"] by (auto split: if_splits)
next
  case (ATick t)
  then show ?thesis
    using ex sys_inv_spawn [OF inv, of "TickRead t" "(sys_map y)\<lparr>timers := remove1 t (timers (sys_map y))\<rparr>"]
    by (auto split: if_splits)
next
  case (AStop t)
  then show ?thesis using ex inv by (auto simp: sys_inv_def split: if_splits)
next
  case (ARun i now)
  then show ?thesis using sys_inv_ARun inv ex by blast
qed

lemma sys_inv_new: "sys_inv (NewSys age) []"
  using ring_NewConnPool
  by (simp add: sys_inv_def NewSys_def NewCrc2ConnMap_def closing_def pool_ok_def settle_def) (simp add: NewConnPool_def)

lemma sys_reachable_inv: "sys_reachable rng age y \<Longrightarrow> \<exists>xs. sys_inv y xs"
  by (induction rule: sys_reachable.induct) (use sys_inv_new sys_inv_step in blast)+

lemma sys_reachable_exec_all:
  "sys_reachable rng age y \<Longrightarrow> exec_all rng as y = Ret y' \<Longrightarrow> sys_reachable rng age y'"
  by (induction as arbitrary: y) (auto intro: sys_next)

subsection \<open>Examples\<close>

definition cnt_ex :: Container where
  "cnt_ex = \<lparr>c_Addr = [10, 0, 0, 1], c_Port = 80, c_Fluxes = 0, c_Id = 1, c_Repl = False, c_MaxFluxes = 10\<rparr>"

text \<open>Three containers register; a packet has chosen the first one when it is deleted.\<close>

definition race_setup :: "action list" where
  "race_setup = [ARegister (Some 1) cnt_ex, ARegister (Some 2) cnt_ex, ARegister (Some 3) cnt_ex,
     AGet 5, ARun 0 0, ARun 0 0, ARun 0 0, ARun 0 0, ADelete 0]"

definition run_of :: "sys go \<Rightarrow> sys" where
  "run_of m = (case m of Ret y \<Rightarrow> y | _ \<Rightarrow> NewSys 0)"

lemma run_of_eq: "returns m \<Longrightarrow> m = Ret (run_of m)"
  by (cases m) (simp_all add: run_of_def)

lemma go_caseE:
  assumes "case m of Ret y \<Rightarrow> P y | _ \<Rightarrow> False"
  obtains y where "m = Ret y" and "P y"
  using assms by (cases m) auto

lemma map_go_fst: "map_go fst m = Ret x \<Longrightarrow> m = Ret (x, snd (case m of Ret r \<Rightarrow> r | _ \<Rightarrow> d))"
  by (cases m) auto

lemma map_go_panic: "map_go f m = Panic p \<Longrightarrow> m = Panic p"
  by (cases m) auto

lemma sys_reachable_run: "returns (exec_all rng as (NewSys age)) \<Longrightarrow> sys_reachable rng age (run_of (exec_all rng as (NewSys age)))"
  using sys_reachable_exec_all [OF sys_init run_of_eq] by blast

section \<open>Properties\<close>


text \<open>
  C8: In every interleaving of lookups, deletions, registrations and expiries, section by section, in which
  deletions of one element do not overlap and the last member is not deleted, the linked list of the pool is intact (a ring, once the deletions under way have closed their elements): asking it
  for the next element returns a member and keeps the ring, a deletion never closes a channel twice, and a
  lookup that has returned has a semaphore.
\<close>

theorem pool_intact_in_all_interleavings:
  assumes "sys_reachable rng age y"
  shows "\<exists>xs. ring (settle (closing (sys_threads y)) (connPool (sys_map y))) xs
    \<and> (\<forall>crc now. xs \<noteq> [] \<longrightarrow> (\<exists>e s'. thread_section rng now (GetNext crc) (sys_map y) = Ret (GetAddCrc crc e, s') \<and> e \<in> set xs
          \<and> ring (settle (closing (sys_threads y)) (connPool s')) xs))
    \<and> (\<forall>ce now. DelClose ce \<in> set (sys_threads y) \<longrightarrow> (\<exists>s'. thread_section rng now (DelClose ce) (sys_map y) = Ret (DelCheck ce, s')))
    \<and> (\<forall>cn lk. GetDone cn lk \<in> set (sys_threads y) \<longrightarrow> lk \<noteq> None)"
proof -
  obtain xs where inv: "sys_inv y xs" using sys_reachable_inv [OF assms] by blast
  note ok = sys_invD(1) [OF inv]
  have "\<exists>e s'. thread_section rng now (GetNext crc) (sys_map y) = Ret (GetAddCrc crc e, s') \<and> e \<in> set xs
      \<and> ring (settle (closing (sys_threads y)) (connPool s')) xs" if "xs \<noteq> []" for crc now
    using pool_ok_Next(2) [OF ok that] by (auto simp: sections pool_ok_def)
  moreover have "\<exists>s'. thread_section rng now (DelClose ce) (sys_map y) = Ret (DelCheck ce, s')"
    if "DelClose ce \<in> set (sys_threads y)" for ce now
    using pool_ok_close [OF ok, of ce] that by (auto simp: sections closing_def)
  moreover have "lk \<noteq> None" if "GetDone cn lk \<in> set (sys_threads y)" for cn lk
    using sys_invD(5) [OF inv that] by simp
  moreover have "ring (settle (closing (sys_threads y)) (connPool (sys_map y))) xs" using ok by (simp add: pool_ok_def)
  ultimately show ?thesis by blast
qed

theorem pool_intact_in_all_interleavings_witness:
  "\<exists>y xs. sys_reachable id 0 y \<and> DelClose 0 \<in> set (sys_threads y) \<and> ring (settle (closing (sys_threads y)) (connPool (sys_map y))) xs"
proof -
  define y where "y = run_of (exec_all id (race_setup @ [ARun 1 0]) (NewSys 0))"
  have "returns (exec_all id (race_setup @ [ARun 1 0]) (NewSys 0))" by code_simp
  then have y: "sys_reachable id 0 y" unfolding y_def by (rule sys_reachable_run)
  have "DelClose 0 \<in> set (sys_threads y)" unfolding y_def by code_simp
  then show ?thesis using y pool_intact_in_all_interleavings [OF y] by blast
qed


text \<open>
  If the element had flows, the same race leaves the new flow on the connection of the deleted element, after
  that container was told to terminate: every later packet of the flow goes there, and as the goroutine that
  would expire the flow stops with its element, this does not end.
\<close>

theorem Get_and_Delete_race_misdirects:
  "\<exists>y. sys_reachable id 0 y \<and> (\<forall>th \<in> set (sys_threads y). th = DelDone \<or> (\<exists>cn lk. th = GetDone cn lk))
     \<and> \<not> IsAlive 0 (connPool (sys_map y)) \<and> 1 \<in> fst ` set (sent (sys_map y))
     \<and> (\<forall>t \<in> set (timers (sys_map y)). ft_crc t \<noteq> 9)
     \<and> (\<forall>now. \<exists>lk s'. Get 9 now (sys_map y) = Ret ((Some 1, lk), s'))"
proof -
  let ?as = "[ARegister (Some 1) cnt_ex, AGet 5] @ replicate 7 (ARun 0 0) @ [ARegister (Some 2) cnt_ex, AGet 9]
    @ replicate 4 (ARun 1 0) @ [ADelete 0] @ replicate 7 (ARun 2 0)
    @ replicate 3 (ARun 1 0) @ [AStop \<lparr>ft_crc = 9, ft_elem = 0, ft_timeout = 0, ft_from = None\<rparr>]"
  have "case exec_all id ?as (NewSys 0) of
      Ret y \<Rightarrow> let s = sys_map y in
        sys_threads y = [GetDone (Some 1) (Some 0), GetDone (Some 1) (Some 1), DelDone]
        \<and> \<not> IsAlive 0 (connPool s) \<and> map fst (sent s) = [1] \<and> map ft_crc (timers s) = [5, 5]
        \<and> crc2conn s 9 = Some (Some 1) \<and> crcContainer s 9 = Some (Some 0)
        \<and> c_Fluxes (containers s 0) = 2 \<and> c_MaxFluxes (containers s 0) = 10
    | _ \<Rightarrow> False" by code_simp
  from go_caseE [OF this [unfolded Let_def]] obtain y where y: "exec_all id ?as (NewSys 0) = Ret y"
    and ths: "sys_threads y = [GetDone (Some 1) (Some 0), GetDone (Some 1) (Some 1), DelDone]"
    and dead: "\<not> IsAlive 0 (connPool (sys_map y))" and told: "map fst (sent (sys_map y)) = [1]"
    and timers: "map ft_crc (timers (sys_map y)) = [5, 5]"
    and flow: "crc2conn (sys_map y) 9 = Some (Some 1)" "crcContainer (sys_map y) 9 = Some (Some 0)"
      "c_Fluxes (containers (sys_map y) 0) = 2" "c_MaxFluxes (containers (sys_map y) 0) = 10"
    by metis
  have r: "sys_reachable id 0 y" using sys_reachable_exec_all [OF sys_init y] .
  have "1 \<in> fst ` set (sent (sys_map y))" using told by (metis list.set_intros(1) set_map)
  moreover have "9 \<notin> set (map ft_crc (timers (sys_map y)))" unfolding timers by simp
  then have "\<forall>t \<in> set (timers (sys_map y)). ft_crc t \<noteq> 9" by force
  moreover have "\<exists>lk s'. Get 9 now (sys_map y) = Ret ((Some 1, lk), s')" for now
    using flow by (simp add: Get_def Get_hit_def GetFluxes_def GetMaxFluxes_def Let_def)
  ultimately show ?thesis using r ths dead by (intro exI [of _ y]) simp
qed

text \<open>
  Deletions of one element must not overlap, and nothing in the program prevents it: the timer of the
  container and the provisioner both delete it. When both have left the list before one of them has closed
  the element, the second closes its channel again, which panics.
\<close>

theorem overlapping_deletes_panic:
  "\<exists>y s1 s2 s3. sys_reachable id 0 y \<and> thread_section id 0 (DelUnlink 0) (sys_map y) = Ret (DelClose 0, s1)
     \<and> thread_section id 0 (DelUnlink 0) s1 = Ret (DelClose 0, s2)
     \<and> thread_section id 0 (DelClose 0) s2 = Ret (DelCheck 0, s3)
     \<and> thread_section id 0 (DelClose 0) s3 = Panic CloseOfClosedChannel"
proof -
  let ?as = "[ARegister (Some 1) cnt_ex, ARegister (Some 2) cnt_ex]"
  define y where "y = run_of (exec_all id ?as (NewSys 0))"
  define sec where "sec th s = (case thread_section id 0 th s of Ret r \<Rightarrow> r | _ \<Rightarrow> (th, s))" for th s
  define s1 where "s1 = snd (sec (DelUnlink 0) (sys_map y))"
  define s2 where "s2 = snd (sec (DelUnlink 0) s1)"
  define s3 where "s3 = snd (sec (DelClose 0) s2)"
  note defs = y_def s1_def s2_def s3_def sec_def
  have "returns (exec_all id ?as (NewSys 0))" by code_simp
  then have "sys_reachable id 0 y" unfolding y_def by (rule sys_reachable_run)
  moreover have "map_go fst (thread_section id 0 (DelUnlink 0) (sys_map y)) = Ret (DelClose 0)"
    "map_go fst (thread_section id 0 (DelUnlink 0) s1) = Ret (DelClose 0)"
    "map_go fst (thread_section id 0 (DelClose 0) s2) = Ret (DelCheck 0)"
    "map_go fst (thread_section id 0 (DelClose 0) s3) = Panic CloseOfClosedChannel"
    unfolding defs by code_simp+
  then have "thread_section id 0 (DelUnlink 0) (sys_map y) = Ret (DelClose 0, s1)"
    "thread_section id 0 (DelUnlink 0) s1 = Ret (DelClose 0, s2)"
    "thread_section id 0 (DelClose 0) s2 = Ret (DelCheck 0, s3)"
    "thread_section id 0 (DelClose 0) s3 = Panic CloseOfClosedChannel"
    unfolding s1_def s2_def s3_def sec_def by (blast intro: map_go_fst map_go_panic)+
  ultimately show ?thesis by blast
qed

end
