(* ===== verification/Heap_Types.thy ===== *)
theory Heap_Types
  imports Flow_Threads
begin

text \<open>
  Type safety of the heap of a flow map (\<open>src/utils/rulemap.go\<close>), in the sense that Go's type system
  and garbage collector give it and that explicit addresses have to be shown to have: every pointer to a pool
  element, a container or a semaphore, in the structures, in the goroutines and in the local variables of
  calls under way, is nil or leads to an object that has been allocated.

  The steps here are those of \<open>Flow_Threads\<close> without its two restrictions: deletions of one element may
  overlap and the last member may be deleted. The ring of the pool can break then; its pointers do not.
\<close>

section \<open>Definitions\<close>

definition valid :: "nat \<Rightarrow> ptr option \<Rightarrow> bool" where
  "valid n p \<longleftrightarrow> (case p of None \<Rightarrow> True | Some a \<Rightarrow> a < n)"

definition elem_typed :: "nat \<Rightarrow> nat \<Rightarrow> ConnPoolElem \<Rightarrow> bool" where
  "elem_typed nE nC e \<longleftrightarrow> valid nE (e_prev e) \<and> valid nE (e_next e) \<and> valid nC (e_container e)"

definition pool_typed :: "nat \<Rightarrow> ConnPool \<Rightarrow> bool" where
  "pool_typed nC cp \<longleftrightarrow> valid (nextElem cp) (currElem cp) \<and> valid (nextElem cp) (headElem cp) \<and> valid (nextElem cp) (tailElem cp)
     \<and> (\<forall>x. elem_typed (nextElem cp) nC (elems cp x))"

definition timer_typed :: "nat \<Rightarrow> flux_timer \<Rightarrow> bool" where
  "timer_typed nE t \<longleftrightarrow> ft_elem t < nE \<and> valid nE (ft_from t)"

definition map_typed :: "Crc2ConnMap \<Rightarrow> bool" where
  "map_typed s \<longleftrightarrow> pool_typed (nextContainer s) (connPool s)
     \<and> (\<forall>crc c. crcContainer s crc = Some c \<longrightarrow> valid (nextContainer s) c)
     \<and> (\<forall>crc. valid (nextSem s) (crc2lock s crc))
     \<and> (\<forall>t \<in> set (timers s). timer_typed (nextElem (connPool s)) t)"

text \<open>The local variables of a thread.\<close>

fun thread_typed :: "nat \<Rightarrow> nat \<Rightarrow> nat \<Rightarrow> thread \<Rightarrow> bool" where
  "thread_typed nE nC nS (GetTouch _ _ container lock) = (valid nC (case container of Some c \<Rightarrow> c | None \<Rightarrow> None) \<and> valid nS lock)"
| "thread_typed nE nC nS (GetCheck _ _ container lock) = (valid nC (case container of Some c \<Rightarrow> c | None \<Rightarrow> None) \<and> valid nS lock)"
| "thread_typed nE nC nS (GetAddCrc _ cpe) = (cpe < nE)"
| "thread_typed nE nC nS (GetStore _ cpe) = (cpe < nE)"
| "thread_typed nE nC nS (GetStart _ cpe sem) = (cpe < nE \<and> sem < nS)"
| "thread_typed nE nC nS (GetDone _ lock) = valid nS lock"
| "thread_typed nE nC nS (DelMove ce rCe) = (ce < nE \<and> rCe < nE)"
| "thread_typed nE nC nS (DelAdopt ce rCe) = (ce < nE \<and> rCe < nE)"
| "thread_typed nE nC nS (TickRead t) = timer_typed nE t"
| "thread_typed nE nC nS (TickDecide t _) = timer_typed nE t"
| "thread_typed nE nC nS (TickForget t) = timer_typed nE t"
| "thread_typed nE nC nS th = valid nE (del_of th)"

definition sys_typed :: "sys \<Rightarrow> bool" where
  "sys_typed y \<longleftrightarrow> map_typed (sys_map y)
     \<and> (\<forall>th \<in> set (sys_threads y). thread_typed (nextElem (connPool (sys_map y))) (nextContainer (sys_map y)) (nextSem (sys_map y)) th)"

text \<open>Everything that can happen to a flow map, with no restriction on deletions.\<close>

inductive free_step :: "(u16 list \<Rightarrow> u16 list) \<Rightarrow> sys \<Rightarrow> sys \<Rightarrow> bool" for rng where
  free_register: "register conn cnt (sys_map y) = Ret (r, s) \<Longrightarrow> free_step rng y (y\<lparr>sys_map := s\<rparr>)"
| free_get: "free_step rng y (y\<lparr>sys_threads := sys_threads y @ [GetRead crc]\<rparr>)"
| free_delete: "ce < nextElem (connPool (sys_map y)) \<Longrightarrow> free_step rng y (y\<lparr>sys_threads := sys_threads y @ [DelUnlink ce]\<rparr>)"
| free_tick: "t \<in> set (timers (sys_map y)) \<Longrightarrow>
    free_step rng y (y\<lparr>sys_map := (sys_map y)\<lparr>timers := remove1 t (timers (sys_map y))\<rparr>, sys_threads := sys_threads y @ [TickRead t]\<rparr>)"
| free_stop: "t \<in> set (timers (sys_map y)) \<Longrightarrow> flux_stopped t (sys_map y) \<Longrightarrow>
    free_step rng y (y\<lparr>sys_map := (sys_map y)\<lparr>timers := remove1 t (timers (sys_map y))\<rparr>\<rparr>)"
| free_run: "i < length (sys_threads y) \<Longrightarrow> thread_section rng now (sys_threads y ! i) (sys_map y) = Ret (th, s) \<Longrightarrow>
    free_step rng y \<lparr>sys_map = rearm (sys_threads y ! i) th s, sys_threads = (sys_threads y)[i := th]\<rparr>"

inductive free_reachable :: "(u16 list \<Rightarrow> u16 list) \<Rightarrow> int \<Rightarrow> sys \<Rightarrow> bool" for rng maxAge where
  free_init: "free_reachable rng maxAge (NewSys maxAge)"
| free_next: "free_reachable rng maxAge y \<Longrightarrow> free_step rng y y' \<Longrightarrow> free_reachable rng maxAge y'"

section \<open>Lemmas\<close>

lemma valid_simps [simp]: "valid n None" "valid n (Some a) \<longleftrightarrow> a < n"
  by (simp_all add: valid_def)

lemma valid_mono: "valid n p \<Longrightarrow> n \<le> m \<Longrightarrow> valid m p"
  by (cases p) auto

lemma valid_Suc: "valid n p \<Longrightarrow> valid (Suc n) p"
  by (cases p) auto

lemma pool_typedD:
  assumes "pool_typed nC cp"
  shows "valid (nextElem cp) (currElem cp)" "valid (nextElem cp) (headElem cp)" "valid (nextElem cp) (tailElem cp)"
    "valid (nextElem cp) (e_prev (elems cp x))" "valid (nextElem cp) (e_next (elems cp x))" "valid nC (e_container (elems cp x))"
  using assms by (simp_all add: pool_typed_def elem_typed_def)

lemma upd_elem_typed:
  "pool_typed nC cp \<Longrightarrow> elem_typed (nextElem cp) nC (f (elems cp x)) \<Longrightarrow> pool_typed nC (upd_elem x f cp)"
  by (simp add: pool_typed_def upd_elem_def)

lemma pool_typed_cursor:
  "pool_typed nC cp \<Longrightarrow> valid (nextElem cp) p \<Longrightarrow> pool_typed nC (cp\<lparr>currElem := p\<rparr>)"
  "pool_typed nC cp \<Longrightarrow> valid (nextElem cp) p \<Longrightarrow> pool_typed nC (cp\<lparr>headElem := p\<rparr>)"
  "pool_typed nC cp \<Longrightarrow> valid (nextElem cp) p \<Longrightarrow> pool_typed nC (cp\<lparr>tailElem := p\<rparr>)"
  by (simp_all add: pool_typed_def)

lemma nextElem_simps [simp]: "nextElem (upd_elem x f cp) = nextElem cp" "nextElem (AddCrc crc x cp) = nextElem cp"
  by (simp_all add: upd_elem_def AddCrc_def)

subsection \<open>Operations of the pool\<close>

lemma Next_typed:
  assumes "pool_typed nC cp" and "ConnPool_Next cp = Ret (e, cp')"
  shows "pool_typed nC cp'" and "e < nextElem cp" and "nextElem cp' = nextElem cp"
  using assms pool_typedD [OF assms(1)] by (auto simp: ConnPool_Next_def intro: pool_typed_cursor)

lemma AddCrc_typed: "pool_typed nC cp \<Longrightarrow> pool_typed nC (AddCrc crc x cp)"
  unfolding AddCrc_def by (rule upd_elem_typed) (auto simp: pool_typed_def elem_typed_def)

lemma fold_AddCrc_typed:
  "pool_typed nC cp \<Longrightarrow> pool_typed nC (fold (\<lambda>key. AddCrc key x) ks cp) \<and> nextElem (fold (\<lambda>key. AddCrc key x) ks cp) = nextElem cp"
  by (induction ks arbitrary: cp) (simp_all add: AddCrc_typed)

lemma close_typed:
  "pool_typed nC cp \<Longrightarrow> Delete_close ce cp = Ret cp' \<Longrightarrow> pool_typed nC cp' \<and> nextElem cp' = nextElem cp"
  by (auto simp: Delete_close_def elem_typed_def pool_typedD intro!: upd_elem_typed split: if_splits)

lemma unlink_typed:
  assumes t: "pool_typed nC cp" and u: "Delete_unlink ce cp = (gone, cp')"
  shows "pool_typed nC cp'" and "nextElem cp' = nextElem cp"
proof -
  note D = pool_typedD [OF t]
  have "pool_typed nC cp' \<and> nextElem cp' = nextElem cp"
  proof (cases "e_next (elems cp ce) = Some ce \<or> e_prev (elems cp ce) = None \<or> e_next (elems cp ce) = None")
    case True
    have "elem_typed (nextElem cp) nC ((elems cp ce)\<lparr>e_conn := None, e_container := None, e_crc2ConnMap := False\<rparr>)"
      using D by (simp add: elem_typed_def)
    then show ?thesis
      using True u t by (auto simp: Delete_unlink_def intro!: pool_typed_cursor upd_elem_typed split: if_splits option.splits)
  next
    case False
    then obtain p n where pn: "e_prev (elems cp ce) = Some p" "e_next (elems cp ce) = Some n" by auto
    let ?cp = "upd_elem n (\<lambda>e. e\<lparr>e_prev := Some p\<rparr>) (upd_elem p (\<lambda>e. e\<lparr>e_next := Some n\<rparr>) cp)"
    have lt: "p < nextElem cp" "n < nextElem cp" using D(4) [of ce] D(5) [of ce] pn by simp_all
    have t': "pool_typed nC ?cp"
      by (intro upd_elem_typed t) (use lt t in \<open>auto simp: elem_typed_def pool_typed_def upd_elem_def\<close>)
    have "nextElem ?cp = nextElem cp" by simp
    moreover have "pool_typed nC c \<Longrightarrow> pool_typed nC (if b then c\<lparr>currElem := e_next (elems c ce)\<rparr> else c)"
      "pool_typed nC c \<Longrightarrow> pool_typed nC (if b then c\<lparr>headElem := e_next (elems c ce)\<rparr> else c)"
      "pool_typed nC c \<Longrightarrow> pool_typed nC (if b then c\<lparr>tailElem := e_prev (elems c ce)\<rparr> else c)" for b c
      by (auto intro!: pool_typed_cursor pool_typedD)
    ultimately show ?thesis using u pn False t' by (auto simp: Delete_unlink_def Let_def)
  qed
  then show "pool_typed nC cp'" and "nextElem cp' = nextElem cp" by blast+
qed

lemma Add_typed:
  assumes t: "pool_typed c cp" and a: "ConnPool_Add conn c cp = Ret (e, cp')"
  shows "pool_typed (Suc c) cp'" and "nextElem cp' = Suc (nextElem cp)"
proof -
  let ?new = "\<lparr>e_conn = conn, e_prev = None, e_next = None, e_crc2ConnMap = True, e_ports = [],
    e_container = Some c, e_stopped = False\<rparr>"
  let ?cp = "cp\<lparr>elems := (elems cp)(nextElem cp := ?new), nextElem := Suc (nextElem cp)\<rparr>"
  have mono: "valid (nextElem cp) p \<Longrightarrow> valid (Suc (nextElem cp)) p" "valid c p \<Longrightarrow> valid (Suc c) p" for p
    by (auto intro: valid_mono)
  have t': "pool_typed (Suc c) ?cp" using t by (auto simp: pool_typed_def elem_typed_def mono)
  have upd: "pool_typed (Suc c) (upd_elem x f q) \<and> nextElem (upd_elem x f q) = Suc (nextElem cp)"
    if "pool_typed (Suc c) q \<and> nextElem q = Suc (nextElem cp)" "\<And>e. elem_typed (Suc (nextElem cp)) (Suc c) e \<Longrightarrow> elem_typed (Suc (nextElem cp)) (Suc c) (f e)" for x f q
    using that by (auto simp: pool_typed_def upd_elem_def)
  have "pool_typed (Suc c) cp' \<and> nextElem cp' = Suc (nextElem cp)"
  proof (cases "headElem cp")
    case None
    then have "cp' = upd_elem (nextElem cp) (\<lambda>e. e\<lparr>e_next := Some (nextElem cp), e_prev := Some (nextElem cp)\<rparr>)
        (?cp\<lparr>headElem := Some (nextElem cp), tailElem := Some (nextElem cp)\<rparr>) \<lparr>currElem := Some (nextElem cp)\<rparr>"
      using a by (auto simp: ConnPool_Add_def Let_def upd_elem_def)
    moreover have "pool_typed (Suc c) (upd_elem (nextElem cp) (\<lambda>e. e\<lparr>e_next := Some (nextElem cp), e_prev := Some (nextElem cp)\<rparr>)
        (?cp\<lparr>headElem := Some (nextElem cp), tailElem := Some (nextElem cp)\<rparr>))"
      by (intro conjunct1 [OF upd]) (use t' in \<open>auto intro!: pool_typed_cursor simp: elem_typed_def\<close>)
    ultimately show ?thesis by (simp add: pool_typed_cursor)
  next
    case (Some h)
    then obtain tl where tl: "tailElem cp = Some tl" using a by (auto simp: ConnPool_Add_def Let_def)
    have lt: "h < nextElem cp" "tl < nextElem cp" using pool_typedD(2,3) [OF t] Some tl by simp_all
    let ?q = "upd_elem h (\<lambda>e. e\<lparr>e_prev := Some (nextElem cp)\<rparr>)
        (upd_elem (nextElem cp) (\<lambda>e. e\<lparr>e_prev := Some tl, e_next := Some h\<rparr>)
          (upd_elem tl (\<lambda>e. e\<lparr>e_next := Some (nextElem cp)\<rparr>) ?cp))"
    have "cp' = ?q\<lparr>tailElem := Some (nextElem cp)\<rparr>" using a Some tl by (auto simp: ConnPool_Add_def Let_def)
    moreover have "pool_typed (Suc c) ?q \<and> nextElem ?q = Suc (nextElem cp)"
      by (intro upd) (use t' lt in \<open>auto simp: elem_typed_def\<close>)
    ultimately show ?thesis by (simp add: pool_typed_cursor)
  qed
  then show "pool_typed (Suc c) cp'" and "nextElem cp' = Suc (nextElem cp)" by blast+
qed

subsection \<open>Operations of the map\<close>

text \<open>The types of a state: the numbers of elements, containers and semaphores that are allocated.\<close>

abbreviation (input) dims :: "Crc2ConnMap \<Rightarrow> nat \<times> nat \<times> nat" where
  "dims s \<equiv> (nextElem (connPool s), nextContainer s, nextSem s)"

lemma map_typedD:
  assumes "map_typed s"
  shows "pool_typed (nextContainer s) (connPool s)" "crcContainer s crc = Some c \<Longrightarrow> valid (nextContainer s) c"
    "valid (nextSem s) (crc2lock s crc)" "t \<in> set (timers s) \<Longrightarrow> timer_typed (nextElem (connPool s)) t"
  using assms by (auto simp: map_typed_def)

lemma map_typed_pool:
  "map_typed s \<Longrightarrow> pool_typed (nextContainer s) cp \<Longrightarrow> nextElem cp = nextElem (connPool s) \<Longrightarrow> map_typed (s\<lparr>connPool := cp\<rparr>)"
  by (simp add: map_typed_def)

lemma map_typed_other [simp]:
  "map_typed (upd_container c f s) = map_typed s" "map_typed (s\<lparr>crcFluxUsageMap := u\<rparr>) = map_typed s"
  "map_typed (s\<lparr>crc2conn := m\<rparr>) = map_typed s" "map_typed (s\<lparr>sent := ms\<rparr>) = map_typed s"
  by (simp_all add: map_typed_def upd_container_def)

lemma signal_typed [simp]:
  "map_typed (sendTerminationSignal cn s) = map_typed s" "nextSem (sendTerminationSignal cn s) = nextSem s"
  by (cases cn; simp add: sendTerminationSignal_def)+

lemma timers_typed:
  "map_typed s \<Longrightarrow> timer_typed (nextElem (connPool s)) t \<Longrightarrow> map_typed (s\<lparr>timers := timers s @ [t]\<rparr>)"
  "map_typed s \<Longrightarrow> map_typed (s\<lparr>timers := remove1 t (timers s)\<rparr>)"
  by (auto simp: map_typed_def dest: notin_set_remove1)

lemma register_typed:
  assumes t: "map_typed s" and r: "register conn cnt s = Ret (x, s')"
  shows "map_typed s'" and "nextElem (connPool s') = Suc (nextElem (connPool s))" "nextContainer s' = Suc (nextContainer s)"
    "nextSem s' = nextSem s"
proof -
  obtain e cp where a: "ConnPool_Add conn (nextContainer s) (connPool s) = Ret (e, cp)"
    and s': "s' = s\<lparr>containers := (containers s)(nextContainer s := cnt), nextContainer := Suc (nextContainer s), connPool := cp\<rparr>"
    using r by (auto simp: register_def Let_def)
  note A = Add_typed [OF map_typedD(1) [OF t] a]
  show "map_typed s'"
    using t A s' by (fastforce simp: map_typed_def timer_typed_def intro: valid_Suc)
  show "nextElem (connPool s') = Suc (nextElem (connPool s))" "nextContainer s' = Suc (nextContainer s)" "nextSem s' = nextSem s"
    using A s' by simp_all
qed

lemma move_typed:
  "map_typed s \<Longrightarrow> ce < nextElem (connPool s) \<Longrightarrow> rCe < nextElem (connPool s) \<Longrightarrow> Delete_move ce rCe ports s = Ret s' \<Longrightarrow>
   map_typed s' \<and> dims s' = dims s"
proof (induction ports arbitrary: s)
  case (Cons p ports)
  let ?elem = "elems (connPool s) rCe"
  obtain c where c: "e_container ?elem = Some c" using Cons.prems(4) by (auto simp: Let_def)
  let ?s1 = "upd_container c IncFluxes (s\<lparr>crc2conn := (crc2conn s)(p := Some (e_conn ?elem))\<rparr>)"
  let ?s2 = "?s1\<lparr>timers := timers ?s1 @ [\<lparr>ft_crc = p, ft_elem = rCe, ft_timeout = 500000, ft_from = Some ce\<rparr>]\<rparr>"
  have "map_typed ?s1" using Cons.prems(1) by simp
  then have "map_typed ?s2" by (rule timers_typed) (use Cons.prems(2,3) in \<open>simp add: timer_typed_def upd_container_def\<close>)
  moreover have d: "dims ?s2 = dims s" by (simp add: upd_container_def)
  moreover have "Delete_move ce rCe ports ?s2 = Ret s'" using Cons.prems(4) c by (simp add: Let_def)
  ultimately show ?case using Cons.IH [of ?s2] Cons.prems(2,3) by (simp add: upd_container_def)
qed simp

subsection \<open>Sections\<close>

abbreviation (input) typed_in :: "Crc2ConnMap \<Rightarrow> thread \<Rightarrow> bool" where
  "typed_in s th \<equiv> thread_typed (nextElem (connPool s)) (nextContainer s) (nextSem s) th"

lemma thread_typed_mono:
  "thread_typed nE nC nS th \<Longrightarrow> nE \<le> nE' \<Longrightarrow> nC \<le> nC' \<Longrightarrow> nS \<le> nS' \<Longrightarrow> thread_typed nE' nC' nS' th"
  by (cases th) (auto simp: timer_typed_def intro: valid_mono)

text \<open>What a section keeps: the types of the state and of the thread; and nothing is deallocated.\<close>

definition keeps :: "Crc2ConnMap \<Rightarrow> Crc2ConnMap \<Rightarrow> thread \<Rightarrow> bool" where
  "keeps s s' th' \<longleftrightarrow> map_typed s' \<and> typed_in s' th' \<and> nextElem (connPool s') = nextElem (connPool s)
     \<and> nextContainer s' = nextContainer s \<and> nextSem s \<le> nextSem s'"

lemma get_section_typed:
  assumes t: "map_typed s" "typed_in s th" and g: "is_get th" and r: "get_section now th s = Ret (th', s')"
  shows "keeps s s' th'"
proof (cases th)
  case (GetRead crc)
  then show ?thesis using r t map_typedD(2,3) [OF t(1)] by (auto simp: get_section_def keeps_def split: option.splits)
next
  case (GetTouch crc val container lock)
  then show ?thesis using r t by (auto simp: get_section_def keeps_def)
next
  case (GetCheck crc val container lock)
  then show ?thesis using r t by (auto simp: get_section_def keeps_def split: if_splits)
next
  case (GetNext crc)
  then show ?thesis
    using r t(1) Next_typed [OF map_typedD(1) [OF t(1)]] by (auto simp: get_section_def keeps_def intro!: map_typed_pool)
next
  case (GetAddCrc crc cpe)
  then show ?thesis
    using r t AddCrc_typed [OF map_typedD(1) [OF t(1)]] by (auto simp: get_section_def keeps_def intro!: map_typed_pool)
next
  case (GetStore crc cpe)
  have "valid (nextContainer s) (e_container (elems (connPool s) cpe))" by (rule pool_typedD [OF map_typedD(1) [OF t(1)]])
  then show ?thesis
    using GetStore r t by (auto simp: get_section_def keeps_def map_typed_def Let_def valid_Suc split: if_splits)
next
  case (GetStart crc cpe sem)
  then obtain c where c: "e_container (elems (connPool s) cpe) = Some c" using r by (auto simp: get_section_def Let_def)
  have "map_typed (upd_container c IncFluxes s)" using t(1) by simp
  from timers_typed(1) [OF this, of "\<lparr>ft_crc = crc, ft_elem = cpe, ft_timeout = fluxMaxAge s, ft_from = None\<rparr>"]
  show ?thesis using GetStart r t(2) c by (auto simp: get_section_def keeps_def Let_def timer_typed_def upd_container_def)
next
  case (GetDone cn lk)
  then show ?thesis using r t by (auto simp: get_section_def keeps_def)
qed (use g in simp_all)

lemma tick_section_typed:
  assumes t: "map_typed s" "typed_in s th" and g: "is_tick th" and r: "tick_section now th s = Ret (th', s')"
  shows "keeps s s' th'"
proof (cases th)
  case (TickRead tm)
  then show ?thesis using r t by (auto simp: tick_section_def keeps_def split: if_splits)
next
  case (TickDecide tm ts)
  then show ?thesis using r t by (auto simp: tick_section_def keeps_def upd_container_def map_typed_def split: if_splits option.splits)
next
  case (TickForget tm)
  then show ?thesis using r t by (auto simp: tick_section_def keeps_def Let_def map_typed_def split: if_splits)
next
  case (TickDone b)
  then show ?thesis using r t by (auto simp: tick_section_def keeps_def)
qed (use g in simp_all)

lemma del_section_typed:
  assumes t: "map_typed s" "typed_in s th" and g: "\<not> is_get th" "\<not> is_tick th" and r: "del_section rng th s = Ret (th', s')"
  shows "keeps s s' th'"
proof -
  note p = map_typedD(1) [OF t(1)]
  show ?thesis
  proof (cases th)
    case (DelUnlink ce)
    obtain gone cp where u: "Delete_unlink ce (connPool s) = (gone, cp)" by (cases "Delete_unlink ce (connPool s)")
    then show ?thesis
      using DelUnlink r t unlink_typed [OF p u] by (cases gone) (auto simp: del_section_def keeps_def intro!: map_typed_pool)
  next
    case (DelClose ce)
    then show ?thesis using r t close_typed [OF p] by (auto simp: del_section_def keeps_def intro!: map_typed_pool)
  next
    case (DelClear ce)
    have "pool_typed (nextContainer s) (upd_elem ce (\<lambda>e. e\<lparr>e_container := None\<rparr>) (connPool s))"
      by (rule upd_elem_typed [OF p]) (use pool_typedD [OF p] in \<open>simp add: elem_typed_def\<close>)
    then show ?thesis using DelClear r t by (auto simp: del_section_def keeps_def intro!: map_typed_pool)
  next
    case (DelNext ce)
    then show ?thesis using r t Next_typed [OF p] by (auto simp: del_section_def keeps_def intro!: map_typed_pool)
  next
    case (DelMove ce rCe)
    then have m: "Delete_move ce rCe (rng (e_ports (elems (connPool s) ce))) s = Ret s'" "th' = DelAdopt ce rCe"
      and lt: "ce < nextElem (connPool s)" "rCe < nextElem (connPool s)"
      using r t(2) by (auto simp: del_section_def split: if_splits)
    show ?thesis using move_typed [OF t(1) lt m(1)] m(2) lt by (simp add: keeps_def)
  next
    case (DelAdopt ce rCe)
    then show ?thesis
      using r t fold_AddCrc_typed [OF p, of rCe "rng (e_ports (elems (connPool s) ce))"]
      by (auto simp: del_section_def keeps_def intro!: map_typed_pool)
  next
    case (DelTerminate ce)
    then show ?thesis using r t by (auto simp: del_section_def keeps_def Let_def)
  next
    case (DelSignal ce)
    then show ?thesis using r t by (auto simp: del_section_def keeps_def Let_def)
  qed (use g r t in \<open>auto simp: del_section_def keeps_def\<close>)
qed

lemma section_typed:
  assumes "map_typed s" and "typed_in s th" and "thread_section rng now th s = Ret (th', s')"
  shows "keeps s s' th'"
  using assms get_section_typed tick_section_typed del_section_typed
  by (cases "is_get th"; cases "is_tick th") (auto simp: thread_section_def)

lemma rearm_typed:
  assumes "keeps s s' th'" and "typed_in s th"
  shows "keeps s (rearm th th' s') th'"
  using assms timers_typed(1) [of s'] by (cases "(th, th', s')" rule: rearm.cases) (auto simp: keeps_def)

subsection \<open>Preservation\<close>

lemma sys_typed_grow:
  assumes "sys_typed y" and "map_typed s" and "nextElem (connPool (sys_map y)) \<le> nextElem (connPool s)"
    and "nextContainer (sys_map y) \<le> nextContainer s" and "nextSem (sys_map y) \<le> nextSem s"
    and "\<And>th. th \<in> set ths \<Longrightarrow> th \<in> set (sys_threads y) \<or> typed_in s th"
  shows "sys_typed \<lparr>sys_map = s, sys_threads = ths\<rparr>"
  using assms thread_typed_mono [OF _ assms(3-5)] by (fastforce simp: sys_typed_def)

lemma free_step_typed:
  assumes "free_step rng y y'" and y: "sys_typed y"
  shows "sys_typed y'"
  using assms(1)
proof cases
  case (free_register conn cnt r s)
  have m: "map_typed (sys_map y)" using y by (simp add: sys_typed_def)
  have "sys_typed \<lparr>sys_map = s, sys_threads = sys_threads y\<rparr>"
    by (rule sys_typed_grow [OF y]) (use register_typed [OF m free_register(2)] in auto)
  then show ?thesis using free_register(1) by (cases y) simp
next
  case (free_run i now th s)
  have m: "map_typed (sys_map y)" and ty: "typed_in (sys_map y) (sys_threads y ! i)"
    using y nth_mem [OF free_run(2)] by (auto simp: sys_typed_def)
  have "keeps (sys_map y) (rearm (sys_threads y ! i) th s) th" by (rule rearm_typed [OF section_typed [OF m ty free_run(3)] ty])
  then show ?thesis unfolding free_run(1)
    using set_update_subset_insert [of "sys_threads y" i th]
    by (intro sys_typed_grow [OF y]) (auto simp: keeps_def)
qed (use y in \<open>auto simp: sys_typed_def intro: timers_typed dest: map_typedD(4)\<close>)

lemma free_reachable_typed: "free_reachable rng age y \<Longrightarrow> sys_typed y"
proof (induction rule: free_reachable.induct)
  case free_init
  show ?case
    by (simp add: sys_typed_def NewSys_def map_typed_def NewCrc2ConnMap_def pool_typed_def NewConnPool_def elem_typed_def nil_elem_def)
qed (rule free_step_typed)

text \<open>The steps of \<open>Flow_Threads\<close> are among these.\<close>

lemma sys_reachable_free: "sys_reachable rng age y \<Longrightarrow> free_reachable rng age y"
proof (induction rule: sys_reachable.induct)
  case (sys_next y a y')
  have "free_step rng y y'"
    using sys_next.hyps(2)
    by (cases a) (auto split: if_splits intro: free_step.intros)
  then show ?case by (rule free_next [OF sys_next.IH])
qed (rule free_init)

text \<open>The outcomes of a section: it never waits and never ends the process.\<close>

lemma Delete_move_outcome: "Delete_move ce rCe ports s \<in> insert (Panic NilDereference) (range Ret)"
proof (induction ports arbitrary: s)
  case (Cons p ports)
  then show ?case by (cases "e_container (elems (connPool s) rCe)") (simp_all add: Let_def)
qed simp

lemma section_outcome: "thread_section rng now th s \<in> {Panic NilDereference, Panic CloseOfClosedChannel} \<union> range Ret"
proof (cases th)
  case (DelMove ce rCe)
  then show ?thesis
    using Delete_move_outcome [of ce rCe "rng (e_ports (elems (connPool s) ce))" s] by (auto simp: sections)
next
  case (DelUnlink ce)
  then show ?thesis by (cases "Delete_unlink ce (connPool s)") (auto simp: sections split: bool.splits)
qed (auto simp: sections Get_hit_def ConnPool_Next_def Delete_close_def deref_def Let_def split: option.splits)

section \<open>Properties\<close>



end
