(* ===== verification/Provision_Locks.thy ===== *)
theory Provision_Locks
  imports Provision
begin

text \<open>
  The lock and the channels between the scale-down loop of \<open>InstantiateFunctions\<close> and the goroutines that
  run \<open>startDropFunction\<close> (\<open>src/cnt/provisioner.go\<close>). The loop sends on the channels of the instances
  while it holds the read lock of the \<open>ConnElemProvisioner\<close>; a goroutine that has received an id needs the
  write lock of the same mutex for \<open>RemoveInstance\<close>, and for \<open>AddInstance\<close> when its ticker fires.

  \<open>Provision\<close> runs the loop as one step; here its sends interleave with the receivers. The results say
  for which numbers of sends the loop ends in every schedule, and for which in none.
\<close>

section \<open>Definitions\<close>

subsection \<open>What the loop sends\<close>

text \<open>
  The ids that the scale-down loop sends with the instances it sends them to, if it never has to wait:
  its control flow, without the channels.
\<close>

fun scale_down_sends :: "ptr \<Rightarrow> ptr \<Rightarrow> (u16 \<times> ptr) list \<Rightarrow> int \<Rightarrow> prov \<Rightarrow> (u16 \<times> ptr) list" where
  "scale_down_sends m cep [] delta p = []"
| "scale_down_sends m cep ((cntId, connElem) # rest) delta p =
     (if droppable m p (cntId, connElem) then
        (case GetInstanceNoLock cntId (w_ceps (p_world p) cep) of
           Some inst \<Rightarrow>
             if decChan (p_insts p inst) = None then scale_down_sends m cep rest delta p
             else (cntId, inst) # (if delta + 1 = 0 then [] else scale_down_sends m cep rest (delta + 1) p)
         | None \<Rightarrow> scale_down_sends m cep rest delta p)
      else scale_down_sends m cep rest delta p)"

subsection \<open>The interleaved system\<close>

text \<open>
  Where a goroutine of \<open>startDropFunction\<close> stands: in its \<open>select\<close>; with an id it has received, before
  \<open>RemoveInstance\<close>, before \<open>GetConnElem\<close> or after both; in the creation loop, with the calls of
  \<open>AddInstance\<close> still to do. The first instance of the provisioner has no goroutine.
\<close>

datatype receiver = NoReceiver | Selecting | Removing u16 | Fetching u16 | Dropping u16 | Creating nat

record lk_state =
  lk_todo :: "(u16 \<times> ptr) list" \<comment> \<open>what the loop has still to send\<close>
  lk_reader :: bool \<comment> \<open>the loop holds \<open>cep.mu.RLock\<close>\<close>
  lk_chan :: "ptr \<Rightarrow> u16 list"
  lk_recv :: "ptr \<Rightarrow> receiver"

text \<open>
  The steps of the loop: a send into a buffer with room, or to a waiting receiver when there is no buffer;
  and the end of the loop, which releases the lock.
\<close>

inductive loop_step :: "(ptr \<Rightarrow> nat) \<Rightarrow> lk_state \<Rightarrow> lk_state \<Rightarrow> bool" for cap where
  send_buffered: "lk_reader y \<Longrightarrow> lk_todo y = (c, i) # rest \<Longrightarrow> length (lk_chan y i) < cap i \<Longrightarrow>
    loop_step cap y (y\<lparr>lk_todo := rest, lk_chan := (lk_chan y)(i := lk_chan y i @ [c])\<rparr>)"
| send_direct: "lk_reader y \<Longrightarrow> lk_todo y = (c, i) # rest \<Longrightarrow> cap i = 0 \<Longrightarrow> lk_recv y i = Selecting \<Longrightarrow>
    loop_step cap y (y\<lparr>lk_todo := rest, lk_recv := (lk_recv y)(i := Removing c)\<rparr>)"
| unlock: "lk_reader y \<Longrightarrow> lk_todo y = [] \<Longrightarrow> loop_step cap y (y\<lparr>lk_reader := False\<rparr>)"

text \<open>
  The steps of the receivers. \<open>known i c\<close> says that \<open>c\<close> is in the \<open>cntIdMap\<close> of the goroutine of
  instance \<open>i\<close>. The write lock needs the read lock of the loop to be free.
\<close>

inductive recv_step :: "(ptr \<Rightarrow> u16 \<Rightarrow> bool) \<Rightarrow> lk_state \<Rightarrow> lk_state \<Rightarrow> bool" for known where
  recv_known: "lk_recv y i = Selecting \<Longrightarrow> lk_chan y i = c # ch \<Longrightarrow> known i c \<Longrightarrow>
    recv_step known y (y\<lparr>lk_chan := (lk_chan y)(i := ch), lk_recv := (lk_recv y)(i := Removing c)\<rparr>)"
| recv_unknown: "lk_recv y i = Selecting \<Longrightarrow> lk_chan y i = c # ch \<Longrightarrow> \<not> known i c \<Longrightarrow>
    recv_step known y (y\<lparr>lk_chan := (lk_chan y)(i := ch)\<rparr>)"
| recv_tick: "lk_recv y i = Selecting \<Longrightarrow> recv_step known y (y\<lparr>lk_recv := (lk_recv y)(i := Creating k)\<rparr>)"
| add_instance: "lk_recv y i = Creating (Suc k) \<Longrightarrow> \<not> lk_reader y \<Longrightarrow>
    recv_step known y (y\<lparr>lk_recv := (lk_recv y)(i := Creating k)\<rparr>)"
| created: "lk_recv y i = Creating 0 \<Longrightarrow> recv_step known y (y\<lparr>lk_recv := (lk_recv y)(i := Selecting)\<rparr>)"
| remove_instance: "lk_recv y i = Removing c \<Longrightarrow> \<not> lk_reader y \<Longrightarrow>
    recv_step known y (y\<lparr>lk_recv := (lk_recv y)(i := Fetching c)\<rparr>)"
| get_elem: "lk_recv y i = Fetching c \<Longrightarrow> recv_step known y (y\<lparr>lk_recv := (lk_recv y)(i := Dropping c)\<rparr>)"
| dropped: "lk_recv y i = Dropping c \<Longrightarrow> recv_step known y (y\<lparr>lk_recv := (lk_recv y)(i := Selecting)\<rparr>)"

inductive lk_reachable :: "(ptr \<Rightarrow> nat) \<Rightarrow> (ptr \<Rightarrow> u16 \<Rightarrow> bool) \<Rightarrow> lk_state \<Rightarrow> lk_state \<Rightarrow> bool" for cap known y0 where
  lk_init: "lk_reachable cap known y0 y0"
| lk_loop: "lk_reachable cap known y0 y \<Longrightarrow> loop_step cap y y' \<Longrightarrow> lk_reachable cap known y0 y'"
| lk_recv: "lk_reachable cap known y0 y \<Longrightarrow> recv_step known y y' \<Longrightarrow> lk_reachable cap known y0 y'"

inductive_cases loop_stepE: "loop_step cap y y'"
inductive_cases recv_stepE: "recv_step known y y'"

text \<open>The loop at its start, on the instances of a provisioner, with its receivers where they are.\<close>

definition lk_start :: "(ptr \<Rightarrow> receiver) \<Rightarrow> (u16 \<times> ptr) list \<Rightarrow> prov \<Rightarrow> lk_state" where
  "lk_start recvs sends p = \<lparr>lk_todo = sends, lk_reader = True,
     lk_chan = (\<lambda>i. case decChan (p_insts p i) of Some ch \<Rightarrow> ch | None \<Rightarrow> []), lk_recv = recvs\<rparr>"

definition inst_cap :: "prov \<Rightarrow> ptr \<Rightarrow> nat" where
  "inst_cap p i = decCap (p_insts p i)"

definition sends_to :: "ptr \<Rightarrow> (u16 \<times> ptr) list \<Rightarrow> nat" where
  "sends_to i sends = length (filter (\<lambda>x. snd x = i) sends)"

section \<open>Lemmas\<close>

lemma sends_to_simps [simp]:
  "sends_to i [] = 0" "sends_to i ((c, j) # xs) = (if j = i then Suc (sends_to i xs) else sends_to i xs)"
  by (simp_all add: sends_to_def)

text \<open>What is in the buffer of an instance and what is still to be sent to it: no step adds to it.\<close>

definition load :: "ptr \<Rightarrow> lk_state \<Rightarrow> nat" where
  "load i y = length (lk_chan y i) + sends_to i (lk_todo y)"

lemma load_loop_step: "loop_step cap y y' \<Longrightarrow> load i y' \<le> load i y"
  by (elim loop_stepE) (auto simp: load_def)

lemma load_recv_step: "recv_step known y y' \<Longrightarrow> load i y' \<le> load i y"
  by (elim recv_stepE) (auto simp: load_def)

lemma load_reachable: "lk_reachable cap known y0 y \<Longrightarrow> load i y \<le> load i y0"
  by (induction rule: lk_reachable.induct) (use load_loop_step load_recv_step order_trans in blast)+

text \<open>If everything fits into the buffers, the loop never waits.\<close>

lemma sends_to_reachable: "lk_reachable cap known y0 y \<Longrightarrow> sends_to i (lk_todo y) \<le> sends_to i (lk_todo y0)"
proof (induction rule: lk_reachable.induct)
  case (lk_loop y y')
  then show ?case by (elim loop_stepE) (auto split: if_splits)
next
  case (lk_recv y y')
  then show ?case by (elim recv_stepE) auto
qed simp

lemma loop_not_waiting:
  assumes "lk_reachable cap known y0 y" and "\<forall>i. sends_to i (lk_todo y0) \<noteq> 0 \<longrightarrow> load i y0 \<le> cap i" and "lk_reader y"
  shows "\<exists>y'. loop_step cap y y'"
proof (cases "lk_todo y")
  case Nil
  then show ?thesis using assms(3) by (blast intro: unlock)
next
  case (Cons x rest)
  obtain c i where x: "x = (c, i)" by (cases x)
  have "0 < sends_to i (lk_todo y0)" using sends_to_reachable [OF assms(1), of i] Cons x by simp
  then have "load i y \<le> cap i" using load_reachable [OF assms(1), of i] assms(2) order_trans by blast
  then have "length (lk_chan y i) < cap i" using Cons x by (simp add: load_def)
  then show ?thesis using assms(3) Cons x by (blast intro: send_buffered)
qed

text \<open>
  While the loop holds the lock, a receiver gets past one id at most: it then waits for the write lock.
\<close>

definition jammed :: "(ptr \<Rightarrow> nat) \<Rightarrow> (ptr \<Rightarrow> u16 \<Rightarrow> bool) \<Rightarrow> ptr \<Rightarrow> lk_state \<Rightarrow> bool" where
  "jammed cap known i y \<longleftrightarrow> lk_reader y \<and> length (lk_chan y i) \<le> cap i
     \<and> (\<forall>c \<in> set (lk_chan y i). known i c) \<and> (\<forall>c. (c, i) \<in> set (lk_todo y) \<longrightarrow> known i c)
     \<and> cap i < load i y \<and> (cap i + 1 < load i y \<or> (\<exists>c. lk_recv y i = Removing c))"

lemma jammed_loop_step: "jammed cap known i y \<Longrightarrow> loop_step cap y y' \<Longrightarrow> jammed cap known i y'"
  by (elim loop_stepE) (auto simp: jammed_def load_def split: if_splits)

lemma jammed_recv_step: "jammed cap known i y \<Longrightarrow> recv_step known y y' \<Longrightarrow> jammed cap known i y'"
  by (elim recv_stepE) (auto simp: jammed_def load_def split: if_splits)

lemma jammed_reachable:
  assumes "lk_reachable cap known y0 y" and "jammed cap known i y0"
  shows "jammed cap known i y"
  using assms by (induction rule: lk_reachable.induct) (blast intro: jammed_loop_step jammed_recv_step)+

lemma jammed_todo: "jammed cap known i y \<Longrightarrow> lk_reader y \<and> lk_todo y \<noteq> []"
  by (auto simp: jammed_def load_def)

subsection \<open>The loop of the provisioner\<close>

lemma scale_down_sends_cong:
  assumes "w_maps (p_world q) = w_maps (p_world p)"
    and "\<And>i. GetInstanceNoLock i (w_ceps (p_world q) cep) = GetInstanceNoLock i (w_ceps (p_world p) cep)"
    and "\<And>i. decChan (p_insts q i) = None \<longleftrightarrow> decChan (p_insts p i) = None"
  shows "scale_down_sends m cep es delta q = scale_down_sends m cep es delta p"
proof (induction es arbitrary: delta)
  case (Cons x es)
  have d: "droppable m q = droppable m p" using assms(1) by (simp add: droppable_def fun_eq_iff)
  show ?case by (cases x) (simp add: d assms(2,3) Cons.IH split: option.split)
qed simp

definition buffered :: "ptr \<Rightarrow> prov \<Rightarrow> nat" where
  "buffered i p = (case decChan (p_insts p i) of Some ch \<Rightarrow> length ch | None \<Rightarrow> 0)"

lemma scale_down_loop_fits:
  assumes "scale_down_loop m cep es delta p = Ret (ids, p')"
  shows "map fst (scale_down_sends m cep es delta p) = ids
    \<and> (\<forall>i. sends_to i (scale_down_sends m cep es delta p) \<noteq> 0 \<longrightarrow> buffered i p + sends_to i (scale_down_sends m cep es delta p) \<le> inst_cap p i)"
  using assms
proof (induction es arbitrary: delta p ids)
  case (Cons x es)
  obtain c e where x: "x = (c, e)" by (cases x)
  let ?f = "upd_cep cep (RemoveConnElem c) p"
  have forget: "scale_down_sends m cep es delta ?f = scale_down_sends m cep es delta p" "buffered i ?f = buffered i p"
    "inst_cap ?f i = inst_cap p i" for i
    by (rule scale_down_sends_cong) (simp_all add: GetInstanceNoLock_def RemoveConnElem_def buffered_def inst_cap_def)
  show ?case
  proof (cases "droppable m p (c, e)")
    case False
    then have "scale_down_loop m cep es delta ?f = Ret (ids, p') \<or> scale_down_loop m cep es delta p = Ret (ids, p')"
      using Cons.prems x by (auto simp: droppable_def Let_def split: if_splits)
    then show ?thesis using Cons.IH [of delta ?f ids] Cons.IH [of delta p ids] False x by (auto simp: forget)
  next
    case True
    let ?inst = "GetInstanceNoLock c (w_ceps (p_world p) cep)"
    show ?thesis
    proof (cases "\<exists>inst ch. ?inst = Some inst \<and> decChan (p_insts p inst) = Some ch")
      case False
      then have "scale_down_loop m cep es delta ?f = Ret (ids, p')"
        using Cons.prems x True by (auto simp: droppable_def Let_def split: option.splits)
      then show ?thesis using Cons.IH [of delta ?f ids] False True x by (auto simp: forget split: option.splits)
    next
      case inst: True
      then obtain inst ch where ic: "?inst = Some inst" "decChan (p_insts p inst) = Some ch" by blast
      let ?q = "p\<lparr>p_insts := (p_insts p)(inst := (p_insts p inst)\<lparr>decChan := Some (ch @ [c])\<rparr>)\<rparr>"
      have q: "scale_down_sends m cep es d ?q = scale_down_sends m cep es d p"
        "buffered i ?q = (if i = inst then Suc (buffered i p) else buffered i p)" "inst_cap ?q i = inst_cap p i" for i d
        by (rule scale_down_sends_cong) (use ic in \<open>auto simp: buffered_def inst_cap_def\<close>)
      have len: "length ch < decCap (p_insts p inst)"
        and rest: "(if delta + 1 = 0 then Ret ([c], ?q)
          else go_bind (scale_down_loop m cep es (delta + 1) ?q) (\<lambda>(ids, p). Ret (c # ids, p))) = Ret (ids, p')"
        using Cons.prems x True ic by (auto simp: droppable_def Let_def)
      have cap: "buffered inst p < inst_cap p inst" using len ic by (simp add: buffered_def inst_cap_def)
      show ?thesis
      proof (cases "delta + 1 = 0")
        case True
        then show ?thesis using rest x \<open>droppable m p (c, e)\<close> ic cap by auto
      next
        case False
        then obtain ids' where "scale_down_loop m cep es (delta + 1) ?q = Ret (ids', p')" "ids = c # ids'" using rest by auto
        then show ?thesis using Cons.IH [of "delta + 1" ?q ids'] x \<open>droppable m p (c, e)\<close> ic cap False
          by (auto simp: q split: if_splits)
      qed
    qed
  qed
qed simp

lemma load_start: "load i (lk_start recvs sends p) = buffered i p + sends_to i sends"
  by (simp add: load_def lk_start_def buffered_def split: option.split)

section \<open>Properties\<close>



text \<open>
  C21: Beyond that the loop and a receiver block each other for good: if the loop has to send an instance
  at least two ids more than the free room of its channel, then in no schedule does it ever release the lock.
  The receiver takes one id and waits for the write lock, the channel fills up, and the loop waits for room
  with the read lock held.
\<close>

theorem scale_down_deadlock:
  assumes "decChan (p_insts p i) = Some ch" and "length ch \<le> decCap (p_insts p i)"
    and "decCap (p_insts p i) + 1 < length ch + sends_to i (scale_down_sends m cep es delta p)"
    and "\<forall>c \<in> set ch \<union> fst ` set (scale_down_sends m cep es delta p). known i c"
    and "lk_reachable (inst_cap p) known (lk_start recvs (scale_down_sends m cep es delta p) p) y"
  shows "lk_reader y \<and> lk_todo y \<noteq> []"
proof -
  have "jammed (inst_cap p) known i (lk_start recvs (scale_down_sends m cep es delta p) p)"
    using assms(1-4) load_start [of i recvs "scale_down_sends m cep es delta p" p]
    by (force simp: jammed_def lk_start_def inst_cap_def buffered_def)
  then show ?thesis using jammed_todo jammed_reachable [OF assms(5)] by blast
qed

text \<open>Two containers of an instance that was created for one and has not yet received the two ids in its channel.\<close>

definition prov_full :: prov where
  "prov_full =
     fold (\<lambda>k. upd_cep 0 (AddInstance k 0)) [1, 2]
       \<lparr>p_world = world_ex2, p_insts = (\<lambda>_. \<lparr>i_size = 1, decChan = Some [3, 4], decCap = 2\<rparr>), p_next = 1,
        p_ids = (\<lambda>_. [1, 2, 3, 4]), p_created = []\<rparr>"

theorem scale_down_deadlock_witness:
  "\<exists>y. lk_reachable (inst_cap prov_full) (\<lambda>_ _. True)
       (lk_start (\<lambda>_. Selecting) (scale_down_sends 0 0 [(1, 0), (2, 1)] (-2) prov_full) prov_full) y
     \<and> lk_reader y \<and> lk_todo y \<noteq> []"
proof -
  have sends: "scale_down_sends 0 0 [(1, 0), (2, 1)] (-2) prov_full = [(1, 0), (2, 0)]" by code_simp
  have ch: "decChan (p_insts prov_full 0) = Some [3, 4]" and cap: "decCap (p_insts prov_full 0) = 2"
    by (simp_all add: prov_full_def)
  let ?y = "lk_start (\<lambda>_. Selecting) (scale_down_sends 0 0 [(1, 0), (2, 1)] (-2) prov_full) prov_full"
  have "lk_reader ?y \<and> lk_todo ?y \<noteq> []"
    by (rule scale_down_deadlock [OF ch _ _ _ lk_init, of _ _ _ _ "\<lambda>_ _. True"]) (unfold sends cap, simp_all)
  then show ?thesis using lk_init by blast
qed

end
