(* ===== verification/Scaling_Round.thy ===== *)
theory Scaling_Round
  imports Provision
begin

text \<open>
  A whole round of the provisioner (\<open>src/cnt/provisioner.go\<close>), from the load of the container list to the
  containers that are created or dropped: the select case of \<open>InstantiateFunctions\<close> that receives a
  delta, and the goroutines \<open>startDropFunction\<close> that then receive the ids of the containers to drop. Also
  \<open>startDropFunctionInit\<close>, which the program keeps beside it and does not start.

  The composition shows what no part shows alone: the decision leaves room for the minimum, the loop tells
  no more containers to go than that, so no receiver ever deletes the last element of the pool, where
  \<open>Delete\<close> would leave the cursor dangling.
\<close>

section \<open>Definitions\<close>

text \<open>
  The case \<open>delta := <-increment\<close>; \<open>order\<close> is the order of the range over \<open>cep.c2e\<close>, as the list of its
  entries. The result lists the ids that were told to go.
\<close>

definition InstantiateFunctions_delta :: "ptr \<Rightarrow> ptr \<Rightarrow> (nat \<Rightarrow> nat) \<Rightarrow> (u16 \<times> ptr) list \<Rightarrow> int \<Rightarrow> prov \<Rightarrow> (u16 list \<times> prov) go" where
  "InstantiateFunctions_delta m cep rand order delta p =
     (if delta > 0 then
        (case scale_up delta p of (inst, p) \<Rightarrow> Ret ([], startDropFunction_start cep inst rand p))
      else if delta < 0 then scale_down_loop m cep order delta p
      else Ret ([], p))"

text \<open>One check: the value \<open>HandleScaling\<close> sends, received by \<open>InstantiateFunctions\<close>.\<close>

definition scaling_round :: "Provisioner \<Rightarrow> (nat \<Rightarrow> nat) \<Rightarrow> (u16 \<times> ptr) list \<Rightarrow> prov \<Rightarrow> (u16 list \<times> prov) go" where
  "scaling_round pr rand order p =
     go_bind (HandleScaling_tick (containers (w_maps (p_world p) 0)) (w_lists (p_world p) 0) pr) (\<lambda>delta.
     InstantiateFunctions_delta 0 0 rand order delta p)"

text \<open>A sequence of receives, by the instances whose goroutines receive.\<close>

fun serve :: "(u16 list \<Rightarrow> u16 list) \<Rightarrow> ptr list \<Rightarrow> prov \<Rightarrow> prov go" where
  "serve rng [] p = Ret p"
| "serve rng (inst # is) p = go_bind (startDropFunction_dec rng 0 0 inst p) (serve rng is)"

text \<open>
  \<open>startDropFunctionInit\<close> reads the size of its instance once; each tick of its ticker creates that many
  replicas.
\<close>

definition startDropFunctionInit_tick :: "int \<Rightarrow> ptr \<Rightarrow> ptr \<Rightarrow> (nat \<Rightarrow> nat) \<Rightarrow> prov \<Rightarrow> prov" where
  "startDropFunctionInit_tick min_cnt cep inst rand p = create_loop True ''1'' cep inst (map rand [0..<nat min_cnt]) p"

definition startDropFunctionInit :: "ptr \<Rightarrow> ptr \<Rightarrow> (nat \<Rightarrow> nat) list \<Rightarrow> prov \<Rightarrow> prov" where
  "startDropFunctionInit cep inst rands p =
     (let min_cnt = i_size (p_insts p inst) in fold (startDropFunctionInit_tick min_cnt cep inst) rands p)"

section \<open>Lemmas\<close>

subsection \<open>What the scale-down loop leaves behind\<close>

text \<open>Forgetting an element and filling channels keep the world consistent.\<close>

lemma world_inv_forget: "world_inv (p_world p) xs \<Longrightarrow> world_inv (p_world (upd_cep 0 (RemoveConnElem i) p)) xs"
  by (auto simp: world_inv_def upd_cep_def RemoveConnElem_def split: if_splits)

definition chan_ids :: "prov \<Rightarrow> ptr \<Rightarrow> u16 set" where
  "chan_ids p inst = (case decChan (p_insts p inst) of None \<Rightarrow> {} | Some ch \<Rightarrow> set ch)"

lemma chan_ids_forget [simp]: "chan_ids (upd_cep cep f p) = chan_ids p"
  by (simp add: chan_ids_def fun_eq_iff)

lemma chan_ids_send:
  "decChan (p_insts p j) = Some ch \<Longrightarrow>
   chan_ids (p\<lparr>p_insts := (p_insts p)(j := (p_insts p j)\<lparr>decChan := Some (ch @ [i])\<rparr>)\<rparr>) inst \<subseteq> insert i (chan_ids p inst)"
  by (auto simp: chan_ids_def)

lemma scale_down_frame:
  assumes "scale_down_loop 0 0 es delta p = Ret (ids, p')" and "world_inv (p_world p) xs" and "distinct (map fst es)"
  shows "world_inv (p_world p') xs \<and> (\<forall>inst. chan_ids p' inst \<subseteq> set ids \<union> chan_ids p inst)
    \<and> (\<forall>i. i \<in> set ids \<or> i \<notin> fst ` set es \<longrightarrow> c2e (w_ceps (p_world p') 0) i = c2e (w_ceps (p_world p) 0) i)
    \<and> set ids \<subseteq> fst ` set es"
  using assms
proof (induction es arbitrary: delta p ids)
  case Nil
  then show ?case by auto
next
  case (Cons x es)
  obtain i e where x: "x = (i, e)" by (cases x)
  let ?F = "upd_cep 0 (RemoveConnElem i) p"
  have d: "distinct (map fst es)" "i \<notin> fst ` set es" using Cons.prems(3) x by auto
  have forget: ?case if s: "scale_down_loop 0 0 es delta ?F = Ret (ids, p')"
  proof -
    note IH = Cons.IH [OF s world_inv_forget [OF Cons.prems(2)] d(1)]
    have "i \<notin> set ids" using IH d(2) by blast
    then show ?thesis using IH d(2) x by (auto simp: RemoveConnElem_def)
  qed
  have skip: ?case if s: "scale_down_loop 0 0 es delta p = Ret (ids, p')"
    using Cons.IH [OF s Cons.prems(2) d(1)] x by auto
  show ?case
  proof (cases "droppable 0 p x")
    case False
    then have "scale_down_loop 0 0 es delta ?F = Ret (ids, p') \<or> scale_down_loop 0 0 es delta p = Ret (ids, p')"
      using Cons.prems(1) x by (auto simp: Let_def droppable_def split: if_splits)
    then show ?thesis using forget skip by blast
  next
    case True
    let ?i = "GetInstanceNoLock i (w_ceps (p_world p) 0)"
    show ?thesis
    proof (cases "\<exists>inst ch. ?i = Some inst \<and> decChan (p_insts p inst) = Some ch")
      case False
      then have "scale_down_loop 0 0 es delta ?F = Ret (ids, p')"
        using True Cons.prems(1) x by (auto simp: Let_def droppable_def split: option.splits)
      then show ?thesis by (rule forget)
    next
      case ex: True
      then obtain inst ch where ic: "?i = Some inst" "decChan (p_insts p inst) = Some ch" by blast
      let ?p1 = "p\<lparr>p_insts := (p_insts p)(inst := (p_insts p inst)\<lparr>decChan := Some (ch @ [i])\<rparr>)\<rparr>"
      have sent: "\<forall>j. chan_ids ?p1 j \<subseteq> insert i (chan_ids p j)" using chan_ids_send [OF ic(2)] by blast
      have res: "(if delta + 1 = 0 then Ret ([i], ?p1)
          else go_bind (scale_down_loop 0 0 es (delta + 1) ?p1) (\<lambda>(ids, p). Ret (i # ids, p))) = Ret (ids, p')"
        using True ic Cons.prems(1) x by (auto simp: Let_def droppable_def)
      show ?thesis
      proof (cases "delta + 1 = 0")
        case True
        then have r: "ids = [i]" "p' = ?p1" using res by auto
        show ?thesis unfolding r using sent Cons.prems(2) x by simp
      next
        case False
        then obtain ids' where s: "scale_down_loop 0 0 es (delta + 1) ?p1 = Ret (ids', p')" "ids = i # ids'"
          using res by auto
        have "world_inv (p_world ?p1) xs" using Cons.prems(2) by simp
        note IH = Cons.IH [OF s(1) this d(1)]
        have "chan_ids p' j \<subseteq> set ids \<union> chan_ids p j" for j
        proof -
          have "chan_ids p' j \<subseteq> set ids' \<union> chan_ids ?p1 j" using IH by blast
          also have "\<dots> \<subseteq> set ids' \<union> insert i (chan_ids p j)" by (rule Un_mono [OF subset_refl spec [OF sent]])
          finally show ?thesis using s(2) by simp
        qed
        then show ?thesis using IH s(2) d(2) x by auto
      qed
    qed
  qed
qed

subsection \<open>Receives\<close>

lemma drop_registration_c2e:
  "drop_registration rng m 0 i w = Ret w' \<Longrightarrow> c2e (w_ceps w' 0) = c2e (w_ceps w 0)"
  by (auto simp: drop_registration_def GetConnElem_def RemoveInstance_def Let_def split: option.splits)

lemma dec_c2e:
  assumes "startDropFunction_dec rng 0 0 inst p = Ret p'"
  shows "c2e (w_ceps (p_world p') 0) = c2e (w_ceps (p_world p) 0)" and "chan_ids p' j \<subseteq> chan_ids p j"
  using assms
  by (auto simp: startDropFunction_dec_def Let_def chan_ids_def dest!: drop_registration_c2e split: option.splits if_splits)

lemma ring_not_alone:
  assumes r: "ring cp xs" and e: "e < nextElem cp" and two: "2 \<le> length xs"
  shows "e_next (elems cp e) \<noteq> Some e"
proof (cases "e \<in> set xs")
  case True
  then obtain k where k: "k < length xs" "e = xs ! k" by (auto simp: in_set_conv_nth)
  let ?n = "Suc k mod length xs"
  have "(e, xs ! ?n) \<in> ring_pairs xs" using k by (auto simp: ring_pairs_nth)
  then have nx: "e_next (elems cp e) = Some (xs ! ?n)" using r by (auto simp: ring_def links_def)
  have "?n \<noteq> k" using k(1) two by (cases "Suc k = length xs") auto
  moreover have "?n < length xs" by (rule mod_less_divisor) (use k(1) in auto)
  ultimately have "xs ! ?n \<noteq> e" using k r by (auto simp: ring_def nth_eq_iff_index_eq)
  then show ?thesis using nx by simp
next
  case False
  then show ?thesis using r e by (simp add: ring_def dead_def)
qed

lemma serve_step:
  assumes inv: "world_inv (p_world p) xs" and two: "2 \<le> length xs" and rng: "range_order rng"
    and ids: "chan_ids p inst \<subseteq> dom (c2e (w_ceps (p_world p) 0))"
  shows "startDropFunction_dec rng 0 0 inst p = Block \<or>
    (\<exists>p' ys. startDropFunction_dec rng 0 0 inst p = Ret p' \<and> world_inv (p_world p') ys \<and> length xs \<le> Suc (length ys))"
proof (cases "decChan (p_insts p inst)")
  case None
  then show ?thesis by (simp add: startDropFunction_dec_def)
next
  case (Some ch)
  show ?thesis
  proof (cases ch)
    case Nil
    then show ?thesis using Some by (simp add: startDropFunction_dec_def)
  next
    case (Cons i ch')
    then obtain e where e: "c2e (w_ceps (p_world p) 0) i = Some e" using ids Some by (auto simp: chan_ids_def)
    have r: "ring (connPool (w_maps (p_world p) 0)) xs"
      using agreeD(1) [OF world_invD(1) [OF inv]] by (simp add: c2c_inv_def)
    have more: "\<not> only_member e (p_world p)"
      using ring_not_alone [OF r _ two] world_invD(3) [OF inv e] by (simp add: only_member_def)
    obtain w where w: "drop_registration rng 0 0 i (p_world p) = Ret w" "world_inv w (members_without e xs)"
      using drop_registration_inv [OF inv e more rng] by blast
    have "length xs \<le> Suc (length (members_without e xs))" by (auto simp: members_without_def length_remove1)
    then show ?thesis
      using w inv Some Cons
      by (cases "i \<in> set (p_ids p inst)") (auto simp: startDropFunction_dec_def Let_def)
  qed
qed

lemma serve_keeps:
  assumes "world_inv (p_world p) xs" and "length is < length xs" and "range_order rng"
    and "\<forall>inst. chan_ids p inst \<subseteq> dom (c2e (w_ceps (p_world p) 0))"
  shows "serve rng is p = Block \<or>
    (\<exists>p' ys. serve rng is p = Ret p' \<and> world_inv (p_world p') ys \<and> length xs \<le> length is + length ys)"
  using assms
proof (induction "is" arbitrary: p xs)
  case (Cons j js)
  have two: "2 \<le> length xs" using Cons.prems(2) by simp
  from serve_step [OF Cons.prems(1) two Cons.prems(3)] Cons.prems(4)
  consider "startDropFunction_dec rng 0 0 j p = Block"
    | p1 ys where "startDropFunction_dec rng 0 0 j p = Ret p1" "world_inv (p_world p1) ys" "length xs \<le> Suc (length ys)" by blast
  then show ?case
  proof cases
    case 2
    have ids: "\<forall>inst. chan_ids p1 inst \<subseteq> dom (c2e (w_ceps (p_world p1) 0))"
      using dec_c2e [OF 2(1)] Cons.prems(4) by (metis subset_trans)
    have "length js < length ys" using 2(3) Cons.prems(2) by simp
    from Cons.IH [OF 2(2) this Cons.prems(3) ids] show ?thesis
    proof
      assume "\<exists>p' zs. serve rng js p1 = Ret p' \<and> world_inv (p_world p') zs \<and> length ys \<le> length js + length zs"
      then obtain p' zs where "serve rng js p1 = Ret p'" "world_inv (p_world p') zs" "length ys \<le> length js + length zs" by blast
      then show ?thesis using 2(1,3) by (auto intro!: exI [of _ zs])
    qed (simp add: 2(1))
  qed simp
qed auto

subsection \<open>Creation\<close>

lemma world_inv_create:
  "world_inv (p_world p) xs \<Longrightarrow> world_inv (p_world (create_loop rem repl 0 inst rs p)) xs"
proof (induction rs arbitrary: p)
  case (Cons r rs)
  have "world_inv (p_world (upd_cep 0 (AddInstance (rand_id r) inst) q)) xs" if "p_world q = p_world p" for q
    using Cons.prems that by (auto simp: world_inv_def upd_cep_def AddInstance_def)
  then show ?case using Cons.IH by (simp add: Let_def)
qed simp

lemma init_ticks:
  "p_created (fold (startDropFunctionInit_tick k cep inst) rands p) =
     p_created p @ concat (map (\<lambda>rand. map (\<lambda>j. (rand_id (rand j), ''1'')) [0..<nat k]) rands)"
  by (induction rands arbitrary: p) (simp_all add: startDropFunctionInit_tick_def create_loop_effect(1) comp_def)

section \<open>Properties\<close>


text \<open>Two idle containers, the first of them owned by an instance with a buffered channel.\<close>

definition prov_ex3 :: prov where
  "prov_ex3 = prov_ex2\<lparr>p_world := world_ex2\<lparr>w_ceps := (w_ceps world_ex2)(0 := AddInstance 1 0 (w_ceps world_ex2 0))\<rparr>,
     p_insts := (\<lambda>_. \<lparr>i_size = 1, decChan = Some [], decCap = 2\<rparr>)\<rparr>"


text \<open>
  \<open>startDropFunctionInit\<close> creates as many replicas at every tick as its instance had at the start, whatever
  happens to the size of the instance meanwhile.
\<close>

theorem init_creates_fixed_rounds:
  "p_created (startDropFunctionInit cep inst rands p) = p_created p @
     concat (map (\<lambda>rand. map (\<lambda>j. (rand_id (rand j), ''1'')) [0..<nat (i_size (p_insts p inst))]) rands)"
  by (simp add: startDropFunctionInit_def init_ticks Let_def)

end
