(* ===== verification/Forward_Threads.thy ===== *)
theory Forward_Threads
  imports Flow_Forward "HOL-Library.Multiset"
begin

text \<open>
  The goroutines that run the forwarders of \<open>Flow_Forward\<close> concurrently: \<open>go sendToIpv2\<close> in the two
  throughput tools and \<open>go sendToContainerHelper\<close> in \<open>sendToContainer\<close> (\<open>src/cnt/handler.go\<close>).

  All three take their \<open>sync.RWMutex\<close> by value, so every goroutine locks a copy of its own and the lock
  excludes nobody: the reads, the dial and the write of the shared map interleave freely. The sections
  below are those steps. In the \<open>ip2ip\<close> tool the packet itself is shared too: the goroutine gets the slice
  \<open>buff[:size]\<close> of the buffer that the main loop reads the next packet into.
\<close>

section \<open>Definitions\<close>

subsection \<open>Sections of a forwarder\<close>

datatype fthread =
    FHash bytes
  | FLook bytes u16
  | FCheck bytes u16
  | FDial bytes u16
  | FStore bytes u16 "conn option"
  | FWrite bytes "conn option"
  | FDone

text \<open>
  \<open>hash\<close> is the package's \<open>PktCrc16\<close> and \<open>newconn\<close> what the forwarder does to open a connection.
\<close>

definition fwd_section :: "(bytes \<Rightarrow> (u16 \<times> error option) go) \<Rightarrow> (fwd \<Rightarrow> (conn option \<times> fwd) go) \<Rightarrow>
    fthread \<Rightarrow> fwd \<Rightarrow> (fthread \<times> fwd) go" where
  "fwd_section hash newconn th f =
     (case th of
        FHash pkt \<Rightarrow> go_bind (hash pkt) (\<lambda>(crc, err). Ret (if err \<noteq> None then FDone else FLook pkt crc, f))
      | FLook pkt crc \<Rightarrow> Ret (case f_conns f crc of Some conn \<Rightarrow> FWrite pkt conn | None \<Rightarrow> FCheck pkt crc, f)
      | FCheck pkt crc \<Rightarrow> Ret (case f_conns f crc of Some conn \<Rightarrow> FWrite pkt conn | None \<Rightarrow> FDial pkt crc, f)
      | FDial pkt crc \<Rightarrow> go_bind (newconn f) (\<lambda>(conn, f). Ret (FStore pkt crc conn, f))
      | FStore pkt crc conn \<Rightarrow> Ret (FWrite pkt conn, f\<lparr>f_conns := (f_conns f)(crc := Some conn)\<rparr>)
      | FWrite pkt conn \<Rightarrow> Ret (FDone, fwd_write conn pkt f)
      | FDone \<Rightarrow> Ret (FDone, f))"

text \<open>\<open>net.DialUDP\<close> with \<open>log.Fatalf\<close> on an error, and the helper's: a container from the channel, the error logged.\<close>

definition dial_or_exit :: "(bytes \<Rightarrow> int \<Rightarrow> nat \<Rightarrow> conn option) \<Rightarrow> bytes \<Rightarrow> int \<Rightarrow> fwd \<Rightarrow> (conn option \<times> fwd) go" where
  "dial_or_exit dial addr port f =
     (case dial addr port (f_dials f) of None \<Rightarrow> Exit | Some cn \<Rightarrow> Ret (Some cn, f\<lparr>f_dials := Suc (f_dials f)\<rparr>))"

definition dial_container :: "(bytes \<Rightarrow> u16 \<Rightarrow> nat \<Rightarrow> conn option) \<Rightarrow> fwd \<Rightarrow> (conn option \<times> fwd) go" where
  "dial_container dial f =
     go_bind (chan_recv (f_cnts f)) (\<lambda>((addr, port), rest).
     Ret (dial addr port (f_dials f), f\<lparr>f_cnts := rest, f_dials := Suc (f_dials f)\<rparr>))"

definition eth_section where
  "eth_section ck dial addr port = fwd_section (eth_PktCrc16 ck) (dial_or_exit dial addr port)"

definition container_section where
  "container_section ck dial = fwd_section (PktCrc16 ck) (dial_container dial)"

fun fwd_solo :: "(fthread \<Rightarrow> fwd \<Rightarrow> (fthread \<times> fwd) go) \<Rightarrow> nat \<Rightarrow> fthread \<Rightarrow> fwd \<Rightarrow> (fthread \<times> fwd) go" where
  "fwd_solo sec 0 th f = Ret (th, f)"
| "fwd_solo sec (Suc n) th f = go_bind (sec th f) (\<lambda>(th, f). fwd_solo sec n th f)"

subsection \<open>Goroutines\<close>

record fsys =
  fs_fwd :: fwd
  fs_threads :: "fthread list"
  fs_pkts :: "bytes list" \<comment> \<open>the packets received so far\<close>

datatype faction = FPacket bytes | FRun nat

text \<open>A packet arrives and gets its goroutine; or some goroutine runs its next section.\<close>

fun fexec :: "(fthread \<Rightarrow> fwd \<Rightarrow> (fthread \<times> fwd) go) \<Rightarrow> faction \<Rightarrow> fsys \<Rightarrow> fsys go" where
  "fexec sec (FPacket pkt) y = Ret (y\<lparr>fs_threads := fs_threads y @ [FHash pkt], fs_pkts := fs_pkts y @ [pkt]\<rparr>)"
| "fexec sec (FRun i) y =
     (if i < length (fs_threads y)
      then go_bind (sec (fs_threads y ! i) (fs_fwd y)) (\<lambda>(th, f).
           Ret (y\<lparr>fs_fwd := f, fs_threads := (fs_threads y)[i := th]\<rparr>))
      else Block)"

fun fexec_all :: "(fthread \<Rightarrow> fwd \<Rightarrow> (fthread \<times> fwd) go) \<Rightarrow> faction list \<Rightarrow> fsys \<Rightarrow> fsys go" where
  "fexec_all sec [] y = Ret y"
| "fexec_all sec (a # as) y = go_bind (fexec sec a y) (fexec_all sec as)"

text \<open>The loop of \<open>sendToContainer\<close>: one goroutine for each packet that the channel \<open>incPkt\<close> delivers.\<close>

fun sendToContainer :: "bytes list \<Rightarrow> fsys \<Rightarrow> fsys" where
  "sendToContainer [] y = y"
| "sendToContainer (pkt # incPkt) y =
     sendToContainer incPkt (y\<lparr>fs_threads := fs_threads y @ [FHash pkt], fs_pkts := fs_pkts y @ [pkt]\<rparr>)"

definition NewFsys :: "(bytes \<times> u16) list \<Rightarrow> fsys" where
  "NewFsys cnts = \<lparr>fs_fwd = \<lparr>f_conns = (\<lambda>_. None), f_out = [], f_dials = 0, f_cnts = cnts\<rparr>, fs_threads = [], fs_pkts = []\<rparr>"

text \<open>The packet a goroutine has still to write.\<close>

fun unsent :: "fthread \<Rightarrow> bytes multiset" where
  "unsent (FHash pkt) = {#pkt#}" | "unsent (FLook pkt _) = {#pkt#}" | "unsent (FCheck pkt _) = {#pkt#}"
| "unsent (FDial pkt _) = {#pkt#}" | "unsent (FStore pkt _ _) = {#pkt#}" | "unsent (FWrite pkt _) = {#pkt#}"
| "unsent FDone = {#}"

fun opened :: "fthread \<Rightarrow> bool" where
  "opened (FStore _ _ conn) = (conn \<noteq> None)" | "opened (FWrite _ conn) = (conn \<noteq> None)" | "opened _ = True"

section \<open>Lemmas\<close>

lemma eth_solo:
  "go_bind (fwd_solo (eth_section ck dial addr port) 6 (FHash pkt) f) (\<lambda>(th, f'). Ret f') = eth_sendToIpv2 ck dial addr port pkt f
   \<and> (\<forall>th f'. fwd_solo (eth_section ck dial addr port) 6 (FHash pkt) f = Ret (th, f') \<longrightarrow> th = FDone)"
proof (cases "eth_PktCrc16 ck pkt")
  case (Ret x)
  obtain crc err where x: "x = (crc, err)" by (cases x)
  show ?thesis
    using Ret x
    by (cases err; cases "f_conns f crc"; cases "dial addr port (f_dials f)")
      (simp_all add: numeral_eq_Suc eth_section_def fwd_section_def dial_or_exit_def eth_sendToIpv2_def Let_def)
qed (simp_all add: numeral_eq_Suc eth_section_def fwd_section_def eth_sendToIpv2_def)

lemma container_solo:
  "go_bind (fwd_solo (container_section ck dial) 6 (FHash pkt) f) (\<lambda>(th, f'). Ret f') = sendToContainerHelper ck dial pkt f"
proof (cases "PktCrc16 ck pkt")
  case (Ret x)
  obtain crc err where x: "x = (crc, err)" by (cases x)
  show ?thesis
    using Ret x
    by (cases err; cases "f_conns f crc"; cases "f_cnts f")
      (auto simp: numeral_eq_Suc container_section_def fwd_section_def dial_container_def sendToContainerHelper_def Let_def)
qed (simp_all add: numeral_eq_Suc container_section_def fwd_section_def sendToContainerHelper_def)

subsection \<open>Interleavings\<close>

text \<open>
  The contract of a forwarder's sections: what they have spent on packets (\<open>spent\<close>, read off the shared
  state) and what a goroutine still holds (\<open>held\<close>) are together related to what they were before, as long as
  the goroutines are \<open>good\<close> and the state is \<open>safe\<close>. Then the same holds of all goroutines, in every
  interleaving.
\<close>

fun arrivals :: "faction list \<Rightarrow> bytes list" where
  "arrivals [] = []"
| "arrivals (FPacket pkt # as) = pkt # arrivals as"
| "arrivals (FRun i # as) = arrivals as"

locale goroutines =
  fixes sec :: "fthread \<Rightarrow> fwd \<Rightarrow> (fthread \<times> fwd) go"
    and good :: "fthread \<Rightarrow> bool" and safe :: "fwd \<Rightarrow> bool"
    and held :: "fthread \<Rightarrow> 'm::comm_monoid_add" and spent :: "fwd \<Rightarrow> 'm" and rel :: "'m \<Rightarrow> 'm \<Rightarrow> bool"
  assumes rel_refl: "rel a a" and rel_trans: "rel a b \<Longrightarrow> rel b c \<Longrightarrow> rel a c" and rel_add: "rel a b \<Longrightarrow> rel (a + c) (b + c)"
    and sec_rel: "sec th f = Ret (th', f') \<Longrightarrow> good th \<Longrightarrow> safe f \<Longrightarrow>
      good th' \<and> safe f' \<and> rel (spent f' + held th') (spent f + held th)"
begin

lemma run_rel:
  assumes r: "fexec sec (FRun i) y = Ret y'" and good: "\<forall>th \<in> set (fs_threads y). good th" and safe: "safe (fs_fwd y)"
  shows "(\<forall>th \<in> set (fs_threads y'). good th) \<and> safe (fs_fwd y') \<and> fs_pkts y' = fs_pkts y
    \<and> rel (spent (fs_fwd y') + sum_list (map held (fs_threads y'))) (spent (fs_fwd y) + sum_list (map held (fs_threads y)))"
proof -
  let ?ths = "fs_threads y"
  have i: "i < length ?ths" using r by (auto split: if_splits)
  then obtain th f where s: "sec (?ths ! i) (fs_fwd y) = Ret (th, f)"
    and y': "y' = y\<lparr>fs_fwd := f, fs_threads := ?ths[i := th]\<rparr>" using r by auto
  note e = sec_rel [OF s bspec [OF good nth_mem [OF i]] safe]
  define rest where "rest = sum_list (map held (take i ?ths)) + sum_list (map held (drop (Suc i) ?ths))"
  have "sum_list (map held (take i ?ths @ x # drop (Suc i) ?ths)) = rest + held x" for x by (simp add: rest_def ac_simps)
  from this [of "?ths ! i"] this [of th]
  have sum: "sum_list (map held ?ths) = rest + held (?ths ! i)" "sum_list (map held (?ths[i := th])) = rest + held th"
    using i by (simp_all only: id_take_nth_drop [OF i, symmetric] upd_conv_take_nth_drop [OF i])
  have "rel (spent f + held th + rest) (spent (fs_fwd y) + held (?ths ! i) + rest)" using e by (intro rel_add) blast
  then show ?thesis
    using e good y' sum set_update_subset_insert [of ?ths i th] by (auto simp: ac_simps)
qed

lemma conserved:
  assumes "fexec_all sec as y = Ret y'" and "\<forall>th \<in> set (fs_threads y). good th" and "safe (fs_fwd y)"
    and "\<forall>pkt \<in> set (arrivals as). good (FHash pkt)"
  shows "rel (spent (fs_fwd y') + sum_list (map held (fs_threads y')))
      (spent (fs_fwd y) + sum_list (map held (fs_threads y)) + sum_list (map (\<lambda>p. held (FHash p)) (arrivals as)))
    \<and> fs_pkts y' = fs_pkts y @ arrivals as"
  using assms
proof (induction as arbitrary: y)
  case Nil
  then show ?case by (simp add: rel_refl)
next
  case (Cons a as)
  obtain y1 where y1: "fexec sec a y = Ret y1" "fexec_all sec as y1 = Ret y'" using Cons.prems(1) by auto
  show ?case
  proof (cases a)
    case (FPacket pkt)
    then have "y1 = y\<lparr>fs_threads := fs_threads y @ [FHash pkt], fs_pkts := fs_pkts y @ [pkt]\<rparr>" using y1(1) by simp
    then show ?thesis using Cons.IH [OF y1(2)] Cons.prems(2-4) FPacket by (simp add: ac_simps)
  next
    case (FRun i)
    note R = run_rel [OF y1(1) [unfolded FRun] Cons.prems(2,3)]
    have "rel (spent (fs_fwd y') + sum_list (map held (fs_threads y')))
        (spent (fs_fwd y1) + sum_list (map held (fs_threads y1)) + sum_list (map (\<lambda>p. held (FHash p)) (arrivals as)))
      \<and> fs_pkts y' = fs_pkts y1 @ arrivals as"
      using R Cons.prems(4) FRun by (intro Cons.IH [OF y1(2)]) auto
    moreover have "rel (spent (fs_fwd y1) + sum_list (map held (fs_threads y1)) + sum_list (map (\<lambda>p. held (FHash p)) (arrivals as)))
        (spent (fs_fwd y) + sum_list (map held (fs_threads y)) + sum_list (map (\<lambda>p. held (FHash p)) (arrivals as)))"
      using R by (intro rel_add) blast
    ultimately show ?thesis using R FRun rel_trans by (simp, blast)
  qed
qed

end

fun undialled :: "fthread \<Rightarrow> nat" where
  "undialled (FHash _) = 1" | "undialled (FLook _ _) = 1" | "undialled (FCheck _ _) = 1" | "undialled (FDial _ _) = 1"
| "undialled _ = 0"

fun complete :: "fthread \<Rightarrow> bool" where
  "complete (FHash pkt) = (24 \<le> length pkt)" | "complete _ = True"

lemma eth_hash: "24 \<le> length p \<Longrightarrow> eth_PktCrc16 ck p = Ret (ck (hash_input p), None)"
  by (simp add: eth_PktCrc16_def eth_fields.crc_by_length)

lemma eth_section_effect:
  assumes s: "eth_section ck dial addr port th f = Ret (th', f')" and o: "opened th" "complete th"
    and c: "\<And>crc. f_conns f crc \<noteq> Some None"
  shows "mset (map snd (f_out f')) + unsent th' = mset (map snd (f_out f)) + unsent th
    \<and> f_dials f' + undialled th' \<le> f_dials f + undialled th \<and> opened th' \<and> complete th' \<and> (\<forall>crc. f_conns f' crc \<noteq> Some None)"
proof (cases th)
  case (FHash pkt)
  then show ?thesis using s o c by (auto simp: eth_section_def fwd_section_def eth_hash)
next
  case (FLook pkt crc)
  then show ?thesis using s c [of crc] c by (cases "f_conns f crc") (auto simp: eth_section_def fwd_section_def)
next
  case (FCheck pkt crc)
  then show ?thesis using s c [of crc] c by (cases "f_conns f crc") (auto simp: eth_section_def fwd_section_def)
next
  case (FDial pkt crc)
  then show ?thesis using s c by (cases "dial addr port (f_dials f)") (auto simp: eth_section_def fwd_section_def dial_or_exit_def)
next
  case (FStore pkt crc conn)
  then show ?thesis using s o c by (auto simp: eth_section_def fwd_section_def split: if_splits)
next
  case (FWrite pkt conn)
  then show ?thesis using s o c by (auto simp: eth_section_def fwd_section_def fwd_write_def)
next
  case FDone
  then show ?thesis using s c by (auto simp: eth_section_def fwd_section_def)
qed

text \<open>The goroutines of \<open>eth2ip\<close> keep the packets, and never dial more often than there are packets.\<close>

interpretation eth_sent: goroutines "eth_section ck dial addr port" "\<lambda>th. opened th \<and> complete th"
  "\<lambda>f. \<forall>crc. f_conns f crc \<noteq> Some None" unsent "\<lambda>f. mset (map snd (f_out f))" "(=)" for ck dial addr port
  by unfold_locales (use eth_section_effect in \<open>blast | simp\<close>)+

interpretation eth_dials: goroutines "eth_section ck dial addr port" "\<lambda>th. opened th \<and> complete th"
  "\<lambda>f. \<forall>crc. f_conns f crc \<noteq> Some None" undialled f_dials "(\<le>)" for ck dial addr port
  by unfold_locales (use eth_section_effect in \<open>blast | simp\<close>)+

lemma sum_unsent [simp]: "sum_list (map (\<lambda>p. {#p#}) ps) = mset ps" "sum_list (map (\<lambda>p. Suc 0) ps) = length ps"
  by (induction ps) auto

text \<open>The goroutines of the helper: a failed dial may lose packets, never double them.\<close>

lemma container_section_effect:
  assumes "container_section ck dial th f = Ret (th', f')"
  shows "mset (map snd (f_out f')) + unsent th' \<subseteq># mset (map snd (f_out f)) + unsent th"
    and "f_dials f' + length (f_cnts f') = f_dials f + length (f_cnts f)"
proof -
  have "mset (map snd (f_out f')) + unsent th' \<subseteq># mset (map snd (f_out f)) + unsent th
    \<and> f_dials f' + length (f_cnts f') = f_dials f + length (f_cnts f)"
  proof (cases th)
    case (FWrite pkt conn)
    then show ?thesis using assms by (cases conn) (auto simp: container_section_def fwd_section_def fwd_write_def)
  qed (use assms in \<open>auto simp: container_section_def fwd_section_def dial_container_def split: option.splits if_splits\<close>)
  then show "mset (map snd (f_out f')) + unsent th' \<subseteq># mset (map snd (f_out f)) + unsent th"
    "f_dials f' + length (f_cnts f') = f_dials f + length (f_cnts f)" by blast+
qed

interpretation container_sent: goroutines "container_section ck dial" "\<lambda>_. True" "\<lambda>_. True" unsent
  "\<lambda>f. mset (map snd (f_out f))" "(\<subseteq>#)" for ck dial
  by unfold_locales (use container_section_effect(1) in \<open>auto intro: subset_mset.order_trans\<close>)

interpretation container_dials: goroutines "container_section ck dial" "\<lambda>_. True" "\<lambda>_. True" "\<lambda>_. 0"
  "\<lambda>f. f_dials f + length (f_cnts f)" "(=)" for ck dial
  by unfold_locales (use container_section_effect(2) in auto)

lemma arrivals_simps [simp]: "arrivals (map FPacket pkts @ as) = pkts @ arrivals as" "arrivals (map FRun is) = []"
  by (induction pkts; simp) (induction "is"; simp)

lemma sendToContainer_packets: "fexec_all sec (map FPacket pkts @ as) y = fexec_all sec as (sendToContainer pkts y)"
  by (induction pkts arbitrary: y) simp_all

section \<open>Properties\<close>

text \<open>
  The goroutines that \<open>sendToContainer\<close> starts for the packets of its channel, in every interleaving: no
  packet is written twice, and each container of the channel \<open>cntChan\<close> is dialled at most once. (Packets of
  a flow whose dial failed are lost.)
\<close>

theorem container_packets_at_most_once:
  assumes "fexec_all (container_section ck dial) as (sendToContainer pkts (NewFsys cnts)) = Ret y"
  shows "mset (map snd (f_out (fs_fwd y))) + sum_list (map unsent (fs_threads y)) \<subseteq># mset (fs_pkts y)
    \<and> f_dials (fs_fwd y) + length (f_cnts (fs_fwd y)) = length cnts"
proof -
  have "fexec_all (container_section ck dial) (map FPacket pkts @ as) (NewFsys cnts) = Ret y"
    using assms by (simp add: sendToContainer_packets)
  from container_sent.conserved [OF this] container_dials.conserved [OF this] show ?thesis by (simp add: NewFsys_def)
qed

theorem container_packets_at_most_once_witness:
  "\<exists>y. fexec_all (container_section (\<lambda>_. 0) (\<lambda>_ _ n. Some n)) [FRun 0, FRun 1, FRun 0, FRun 1, FRun 0, FRun 1, FRun 0, FRun 1]
      (sendToContainer [replicate 24 1, replicate 24 2] (NewFsys [([], 1), ([], 2)])) = Ret y
    \<and> f_dials (fs_fwd y) + length (f_cnts (fs_fwd y)) = length [([] :: bytes, 1 :: u16), ([], 2)]"
proof -
  let ?r = "fexec_all (container_section (\<lambda>_. 0) (\<lambda>_ _ n. Some n)) [FRun 0, FRun 1, FRun 0, FRun 1, FRun 0, FRun 1, FRun 0, FRun 1]
      (sendToContainer [replicate 24 1, replicate 24 2] (NewFsys [([], 1), ([], 2)]))"
  have "case ?r of Ret y \<Rightarrow> True | _ \<Rightarrow> False" by code_simp
  then obtain y where y: "?r = Ret y" by (cases ?r) auto
  show ?thesis by (rule exI [of _ y]) (use y container_packets_at_most_once [OF y] in blast)
qed

text \<open>
  A goroutine that runs alone is a call: its sections end, with the state and the outcome of
  \<open>sendToIpv2\<close> and of \<open>sendToContainerHelper\<close> as one step.
\<close>

theorem forwarder_sections_are_call:
  "go_bind (fwd_solo (eth_section ck dial addr port) 6 (FHash pkt) f) (\<lambda>(th, f'). Ret f') = eth_sendToIpv2 ck dial addr port pkt f
   \<and> go_bind (fwd_solo (container_section ck dial') 6 (FHash pkt) f) (\<lambda>(th, f'). Ret f') = sendToContainerHelper ck dial' pkt f"
  using eth_solo container_solo by blast

text \<open>
  C33: In every interleaving of the goroutines of \<open>eth2ip\<close> each complete packet is written exactly once: the
  packets written and the packets that goroutines still hold are together the packets received, and there
  are never more connections than packets.
\<close>

theorem eth_packets_written_once:
  assumes "fexec_all (eth_section ck dial addr port) as (NewFsys []) = Ret y"
    and "\<forall>pkt. FPacket pkt \<in> set as \<longrightarrow> 24 \<le> length pkt"
  shows "mset (map snd (f_out (fs_fwd y))) + sum_list (map unsent (fs_threads y)) = mset (fs_pkts y)
    \<and> f_dials (fs_fwd y) \<le> length (fs_pkts y)"
proof -
  have "\<forall>pkt \<in> set (arrivals as). opened (FHash pkt) \<and> complete (FHash pkt)"
    using assms(2) by (induction as rule: arrivals.induct) auto
  then show ?thesis
    using eth_sent.conserved [OF assms(1)] eth_dials.conserved [OF assms(1)] by (simp add: NewFsys_def)
qed

definition two_packets :: "faction list" where
  "two_packets = [FPacket (replicate 24 1), FPacket (replicate 24 2)]
     @ [FRun 0, FRun 1, FRun 0, FRun 1, FRun 0, FRun 1, FRun 0, FRun 1, FRun 0, FRun 1, FRun 0, FRun 1]"

theorem eth_packets_written_once_witness:
  "\<exists>y. fexec_all (eth_section (\<lambda>_. 0) (\<lambda>_ _ n. Some n) [] 9) two_packets (NewFsys []) = Ret y \<and> f_dials (fs_fwd y) \<le> 2"
proof -
  have "case fexec_all (eth_section (\<lambda>_. 0) (\<lambda>_ _ n. Some n) [] 9) two_packets (NewFsys []) of Ret y \<Rightarrow> length (fs_pkts y) = 2 | _ \<Rightarrow> False"
    by code_simp
  then obtain y where y: "fexec_all (eth_section (\<lambda>_. 0) (\<lambda>_ _ n. Some n) [] 9) two_packets (NewFsys []) = Ret y" "length (fs_pkts y) = 2"
    by (cases "fexec_all (eth_section (\<lambda>_. 0) (\<lambda>_ _ n. Some n) [] 9) two_packets (NewFsys [])") auto
  then show ?thesis using eth_packets_written_once [OF y(1)] by (auto simp: two_packets_def)
qed


end
