(* ===== verification/Go_Net.thy ===== *)
theory Go_Net
  imports Bytes_Utils Go_Strings
begin

text \<open>
  What the tools of the repository use of \<open>strconv.Atoi\<close> and of the package \<open>net\<close> to read their
  arguments: signed decimal numbers and textual IP addresses (\<open>net.ParseIP\<close> of Go 1.15, the version of
  \<open>go.mod\<close>). An address is a slice of 16 bytes; \<open>nil\<close> is \<open>None\<close>.
\<close>

section \<open>Definitions\<close>

text \<open>\<open>strconv.Atoi\<close> on 64 bits: an optional sign and decimal digits.\<close>

definition Atoi :: "string \<Rightarrow> int option" where
  "Atoi s = (case s of
     [] \<Rightarrow> None
   | c # cs \<Rightarrow>
       if c = CHR ''-'' then map_option (\<lambda>n. - int n) (parse_below (2 ^ 63 + 1) cs)
       else if c = CHR ''+'' then map_option int (parse_below (2 ^ 63) cs)
       else map_option int (parse_below (2 ^ 63) s))"

subsection \<open>Addresses\<close>

definition hex_val :: "char \<Rightarrow> nat option" where
  "hex_val c = (let n = of_char c in
     if 48 \<le> n \<and> n \<le> 57 then Some (n - 48) else if 97 \<le> n \<and> n \<le> 102 then Some (n - 87)
     else if 65 \<le> n \<and> n \<le> 70 then Some (n - 55) else None)"

text \<open>
  \<open>dtoi\<close> and \<open>xtoi\<close>: the number at the start of a string and the number of characters read. A number of
  \<open>0xFFFFFF\<close> or more is an error.
\<close>

fun digits_to :: "(char \<Rightarrow> nat option) \<Rightarrow> nat \<Rightarrow> string \<Rightarrow> nat \<Rightarrow> nat \<Rightarrow> (nat \<times> nat) option" where
  "digits_to val base [] n i = (if i = 0 then None else Some (n, i))"
| "digits_to val base (c # cs) n i =
     (case val c of
        None \<Rightarrow> if i = 0 then None else Some (n, i)
      | Some d \<Rightarrow> let n = n * base + d in if 16777215 \<le> n then None else digits_to val base cs n (Suc i))"

definition dtoi :: "string \<Rightarrow> (nat \<times> nat) option" where
  "dtoi s = digits_to digit_val 10 s 0 0"

definition xtoi :: "string \<Rightarrow> (nat \<times> nat) option" where
  "xtoi s = digits_to hex_val 16 s 0 0"

fun parseIPv4_loop :: "nat \<Rightarrow> string \<Rightarrow> u8 list \<Rightarrow> u8 list option" where
  "parseIPv4_loop 0 s p = (if s \<noteq> [] then None else Some p)"
| "parseIPv4_loop (Suc k) s p =
     (if s = [] \<or> (p \<noteq> [] \<and> hd s \<noteq> CHR ''.'') then None else
      let s = (if p = [] then s else tl s) in
      case dtoi s of
        None \<Rightarrow> None
      | Some (n, c) \<Rightarrow> if 255 < n then None else parseIPv4_loop k (drop c s) (p @ [of_nat n]))"

definition parseIPv4 :: "string \<Rightarrow> u8 list option" where
  "parseIPv4 s = (case parseIPv4_loop 4 s [] of Some [a, b, c, d] \<Rightarrow> Some (IPv4 a b c d) | _ \<Rightarrow> None)"

text \<open>
  The loop of \<open>parseIPv6\<close>: what is left of the string, the position of the ellipsis and the bytes so far.
\<close>

function parseIPv6_loop :: "string \<Rightarrow> nat option \<Rightarrow> u8 list \<Rightarrow> (string \<times> nat option \<times> u8 list) option" where
  "parseIPv6_loop s ellipsis ip =
     (if 16 \<le> length ip then Some (s, ellipsis, ip) else
      case xtoi s of
        None \<Rightarrow> None
      | Some (n, c) \<Rightarrow>
          if 65535 < n then None
          else if c < length s \<and> s ! c = CHR ''.'' then
            (if ellipsis = None \<and> length ip \<noteq> 12 \<or> 16 < length ip + 4 then None
             else case parseIPv4 s of None \<Rightarrow> None | Some ip4 \<Rightarrow> Some ([], ellipsis, ip @ drop 12 ip4))
          else
            let ip = ip @ [of_nat (n div 256), of_nat n]; s = drop c s in
            if s = [] then Some (s, ellipsis, ip)
            else if hd s \<noteq> CHR '':'' \<or> length s = 1 then None
            else let s = tl s in
              if hd s = CHR '':'' then
                if ellipsis \<noteq> None then None
                else if tl s = [] then Some ([], Some (length ip), ip)
                else parseIPv6_loop (tl s) (Some (length ip)) ip
              else parseIPv6_loop s ellipsis ip)"
  by pat_completeness auto
termination by (relation "measure (\<lambda>(s, e, ip). 16 - length ip)") auto

declare parseIPv6_loop.simps [simp del]

definition parseIPv6_end :: "string \<times> nat option \<times> u8 list \<Rightarrow> u8 list option" where
  "parseIPv6_end r = (case r of (s, ellipsis, ip) \<Rightarrow>
     if s \<noteq> [] then None
     else if length ip < 16 then
       (case ellipsis of
          None \<Rightarrow> None
        | Some e \<Rightarrow> Some (take e ip @ replicate (16 - length ip) 0 @ drop e ip))
     else if ellipsis \<noteq> None then None else Some ip)"

definition parseIPv6 :: "string \<Rightarrow> u8 list option" where
  "parseIPv6 s =
     (if take 2 s = ''::'' then
        (if drop 2 s = [] then Some (replicate 16 0)
         else Option.bind (parseIPv6_loop (drop 2 s) (Some 0) []) parseIPv6_end)
      else Option.bind (parseIPv6_loop s None []) parseIPv6_end)"

fun ParseIP_scan :: "string \<Rightarrow> string \<Rightarrow> u8 list option" where
  "ParseIP_scan s [] = None"
| "ParseIP_scan s (c # cs) =
     (if c = CHR ''.'' then parseIPv4 s else if c = CHR '':'' then parseIPv6 s else ParseIP_scan s cs)"

definition ParseIP :: "string \<Rightarrow> u8 list option" where
  "ParseIP s = ParseIP_scan s s"

section \<open>Lemmas\<close>

lemma Itoa_hd: "digit_val (hd (Itoa n)) \<noteq> None"
  by (rule Itoa_digit [of _ n]) simp

lemma Atoi_Itoa [simp]: "n < 2 ^ 63 \<Longrightarrow> Atoi (Itoa n) = Some (int n)"
proof -
  assume n: "n < 2 ^ 63"
  have "digit_val (CHR ''-'') = None" "digit_val (CHR ''+'') = None" by code_simp+
  then show ?thesis using Itoa_hd [of n] Itoa_not_Nil [of n] n
    by (cases "Itoa n") (auto simp: Atoi_def simp flip: parse_below_Itoa [of n "2 ^ 63"])
qed

lemma digits_to_append:
  assumes "parse_digits s n = Some m" and "m < 16777215" and "rest = [] \<or> digit_val (hd rest) = None" and "0 < i + length s"
  shows "digits_to digit_val 10 (s @ rest) n i = Some (m, i + length s)"
  using assms
proof (induction s n arbitrary: i rule: parse_digits.induct)
  case (1 n)
  then show ?case by (cases rest) auto
next
  case (2 c cs n)
  then obtain d where d: "digit_val c = Some d" and p: "parse_digits cs (10 * n + d) = Some m" by (auto split: option.splits)
  have le: "k \<le> m'" if "parse_digits xs k = Some m'" for xs k m'
    using that by (induction xs k rule: parse_digits.induct) (force split: option.splits)+
  have "n * 10 + d < 16777215" using le [OF p] 2(3) by simp
  then show ?case using 2(1) [OF d p 2(3) 2(4), of "Suc i"] d by (simp add: Let_def mult.commute)
qed

lemma dtoi_Itoa: "n < 256 \<Longrightarrow> rest = [] \<or> digit_val (hd rest) = None \<Longrightarrow> dtoi (Itoa n @ rest) = Some (n, length (Itoa n))"
  unfolding dtoi_def using digits_to_append [of "Itoa n" 0 n rest 0] parse_Itoa by simp

text \<open>The dotted text of an address, as \<open>IP.String\<close> prints it.\<close>

definition dotted :: "u8 \<Rightarrow> u8 \<Rightarrow> u8 \<Rightarrow> u8 \<Rightarrow> string" where
  "dotted a b c d = Itoa (unat a) @ ''.'' @ Itoa (unat b) @ ''.'' @ Itoa (unat c) @ ''.'' @ Itoa (unat d)"

lemma dot_no_digit [simp]: "digit_val (CHR ''.'') = None"
  by code_simp

lemma parseIPv4_loop_step:
  assumes "rest = [] \<or> digit_val (hd rest) = None"
  shows "p \<noteq> [] \<Longrightarrow> parseIPv4_loop (Suc k) (CHR ''.'' # Itoa (unat a) @ rest) p = parseIPv4_loop k rest (p @ [a])"
    and "parseIPv4_loop (Suc k) (Itoa (unat a) @ rest) [] = parseIPv4_loop k rest [a]"
proof -
  have a: "unat a < 256" using unsigned_less [of a, where 'a = nat] by simp
  show "p \<noteq> [] \<Longrightarrow> parseIPv4_loop (Suc k) (CHR ''.'' # Itoa (unat a) @ rest) p = parseIPv4_loop k rest (p @ [a])"
    using dtoi_Itoa [OF a assms] a by (simp add: Let_def)
  show "parseIPv4_loop (Suc k) (Itoa (unat a) @ rest) [] = parseIPv4_loop k rest [a]"
    using dtoi_Itoa [OF a assms] a by (simp add: Let_def)
qed

lemma parseIPv4_dotted: "parseIPv4 (dotted a b c d) = Some (IPv4 a b c d)"
proof -
  have 4: "(4::nat) = Suc (Suc (Suc (Suc 0)))" by simp
  have "parseIPv4_loop 4 (dotted a b c d) [] = Some [a, b, c, d]"
    using parseIPv4_loop_step(1) [of "[]" "[a, b, c]" 0 d] unfolding dotted_def 4
    by (simp add: parseIPv4_loop_step del: parseIPv4_loop.simps) simp
  then show ?thesis by (simp add: parseIPv4_def)
qed

lemma ParseIP_scan_digits:
  assumes "\<forall>c \<in> set w. digit_val c \<noteq> None"
  shows "ParseIP_scan s (w @ CHR ''.'' # rest) = parseIPv4 s"
proof -
  have "digit_val (CHR '':'') = None" by code_simp
  then show ?thesis using assms by (induction w) auto
qed

lemma ParseIP_dotted: "ParseIP (dotted a b c d) = Some (IPv4 a b c d)"
proof -
  have "ParseIP (dotted a b c d) = parseIPv4 (dotted a b c d)"
    unfolding ParseIP_def by (subst (2) dotted_def) (simp add: ParseIP_scan_digits Itoa_digit)
  then show ?thesis by (simp add: parseIPv4_dotted)
qed

end
