(* ===== verification/Throughput_Tools.thy ===== *)
theory Throughput_Tools
  imports Forward_Threads Go_Net
begin

text \<open>
  The two throughput tools: \<open>src/testthroughput/eth/eth2ip.go\<close>, which forwards the UDP packets of a
  network interface in four versions, and \<open>src/testthroughput/ip/ip2ip.go\<close>, which forwards the payloads
  of the packets that it receives on a UDP port.

  What the system answers to the calls of \<open>net\<close> and \<open>raw\<close> and the decoder of Ethernet frames are the record
  \<open>net_env\<close>; what the sockets deliver is a list, \<open>None\<close> for an error. A run gives the state of the
  forwarder and how the loop ends: \<open>Block\<close> when it waits for the next packet.
\<close>

section \<open>Definitions\<close>

record net_env =
  InterfaceByName :: "string \<Rightarrow> nat option" \<comment> \<open>the MTU of the interface\<close>
  ListenPacket :: "string \<Rightarrow> bool"
  UnmarshalBinary :: "bytes \<Rightarrow> bytes option" \<comment> \<open>the payload of the frame\<close>
  DialUDP :: "bytes \<Rightarrow> int \<Rightarrow> nat \<Rightarrow> conn option"
  ListenUDP :: "int \<Rightarrow> bool"
  ListenIP :: bool
  Protocol :: "bytes \<Rightarrow> u8 go" \<comment> \<open>\<open>header.IPv4.Protocol\<close>\<close>

definition nil_fwd :: fwd where
  "nil_fwd = \<lparr>f_conns = (\<lambda>_. None), f_out = [], f_dials = 0, f_cnts = []\<rparr>"

text \<open>A nil \<open>net.IP\<close> is the empty slice.\<close>

definition ip_of :: "string \<Rightarrow> bytes" where
  "ip_of s = (case ParseIP s of None \<Rightarrow> [] | Some ip \<Rightarrow> ip)"

subsection \<open>The tool eth2ip\<close>

text \<open>The arguments and the interface, as the first three versions open it.\<close>

definition eth_open :: "net_env \<Rightarrow> string list \<Rightarrow> (bytes \<times> int \<times> nat) go" where
  "eth_open env args =
     (if length args < 3 then Exit else
      let ninf = args ! 0; ip = ip_of (args ! 1) in
      case Atoi (args ! 2) of
        None \<Rightarrow> Exit
      | Some port \<Rightarrow>
          (case InterfaceByName env ninf of
             None \<Rightarrow> Exit
           | Some MTU \<Rightarrow> if \<not> ListenPacket env ninf then Exit else Ret (ip, port, MTU)))"

text \<open>One frame: the IP packet in it, if it is a UDP packet.\<close>

definition eth_frame :: "net_env \<Rightarrow> nat \<Rightarrow> bytes option \<Rightarrow> bytes option go" where
  "eth_frame env MTU read =
     (case read of
        None \<Rightarrow> Exit
      | Some data \<Rightarrow>
          (case UnmarshalBinary env (take MTU data) of
             None \<Rightarrow> Exit
           | Some ipBuff \<Rightarrow> go_bind (index ipBuff 9) (\<lambda>proto. Ret (if proto = 17 then Some ipBuff else None))))"

text \<open>The read loop with the action for a UDP packet.\<close>

fun eth_loop :: "net_env \<Rightarrow> nat \<Rightarrow> (bytes \<Rightarrow> 's \<Rightarrow> 's) \<Rightarrow> bytes option list \<Rightarrow> 's \<Rightarrow> 's \<times> unit go" where
  "eth_loop env MTU act [] s = (s, Block)"
| "eth_loop env MTU act (r # rs) s =
     (case eth_frame env MTU r of
        Ret (Some pkt) \<Rightarrow> eth_loop env MTU act rs (act pkt s)
      | Ret None \<Rightarrow> eth_loop env MTU act rs s
      | Panic x \<Rightarrow> (s, Panic x)
      | Exit \<Rightarrow> (s, Exit)
      | Block \<Rightarrow> (s, Block))"

text \<open>The goroutine at the other end of \<open>pktChan\<close>: it writes the packets in the order of the channel.\<close>

fun eth_sendToIp_loop :: "conn \<Rightarrow> bytes list \<Rightarrow> fwd \<Rightarrow> fwd" where
  "eth_sendToIp_loop conn [] f = f"
| "eth_sendToIp_loop conn (pkt # pkts) f = eth_sendToIp_loop conn pkts (fwd_write (Some conn) pkt f)"

definition eth_sendToIp :: "net_env \<Rightarrow> bytes \<Rightarrow> int \<Rightarrow> bytes list \<Rightarrow> fwd \<Rightarrow> fwd go" where
  "eth_sendToIp env addr port pktChan f =
     (case DialUDP env addr port 0 of
        None \<Rightarrow> Exit
      | Some conn \<Rightarrow> Ret (eth_sendToIp_loop conn pktChan f))"

definition eth_main1 :: "net_env \<Rightarrow> string list \<Rightarrow> bytes option list \<Rightarrow> (fsys \<times> unit go) go" where
  "eth_main1 env args reads =
     go_bind (eth_open env args) (\<lambda>(ip, port, MTU).
     let (pktChan, end) = eth_loop env MTU (\<lambda>pkt ch. ch @ [pkt]) reads [] in
     go_bind (eth_sendToIp env ip port pktChan nil_fwd) (\<lambda>f.
     Ret ((NewFsys [])\<lparr>fs_fwd := f, fs_pkts := pktChan\<rparr>, end)))"

text \<open>The second version starts a goroutine for every packet.\<close>

definition eth_main2 :: "net_env \<Rightarrow> string list \<Rightarrow> bytes option list \<Rightarrow> (fsys \<times> unit go) go" where
  "eth_main2 env args reads =
     go_bind (eth_open env args) (\<lambda>(ip, port, MTU).
     Ret (eth_loop env MTU
       (\<lambda>pkt y. y\<lparr>fs_threads := fs_threads y @ [FHash pkt], fs_pkts := fs_pkts y @ [pkt]\<rparr>) reads (NewFsys [])))"

definition eth_sendToIpv3 :: "conn \<Rightarrow> bytes \<Rightarrow> fwd \<Rightarrow> fwd" where
  "eth_sendToIpv3 conn pkt f = fwd_write (Some conn) pkt f"

definition eth_main3 :: "net_env \<Rightarrow> string list \<Rightarrow> bytes option list \<Rightarrow> (fsys \<times> unit go) go" where
  "eth_main3 env args reads =
     go_bind (eth_open env args) (\<lambda>(ip, port, MTU).
     case DialUDP env ip port 0 of
       None \<Rightarrow> Exit
     | Some conn \<Rightarrow>
         Ret (eth_loop env MTU
           (\<lambda>pkt y. y\<lparr>fs_fwd := eth_sendToIpv3 conn pkt (fs_fwd y), fs_pkts := fs_pkts y @ [pkt]\<rparr>) reads (NewFsys [])))"

text \<open>
  The fourth version reads from an IP socket and goes on after a read error. Its goroutine
  \<open>OpenUDPConnection\<close> opens a port once and keeps it open; the flag says that it waits.
\<close>

definition OpenUDPConnection :: "net_env \<Rightarrow> int \<Rightarrow> (int \<Rightarrow> bool option) \<Rightarrow> (bool \<times> (int \<Rightarrow> bool option)) go" where
  "OpenUDPConnection env port portConnMap =
     (if portConnMap port \<noteq> None then Ret (False, portConnMap)
      else if \<not> ListenUDP env port then Exit else Ret (True, portConnMap(port := Some True)))"

fun eth_loop4 :: "net_env \<Rightarrow> conn \<Rightarrow> bytes option list \<Rightarrow> fsys \<Rightarrow> fsys \<times> unit go" where
  "eth_loop4 env conn [] y = (y, Block)"
| "eth_loop4 env conn (None # rs) y = eth_loop4 env conn rs y"
| "eth_loop4 env conn (Some data # rs) y =
     (let ipBuff = take 65536 data in
      case Protocol env ipBuff of
        Ret proto \<Rightarrow>
          eth_loop4 env conn rs
            (if proto = 17 then y\<lparr>fs_fwd := eth_sendToIpv3 conn ipBuff (fs_fwd y), fs_pkts := fs_pkts y @ [ipBuff]\<rparr> else y)
      | Panic x \<Rightarrow> (y, Panic x)
      | Exit \<Rightarrow> (y, Exit)
      | Block \<Rightarrow> (y, Block))"

definition eth_main4 :: "net_env \<Rightarrow> string list \<Rightarrow> bytes option list \<Rightarrow> (fsys \<times> unit go) go" where
  "eth_main4 env args reads =
     (if length args < 3 then Exit else
      let ip = ip_of (args ! 0) in
      case Atoi (args ! 1) of
        None \<Rightarrow> Exit
      | Some port \<Rightarrow>
          if \<not> ListenIP env then Exit else
          (case DialUDP env ip port 0 of
             None \<Rightarrow> Exit
           | Some conn \<Rightarrow>
               go_bind (OpenUDPConnection env 5832 (\<lambda>_. None)) (\<lambda>_. Ret (eth_loop4 env conn reads (NewFsys [])))))"

text \<open>\<open>main\<close>: the last argument selects the version; \<open>osArgs\<close> starts with the name of the program.\<close>

definition eth_main :: "net_env \<Rightarrow> string list \<Rightarrow> bytes option list \<Rightarrow> (fsys \<times> unit go) go" where
  "eth_main env osArgs reads =
     (case Atoi (last osArgs) of
        None \<Rightarrow> Exit
      | Some version \<Rightarrow>
          if version = 1 then eth_main1 env (tl osArgs) reads
          else if version = 2 then eth_main2 env (tl osArgs) reads
          else if version = 3 then eth_main3 env (tl osArgs) reads
          else if version = 4 then eth_main4 env (tl osArgs) reads
          else Exit)"

subsection \<open>The tool ip2ip\<close>

text \<open>
  A goroutine of \<open>sendToIpv2\<close> holds the slice \<open>buff[:size]\<close>; the payload is a part of it, given by its
  bounds. The parameter \<open>bounds\<close> is what \<open>header.IPv4.Payload\<close> and \<open>header.UDP.Payload\<close> (package
  \<open>github.com/google/netstack\<close>) cut out.
\<close>

datatype ithread =
    IHash nat
  | ILook u16 "nat \<times> nat"
  | ICheck u16 "nat \<times> nat"
  | IDial u16 "nat \<times> nat"
  | IStore u16 "nat \<times> nat" "conn option"
  | IWrite "nat \<times> nat" "conn option"
  | IDone

definition slice :: "nat \<times> nat \<Rightarrow> bytes \<Rightarrow> bytes" where
  "slice b buff = (case b of (lo, hi) \<Rightarrow> drop lo (take hi buff))"

definition ip_section :: "(bytes \<Rightarrow> u16) \<Rightarrow> (bytes \<Rightarrow> (nat \<times> nat) go) \<Rightarrow> (fwd \<Rightarrow> (conn option \<times> fwd) go) \<Rightarrow>
    bytes \<Rightarrow> ithread \<Rightarrow> fwd \<Rightarrow> (ithread \<times> fwd) go" where
  "ip_section ck bounds newconn buff th f =
     (case th of
        IHash sz \<Rightarrow>
          go_bind (ip_PktCrc16 ck (take sz buff)) (\<lambda>(crc, err).
          go_bind (bounds (take sz buff)) (\<lambda>b.
          Ret (if err \<noteq> None then IDone else ILook crc b, f)))
      | ILook crc b \<Rightarrow> Ret (case f_conns f crc of Some conn \<Rightarrow> IWrite b conn | None \<Rightarrow> ICheck crc b, f)
      | ICheck crc b \<Rightarrow> Ret (case f_conns f crc of Some conn \<Rightarrow> IWrite b conn | None \<Rightarrow> IDial crc b, f)
      | IDial crc b \<Rightarrow> go_bind (newconn f) (\<lambda>(conn, f). Ret (IStore crc b conn, f))
      | IStore crc b conn \<Rightarrow> Ret (IWrite b conn, f\<lparr>f_conns := (f_conns f)(crc := Some conn)\<rparr>)
      | IWrite b conn \<Rightarrow> Ret (IDone, fwd_write conn (slice b buff) f)
      | IDone \<Rightarrow> Ret (IDone, f))"

record isys =
  is_buff :: bytes
  is_fwd :: fwd
  is_threads :: "ithread list"

datatype iaction = IRead bytes | IRun nat

text \<open>The main loop reads a packet into the buffer and starts a goroutine; or a goroutine runs on.\<close>

fun iexec :: "(bytes \<Rightarrow> ithread \<Rightarrow> fwd \<Rightarrow> (ithread \<times> fwd) go) \<Rightarrow> iaction \<Rightarrow> isys \<Rightarrow> isys go" where
  "iexec sec (IRead data) y =
     Ret (y\<lparr>is_buff := go_copy (is_buff y) data,
            is_threads := is_threads y @ [IHash (min (length data) (length (is_buff y)))]\<rparr>)"
| "iexec sec (IRun i) y =
     (if i < length (is_threads y)
      then go_bind (sec (is_buff y) (is_threads y ! i) (is_fwd y)) (\<lambda>(th, f).
           Ret (y\<lparr>is_fwd := f, is_threads := (is_threads y)[i := th]\<rparr>))
      else Block)"

fun iexec_all :: "(bytes \<Rightarrow> ithread \<Rightarrow> fwd \<Rightarrow> (ithread \<times> fwd) go) \<Rightarrow> iaction list \<Rightarrow> isys \<Rightarrow> isys go" where
  "iexec_all sec [] y = Ret y"
| "iexec_all sec (a # as) y = go_bind (iexec sec a y) (iexec_all sec as)"

text \<open>
  \<open>main\<close> of \<open>ip2ip\<close> up to its loop: the address and port to send to. The message of the fatal error
  for a bad port reads the third argument, which need not be there.
\<close>

definition ip_main_open :: "net_env \<Rightarrow> string list \<Rightarrow> (bytes \<times> int) go" where
  "ip_main_open env args =
     (if length args < 2 then Exit else
      let ip = ip_of (args ! 0) in
      case Atoi (args ! 1) of
        None \<Rightarrow> go_bind (index args 2) (\<lambda>_. Exit)
      | Some port \<Rightarrow> if \<not> ListenUDP env 9286 then Exit else Ret (ip, port))"

text \<open>The goroutine \<open>sendToIp\<close> of this tool, which \<open>main\<close> does not start, on the packets of its channel.\<close>

fun ip_sendToIp_loop :: "(bytes \<Rightarrow> bytes go) \<Rightarrow> conn \<Rightarrow> bytes list \<Rightarrow> fwd \<Rightarrow> fwd go" where
  "ip_sendToIp_loop payload conn [] f = Ret f"
| "ip_sendToIp_loop payload conn (pkt # pkts) f =
     go_bind (payload pkt) (\<lambda>p. ip_sendToIp_loop payload conn pkts (fwd_write (Some conn) p f))"

definition ip_sendToIp :: "net_env \<Rightarrow> (bytes \<Rightarrow> bytes go) \<Rightarrow> bytes \<Rightarrow> int \<Rightarrow> bytes list \<Rightarrow> fwd \<Rightarrow> fwd go" where
  "ip_sendToIp env payload addr port pktChan f =
     (case DialUDP env addr port 0 of
        None \<Rightarrow> Exit
      | Some conn \<Rightarrow> ip_sendToIp_loop payload conn pktChan f)"

section \<open>Lemmas\<close>

subsection \<open>The tool eth2ip\<close>

fun eth_pkts :: "net_env \<Rightarrow> nat \<Rightarrow> bytes option list \<Rightarrow> bytes list \<times> unit go" where
  "eth_pkts env MTU [] = ([], Block)"
| "eth_pkts env MTU (r # rs) =
     (case eth_frame env MTU r of
        Ret (Some pkt) \<Rightarrow> (pkt # fst (eth_pkts env MTU rs), snd (eth_pkts env MTU rs))
      | Ret None \<Rightarrow> eth_pkts env MTU rs
      | Panic x \<Rightarrow> ([], Panic x) | Exit \<Rightarrow> ([], Exit) | Block \<Rightarrow> ([], Block))"

text \<open>What a loop does is its action on the UDP packets of the frames, in their order.\<close>

lemma eth_loop_fold: "eth_loop env MTU act reads s = (fold act (fst (eth_pkts env MTU reads)) s, snd (eth_pkts env MTU reads))"
  by (induction reads arbitrary: s) (auto split: go.splits option.splits)

lemma fold_snoc: "fold (\<lambda>x ys. ys @ [x]) xs ys = ys @ xs"
  by (induction xs arbitrary: ys) simp_all

lemma eth_sendToIp_fold: "eth_sendToIp_loop conn pkts f = fold (eth_sendToIpv3 conn) pkts f"
  by (induction pkts arbitrary: f) (simp_all add: eth_sendToIpv3_def)

lemma fold_sendToIpv3_out: "f_out (fold (eth_sendToIpv3 conn) pkts f) = f_out f @ map (Pair conn) pkts"
  by (induction pkts arbitrary: f) (simp_all add: eth_sendToIpv3_def fwd_write_def)

lemma fold_main3:
  "fold (\<lambda>pkt y. y\<lparr>fs_fwd := eth_sendToIpv3 conn pkt (fs_fwd y), fs_pkts := fs_pkts y @ [pkt]\<rparr>) pkts y =
    y\<lparr>fs_fwd := fold (eth_sendToIpv3 conn) pkts (fs_fwd y), fs_pkts := fs_pkts y @ pkts\<rparr>"
  by (induction pkts arbitrary: y) simp_all

lemma fold_main2:
  "fold (\<lambda>pkt y. y\<lparr>fs_threads := fs_threads y @ [FHash pkt], fs_pkts := fs_pkts y @ [pkt]\<rparr>) pkts y =
    y\<lparr>fs_threads := fs_threads y @ map FHash pkts, fs_pkts := fs_pkts y @ pkts\<rparr>"
  by (induction pkts arbitrary: y) simp_all

lemma all_sent: "\<forall>th \<in> set ths. th = FDone \<Longrightarrow> sum_list (map unsent ths) = {#}"
  by (induction ths) auto

subsection \<open>The tool ip2ip\<close>

fun ip_solo :: "(bytes \<Rightarrow> ithread \<Rightarrow> fwd \<Rightarrow> (ithread \<times> fwd) go) \<Rightarrow> nat \<Rightarrow> bytes \<Rightarrow> ithread \<Rightarrow> fwd \<Rightarrow> (ithread \<times> fwd) go" where
  "ip_solo sec 0 buff th f = Ret (th, f)"
| "ip_solo sec (Suc n) buff th f = go_bind (sec buff th f) (\<lambda>(th, f). ip_solo sec n buff th f)"

lemma take_min_slice: "hi \<le> sz \<Longrightarrow> slice (lo, hi) (take sz buff) = slice (lo, hi) buff"
  by (simp add: slice_def min_absorb1)

lemma ip_solo_is_call:
  assumes "\<And>lo hi. bounds (take sz buff) = Ret (lo, hi) \<Longrightarrow> hi \<le> sz"
  shows "go_bind (ip_solo (ip_section ck bounds (dial_or_exit dial addr port)) 6 buff (IHash sz) f) (\<lambda>(th, f'). Ret f') =
    ip_sendToIpv2 ck (\<lambda>p. go_bind (bounds p) (\<lambda>b. Ret (slice b p))) dial addr port (take sz buff) f"
proof (cases "ip_PktCrc16 ck (take sz buff)")
  case (Ret x)
  obtain crc err where x: "x = (crc, err)" by (cases x)
  show ?thesis
  proof (cases "bounds (take sz buff)")
    case (Ret b)
    then show ?thesis
      using \<open>ip_PktCrc16 ck (take sz buff) = Ret x\<close> x assms take_min_slice
      by (cases b; cases err; cases "f_conns f crc"; cases "dial addr port (f_dials f)")
        (simp_all add: numeral_eq_Suc ip_section_def dial_or_exit_def ip_sendToIpv2_def Let_def)
  qed (use Ret x in \<open>simp_all add: numeral_eq_Suc ip_section_def ip_sendToIpv2_def\<close>)
qed (simp_all add: numeral_eq_Suc ip_section_def ip_sendToIpv2_def)

section \<open>Properties\<close>


definition env_ex :: net_env where
  "env_ex = \<lparr>InterfaceByName = (\<lambda>_. Some 1500), ListenPacket = (\<lambda>_. True), UnmarshalBinary = (\<lambda>f. Some (drop 14 f)),
     DialUDP = (\<lambda>_ _ n. Some n), ListenUDP = (\<lambda>_. True), ListenIP = True, Protocol = (\<lambda>p. index p 9)\<rparr>"


text \<open>
  In \<open>ip2ip\<close> the goroutine and the main loop share the packet buffer. A goroutine that ends before the next
  read is exactly \<open>sendToIpv2\<close> (lemma \<open>ip_solo_is_call\<close>); but when the main loop reads the second packet
  first, the first goroutine sends the second packet's payload: one packet is lost and the other sent twice.
\<close>

theorem ip_buffer_race:
  "\<exists>as y. iexec_all (ip_section (\<lambda>_. 0) (\<lambda>p. Ret (28, length p)) (dial_or_exit (\<lambda>_ _ n. Some n) [] 9)) as
        \<lparr>is_buff = replicate 40 0, is_fwd = nil_fwd, is_threads = []\<rparr> = Ret y
     \<and> as = [IRead (replicate 28 0 @ [1]), IRun 0, IRead (replicate 28 0 @ [2])] @ map IRun [0, 0, 0, 0, 0, 1, 1, 1]
     \<and> is_threads y = [IDone, IDone] \<and> f_out (is_fwd y) = [(0, [2]), (0, [2])]"
proof -
  let ?as = "[IRead (replicate 28 0 @ [1]), IRun 0, IRead (replicate 28 0 @ [2])] @ map IRun [0, 0, 0, 0, 0, 1, 1, 1]"
  let ?r = "iexec_all (ip_section (\<lambda>_. 0) (\<lambda>p. Ret (28, length p)) (dial_or_exit (\<lambda>_ _ n. Some n) [] 9)) ?as
    \<lparr>is_buff = replicate 40 0, is_fwd = nil_fwd, is_threads = []\<rparr>"
  have "case ?r of Ret y \<Rightarrow> is_threads y = [IDone, IDone] \<and> f_out (is_fwd y) = [(0, [2]), (0, [2])] | _ \<Rightarrow> False" by code_simp
  then obtain y where "?r = Ret y" "is_threads y = [IDone, IDone] \<and> f_out (is_fwd y) = [(0, [2]), (0, [2])]"
    by (cases ?r) (simp_all only: go.case)
  then show ?thesis by blast
qed

end
