(* ===== verification/Speed_Meter.thy ===== *)
theory Speed_Meter
  imports Go_Net Float64
begin

text \<open>
  The two speed meters, \<open>src/speedmeter/udp/udpspeedmeter.go\<close> and \<open>src/speedmeter/tcp/tcpspeedmeter.go\<close>:
  programs that send packets for ten seconds, or count what they receive, and print the throughput.

  The arguments start with the name of the program, as in \<open>os.Args\<close>. What the sockets and the timers do
  is a list of events; a run gives the counters and how the loop ends (\<open>Block\<close>: it waits for the socket).
  Counters are 64-bit integers.
\<close>

section \<open>Definitions\<close>

subsection \<open>Parameters\<close>

definition is_dec :: "char \<Rightarrow> bool" where
  "is_dec c \<longleftrightarrow> digit_val c \<noteq> None"

text \<open>
  The leftmost match of the regular expression \<open>(\d+)([num]s)\<close>: a run of digits that the unit follows
  at once.
\<close>

fun sleep_match :: "string \<Rightarrow> (string \<times> string) option" where
  "sleep_match [] = None"
| "sleep_match (c # cs) =
     (let digits = takeWhile is_dec (c # cs); rest = dropWhile is_dec (c # cs) in
      if digits \<noteq> [] \<and> take 2 rest \<in> {''ns'', ''us'', ''ms''} then Some (digits, take 2 rest)
      else sleep_match cs)"

text \<open>\<open>time.Duration\<close> counts nanoseconds.\<close>

definition getDurationFromParam :: "string \<Rightarrow> i64" where
  "getDurationFromParam unit =
     (if unit = ''ns'' then 1 else if unit = ''us'' then 1000 else if unit = ''ms'' then 1000000 else 0)"

definition ParseSleepInputParam :: "string \<Rightarrow> i64 go" where
  "ParseSleepInputParam sleepParam =
     (case sleep_match sleepParam of
        None \<Rightarrow> Ret 0
      | Some (digits, unit) \<Rightarrow>
          (case Atoi digits of
             None \<Rightarrow> Exit
           | Some interval \<Rightarrow> Ret (of_int interval * getDurationFromParam unit)))"

datatype udp_mode = UdpReceive int | UdpSend bytes int i64

definition udp_main_args :: "string list \<Rightarrow> udp_mode go" where
  "udp_main_args args =
     (if length args < 1 then Exit else
      go_bind (index args 1) (\<lambda>a1.
      if a1 = ''r'' then
        if length args < 2 then Exit else
        go_bind (index args 2) (\<lambda>a2.
        case Atoi a2 of None \<Rightarrow> Exit | Some port \<Rightarrow> Ret (UdpReceive port))
      else
        if length args < 3 then Exit else
        go_bind (index args 2) (\<lambda>a2.
        case ParseIP a2 of
          None \<Rightarrow> Exit
        | Some addr \<Rightarrow>
            if a2 = [] then Exit else
            go_bind (index args 3) (\<lambda>a3.
            case Atoi a3 of
              None \<Rightarrow> Exit
            | Some port \<Rightarrow>
                if 4 < length args
                then go_bind (ParseSleepInputParam (args ! 4)) (\<lambda>sleep. Ret (UdpSend addr port sleep))
                else Ret (UdpSend addr port 0)))))"

datatype tcp_mode = TcpReceive int | TcpSend bytes int

definition tcp_main_args :: "string list \<Rightarrow> tcp_mode go" where
  "tcp_main_args args =
     (if length args < 2 then Exit else
      go_bind (index args 1) (\<lambda>a1.
      if a1 = ''r'' then
        go_bind (index args 2) (\<lambda>a2.
        case Atoi a2 of None \<Rightarrow> Exit | Some port \<Rightarrow> Ret (TcpReceive port))
      else
        if length args < 3 then Exit else
        go_bind (index args 2) (\<lambda>a2.
        case ParseIP a2 of
          None \<Rightarrow> Exit
        | Some addr \<Rightarrow>
            if a2 = [] then Exit else
            go_bind (index args 3) (\<lambda>a3.
            case Atoi a3 of None \<Rightarrow> Exit | Some port \<Rightarrow> Ret (TcpSend addr port)))))"

subsection \<open>Throughput\<close>

text \<open>Go's division of integers truncates.\<close>

definition quot_trunc :: "int \<Rightarrow> int \<Rightarrow> int" where
  "quot_trunc a b = sgn a * sgn b * (\<bar>a\<bar> div \<bar>b\<bar>)"

definition calculateThroughput :: "i64 \<Rightarrow> i64 \<Rightarrow> f64" where
  "calculateThroughput bytes elapsedTime =
     f64_quot (f64_of_int (sint (bytes * 8))) (f64_of_int (quot_trunc (sint elapsedTime) 1000))"

definition tcp_bandwidth :: "i64 \<Rightarrow> i64 \<Rightarrow> f64" where
  "tcp_bandwidth bytesSent elapsedTime = f64_quot (f64_of_int (sint (bytesSent * 8 * 1000))) (f64_of_int (sint elapsedTime))"

subsection \<open>The UDP receiver\<close>

text \<open>What \<open>isDeadlineExceeded\<close> asks of an error.\<close>

record net_error =
  ne_net :: bool \<comment> \<open>it implements \<open>net.Error\<close>\<close>
  ne_timeout :: bool
  ne_deadline :: bool \<comment> \<open>it wraps \<open>os.ErrDeadlineExceeded\<close>\<close>

definition isDeadlineExceeded :: "net_error \<Rightarrow> bool" where
  "isDeadlineExceeded err = (if \<not> ne_net err then False else if \<not> ne_timeout err then False else if \<not> ne_deadline err then False else True)"

datatype udp_read = ReadOk nat i64 | ReadFail net_error \<comment> \<open>size and time of a packet, or an error\<close>

record udp_rx =
  pktNum :: i64
  bytesReceived :: i64
  startTime :: i64

text \<open>
  The loop: each event says whether the timer's function has run before the test of the loop, and what the
  read gives otherwise. The timer starts with the first packet.
\<close>

fun udp_receive :: "(bool \<times> udp_read) list \<Rightarrow> udp_rx \<Rightarrow> udp_rx \<times> unit go" where
  "udp_receive [] s = (s, Block)"
| "udp_receive ((fired, rd) # es) s =
     (if fired \<and> startTime s \<noteq> 0 then (s, Ret ()) else
      case rd of
        ReadFail err \<Rightarrow> if isDeadlineExceeded err then (s, Ret ()) else udp_receive es s
      | ReadOk sz now \<Rightarrow>
          let s = (if startTime s = 0 then s\<lparr>startTime := now\<rparr> else s) in
          udp_receive es (s\<lparr>pktNum := pktNum s + 1, bytesReceived := bytesReceived s + of_nat sz\<rparr>))"

definition udp_receive_main :: "bool \<Rightarrow> (bool \<times> udp_read) list \<Rightarrow> i64 \<Rightarrow> ((i64 \<times> i64 \<times> f64) \<times> unit go) go" where
  "udp_receive_main listen es endNow =
     (if \<not> listen then Exit else
      let (s, end) = udp_receive es \<lparr>pktNum = 0, bytesReceived = 0, startTime = 0\<rparr>;
          elapsedTime = endNow - startTime s
      in Ret ((pktNum s, bytesReceived s, calculateThroughput (bytesReceived s) elapsedTime), end))"

subsection \<open>The senders\<close>

text \<open>
  Each event says whether the timer has ended the loop, and what the write gives: the bytes written, or an
  error, which ends the UDP meter. The TCP meter logs its errors and goes on; the write returns the number
  of bytes written in any case, and writes nothing on the nil connection of a failed dial.
\<close>

fun udp_send :: "(bool \<times> nat option) list \<Rightarrow> i64 \<times> i64 \<Rightarrow> (i64 \<times> i64) \<times> unit go" where
  "udp_send [] s = (s, Block)"
| "udp_send ((timeOut, w) # es) (messagesSent, bytesSent) =
     (if timeOut then ((messagesSent, bytesSent), Ret ()) else
      case w of
        None \<Rightarrow> ((messagesSent, bytesSent), Exit)
      | Some sz \<Rightarrow> udp_send es (messagesSent + 1, bytesSent + of_nat sz))"

fun tcp_send :: "bool \<Rightarrow> (bool \<times> nat) list \<Rightarrow> i64 \<Rightarrow> i64 \<times> unit go" where
  "tcp_send dialled [] bytesSent = (bytesSent, Block)"
| "tcp_send dialled ((timeOut, sz) # es) bytesSent =
     (if timeOut then (bytesSent, Ret ())
      else tcp_send dialled es (bytesSent + (if dialled then of_nat sz else 0)))"

text \<open>The TCP receiver: a failed accept ends it; a connection is read until its first error.\<close>

fun tcp_read_all :: "nat option list \<Rightarrow> bool" where
  "tcp_read_all [] = False"
| "tcp_read_all (None # rs) = True"
| "tcp_read_all (Some n # rs) = tcp_read_all rs"

fun tcp_receive :: "nat option list option list \<Rightarrow> unit go" where
  "tcp_receive [] = Block"
| "tcp_receive (None # es) = Exit"
| "tcp_receive (Some reads # es) = (if tcp_read_all reads then tcp_receive es else Block)"

subsection \<open>The two programs\<close>

text \<open>
  \<open>listen\<close> and \<open>dial\<close> say whether the sockets can be opened; \<open>clock\<close> is the time at the start and at the
  end. The result is the line that is printed, packets, bytes and throughput, and how the loop ended.
\<close>

definition udp_main :: "(int \<Rightarrow> bool) \<Rightarrow> (bytes \<Rightarrow> int \<Rightarrow> bool) \<Rightarrow> (bool \<times> udp_read) list \<Rightarrow> (bool \<times> nat option) list \<Rightarrow>
    i64 \<times> i64 \<Rightarrow> string list \<Rightarrow> ((i64 \<times> i64 \<times> f64) \<times> unit go) go" where
  "udp_main listen dial reads writes clock args =
     go_bind (udp_main_args args) (\<lambda>mode.
     case mode of
       UdpReceive port \<Rightarrow> udp_receive_main (listen port) reads (snd clock)
     | UdpSend addr port sleep \<Rightarrow>
         if \<not> dial addr port then Exit else
         let ((messagesSent, bytesSent), end) = udp_send writes (0, 0);
             elapsedTime = snd clock - fst clock
         in Ret ((messagesSent, bytesSent, calculateThroughput bytesSent elapsedTime), end))"

text \<open>The TCP meter only logs a failed dial.\<close>

definition tcp_main :: "(int \<Rightarrow> bool) \<Rightarrow> (bytes \<Rightarrow> int \<Rightarrow> bool) \<Rightarrow> nat option list option list \<Rightarrow> (bool \<times> nat) list \<Rightarrow>
    i64 \<times> i64 \<Rightarrow> string list \<Rightarrow> (f64 option \<times> unit go) go" where
  "tcp_main listen dial conns writes clock args =
     go_bind (tcp_main_args args) (\<lambda>mode.
     case mode of
       TcpReceive port \<Rightarrow> if \<not> listen port then Exit else Ret (None, tcp_receive conns)
     | TcpSend addr port \<Rightarrow>
         let (bytesSent, end) = tcp_send (dial addr port) writes 0
         in Ret (Some (tcp_bandwidth bytesSent (snd clock - fst clock)), end))"

text \<open>
  \<open>terminateTestAtReceiver\<close>, which nothing calls: it closes \<open>stopChan\<close> only after a successful dial and
  write.
\<close>

definition terminateTestAtReceiver :: "bool \<Rightarrow> bool \<Rightarrow> bool \<Rightarrow> bool go" where
  "terminateTestAtReceiver dialOk writeOk stopped =
     (if \<not> dialOk then Ret stopped else if \<not> writeOk then Ret stopped
      else if stopped then Panic CloseOfClosedChannel else Ret True)"

section \<open>Lemmas\<close>

lemma is_dec_Itoa: "c \<in> set (Itoa n) \<Longrightarrow> is_dec c"
  using Itoa_digit by (simp add: is_dec_def)

lemma unit_no_digit: "\<not> is_dec (CHR ''n'')" "\<not> is_dec (CHR ''u'')" "\<not> is_dec (CHR ''m'')"
  unfolding is_dec_def by code_simp+

lemma sleep_match_skip:
  assumes "\<forall>c \<in> set pre. \<not> is_dec c"
  shows "sleep_match (pre @ s) = sleep_match s"
  using assms by (induction pre) (auto simp: Let_def)

lemma sleep_match_Itoa:
  assumes "unit \<in> {''ns'', ''us'', ''ms''}"
  shows "sleep_match (Itoa n @ unit @ post) = Some (Itoa n, unit)"
proof -
  obtain u where u: "unit = [u, CHR ''s'']" "\<not> is_dec u" using assms unit_no_digit by auto
  have tw: "takeWhile is_dec (Itoa n @ unit @ post) = Itoa n" "dropWhile is_dec (Itoa n @ unit @ post) = unit @ post"
    using is_dec_Itoa u by (simp_all add: takeWhile_append dropWhile_append)
  obtain c cs where "Itoa n @ unit @ post = c # cs" by (cases "Itoa n @ unit @ post") auto
  then show ?thesis using tw u assms by (simp add: Let_def)
qed

lemma sint_of_nat_small:
  assumes "n < 2 ^ 63"
  shows "sint (of_nat n :: i64) = int n"
proof -
  have "int n < 2 ^ 63" using assms by (metis of_nat_less_iff of_nat_numeral of_nat_power)
  then show ?thesis by (simp add: signed_of_nat signed_take_bit_int_eq_self)
qed

definition read_sizes :: "(bool \<times> udp_read) list \<Rightarrow> nat list" where
  "read_sizes es = concat (map (\<lambda>(_, rd). case rd of ReadOk sz _ \<Rightarrow> [sz] | ReadFail _ \<Rightarrow> []) es)"

lemma udp_receive_counts:
  assumes "udp_receive es s = (s', r)"
  shows "\<exists>k \<le> length es. pktNum s' = pktNum s + of_nat (length (read_sizes (take k es)))
    \<and> bytesReceived s' = bytesReceived s + of_nat (sum_list (read_sizes (take k es)))
    \<and> (r = Block \<longrightarrow> k = length es) \<and> (r = Ret () \<or> r = Block)
    \<and> (r = Ret () \<longrightarrow> k < length es \<and> (fst (es ! k) \<or> (\<exists>err. snd (es ! k) = ReadFail err \<and> isDeadlineExceeded err)))"
  using assms
proof (induction es s rule: udp_receive.induct)
  case (1 s)
  then show ?case by (simp add: read_sizes_def)
next
  case (2 fired rd es s)
  show ?case
  proof (cases "fired \<and> startTime s \<noteq> 0 \<or> (\<exists>err. rd = ReadFail err \<and> isDeadlineExceeded err)")
    case True
    then have "s' = s" "r = Ret ()" using 2(3) by (auto split: if_splits)
    then show ?thesis using True by (intro exI [of _ 0]) (auto simp: read_sizes_def)
  next
    case False
    show ?thesis
    proof (cases rd)
      case (ReadOk sz now)
      define s1 where "s1 = (if startTime s = 0 then s\<lparr>startTime := now\<rparr> else s)"
      have "udp_receive es (s1\<lparr>pktNum := pktNum s1 + 1, bytesReceived := bytesReceived s1 + of_nat sz\<rparr>) = (s', r)"
        using 2(3) False ReadOk by (simp add: s1_def Let_def split: if_splits)
      then obtain k where k: "k \<le> length es" "pktNum s' = pktNum s1 + 1 + of_nat (length (read_sizes (take k es)))"
        "bytesReceived s' = bytesReceived s1 + of_nat sz + of_nat (sum_list (read_sizes (take k es)))"
        "r = Block \<longrightarrow> k = length es" "r = Ret () \<or> r = Block"
        "r = Ret () \<longrightarrow> k < length es \<and> (fst (es ! k) \<or> (\<exists>err. snd (es ! k) = ReadFail err \<and> isDeadlineExceeded err))"
        using 2(1) [OF _ ReadOk s1_def] False by auto
      moreover have "pktNum s1 = pktNum s" "bytesReceived s1 = bytesReceived s" by (simp_all add: s1_def)
      ultimately show ?thesis using ReadOk by (intro exI [of _ "Suc k"]) (auto simp: read_sizes_def algebra_simps)
    next
      case (ReadFail err)
      then have "udp_receive es s = (s', r)" using 2(3) False by (simp split: if_splits)
      then obtain k where k: "k \<le> length es" "pktNum s' = pktNum s + of_nat (length (read_sizes (take k es)))"
        "bytesReceived s' = bytesReceived s + of_nat (sum_list (read_sizes (take k es)))"
        "r = Block \<longrightarrow> k = length es" "r = Ret () \<or> r = Block"
        "r = Ret () \<longrightarrow> k < length es \<and> (fst (es ! k) \<or> (\<exists>err. snd (es ! k) = ReadFail err \<and> isDeadlineExceeded err))"
        using 2(2) [OF _ ReadFail] False ReadFail by auto
      then show ?thesis using ReadFail by (intro exI [of _ "Suc k"]) (auto simp: read_sizes_def)
    qed
  qed
qed

text \<open>After a failed dial the TCP meter sends nothing for ten seconds and prints a throughput of zero.\<close>

lemma tcp_failed_dial:
  assumes "tcp_main_args args = Ret (TcpSend addr port)" and "\<not> dial addr port"
  shows "\<exists>end. tcp_main listen dial conns writes clock args = Ret (Some (tcp_bandwidth 0 (snd clock - fst clock)), end)"
proof -
  have "fst (tcp_send False ws b) = b" for ws b by (induction ws) auto
  then show ?thesis using assms by (cases "tcp_send False writes 0") (simp add: tcp_main_def, metis fst_conv)
qed

section \<open>Properties\<close>

text \<open>
  The sleep parameter is read back from every number and unit, whatever stands around them: the duration
  is their product in nanoseconds, exact while it fits into 64 bits.
\<close>

theorem sleep_param_roundtrip:
  assumes "unit \<in> {''ns'', ''us'', ''ms''}" and "\<forall>c \<in> set pre. \<not> is_dec c" and "n < 2 ^ 63"
  shows "ParseSleepInputParam (pre @ Itoa n @ unit @ post) = Ret (of_nat n * getDurationFromParam unit)
    \<and> (int n * sint (getDurationFromParam unit) < 2 ^ 63 \<longrightarrow>
         sint (of_nat n * getDurationFromParam unit) = int n * sint (getDurationFromParam unit))"
proof -
  have m: "sleep_match (pre @ Itoa n @ unit @ post) = Some (Itoa n, unit)"
    using sleep_match_skip [OF assms(2)] sleep_match_Itoa [OF assms(1)] by simp
  obtain d :: nat where d: "getDurationFromParam unit = of_nat d" "d < 2 ^ 63" "sint (getDurationFromParam unit) = int d"
  proof -
    have "getDurationFromParam unit \<in> {1, 1000, 1000000}" using assms(1) by (auto simp: getDurationFromParam_def)
    then show thesis using that [of 1] that [of 1000] that [of 1000000] by auto
  qed
  have "sint (of_nat n * getDurationFromParam unit) = int n * int d" if "int n * int d < 2 ^ 63"
  proof -
    have "n * d < 2 ^ 63" using that by (metis of_nat_less_iff of_nat_mult of_nat_numeral of_nat_power)
    then show ?thesis using sint_of_nat_small [of "n * d"] d(1) by simp
  qed
  then show ?thesis using m d assms(3) by (simp add: ParseSleepInputParam_def)
qed

theorem sleep_param_roundtrip_witness:
  "ParseSleepInputParam (''-'' @ Itoa 10 @ ''us'' @ '' '') = Ret (of_nat 10 * getDurationFromParam ''us'')"
proof -
  have "\<forall>c \<in> set ''-''. \<not> is_dec c" unfolding is_dec_def by code_simp
  then show ?thesis using sleep_param_roundtrip [of "''us''" "''-''" 10 "'' ''"] by simp
qed

text \<open>
  Both meters check for one argument too few: a call without arguments panics in the UDP meter, and a
  receiver without port or a sender without port panics in both, instead of printing the error message.
\<close>

theorem meters_panic_on_missing_port:
  "(udp_main_args args = Panic x \<longleftrightarrow> x = IndexOutOfRange \<and>
      (length args = 1 \<or> (length args = 2 \<and> args ! 1 = ''r'')
       \<or> (length args = 3 \<and> args ! 1 \<noteq> ''r'' \<and> args ! 2 \<noteq> [] \<and> ParseIP (args ! 2) \<noteq> None)))
   \<and> (tcp_main_args args = Panic x \<longleftrightarrow> x = IndexOutOfRange \<and>
      ((length args = 2 \<and> args ! 1 = ''r'')
       \<or> (length args = 3 \<and> args ! 1 \<noteq> ''r'' \<and> args ! 2 \<noteq> [] \<and> ParseIP (args ! 2) \<noteq> None)))"
proof -
  have no: "go_bind (ParseSleepInputParam p) (\<lambda>s. Ret (f s)) \<noteq> Panic x" for p and f :: "i64 \<Rightarrow> udp_mode"
    by (simp add: ParseSleepInputParam_def split: option.split prod.split)
  consider "args = []" | a where "args = [a]" | a b where "args = [a, b]" | a b c where "args = [a, b, c]"
    | a b c d rest where "args = a # b # c # d # rest"
    by (metis list.exhaust)
  then show ?thesis
    by cases (auto simp: udp_main_args_def tcp_main_args_def index_def no split: option.splits)
qed

text \<open>
  The UDP receiver counts exactly the packets it has read before the timer or the read deadline ends it: the
  number and the total size, modulo $2^{64}$; other errors are skipped.
\<close>

theorem udp_receiver_counts:
  assumes "udp_receive_main True es endNow = Ret ((pkts, bytes, tp), r)"
  shows "\<exists>k \<le> length es. pkts = of_nat (length (read_sizes (take k es))) \<and> bytes = of_nat (sum_list (read_sizes (take k es)))
    \<and> (r = Block \<longrightarrow> k = length es)
    \<and> (r = Ret () \<longrightarrow> k < length es \<and> (fst (es ! k) \<or> (\<exists>err. snd (es ! k) = ReadFail err \<and> isDeadlineExceeded err)))"
proof -
  obtain s where "udp_receive es \<lparr>pktNum = 0, bytesReceived = 0, startTime = 0\<rparr> = (s, r)" "pktNum s = pkts" "bytesReceived s = bytes"
    using assms by (auto simp: udp_receive_main_def Let_def split: prod.splits)
  then show ?thesis using udp_receive_counts [of es "\<lparr>pktNum = 0, bytesReceived = 0, startTime = 0\<rparr>" s r] by auto
qed

theorem udp_receiver_counts_witness:
  "\<exists>pkts bytes tp r. udp_receive_main True [(False, ReadOk 7 5), (True, ReadOk 8 6)] 9 = Ret ((pkts, bytes, tp), r)
    \<and> (\<exists>k \<le> 2. pkts = of_nat (length (read_sizes (take k [(False, ReadOk 7 5), (True, ReadOk 8 6)]))))"
proof -
  let ?es = "[(False, ReadOk 7 5), (True, ReadOk 8 6)]"
  obtain pkts bytes tp r where R: "udp_receive_main True ?es 9 = Ret ((pkts, bytes, tp), r)"
    by (cases "udp_receive ?es \<lparr>pktNum = 0, bytesReceived = 0, startTime = 0\<rparr>") (simp add: udp_receive_main_def Let_def)
  have len: "length ?es = 2" by simp
  show ?thesis using R udp_receiver_counts [OF R, unfolded len] by blast
qed

text \<open>
  The throughput that the UDP meter prints, for totals below $2^{50}$ bytes and times below $2^{53}$ microseconds:
  the quotient of the bits and the full microseconds, rounded once; within the first microsecond it is
  infinite, or NaN if nothing was counted.
\<close>

theorem throughput_value:
  assumes "0 \<le> sint bytes" and "sint bytes < 2 ^ 50" and "0 \<le> sint elapsed" and "sint elapsed div 1000 < 2 ^ 53"
  shows "calculateThroughput bytes elapsed =
    (if sint elapsed < 1000 then (if bytes = 0 then NaN else PInf)
     else Fin (fl (of_int (8 * sint bytes) / of_int (sint elapsed div 1000))))"
proof -
  have "signed_take_bit 63 (sint bytes * 8) = sint bytes * 8" using assms(1,2) by (intro signed_take_bit_int_eq_self) simp_all
  then have b: "sint (bytes * 8) = 8 * sint bytes" by (simp add: sint_word_ariths)
  have q: "quot_trunc (sint elapsed) 1000 = sint elapsed div 1000"
    using assms(3) by (cases "sint elapsed = 0") (simp_all add: quot_trunc_def)
  have z: "sint bytes = 0 \<longleftrightarrow> bytes = 0" using sint_eqD [of bytes 0] by auto
  have fb: "f64_of_int (8 * sint bytes) = of_int (8 * sint bytes)" and fq: "f64_of_int (sint elapsed div 1000) = of_int (sint elapsed div 1000)"
    using assms by (intro f64_of_int_exact; simp)+
  define m where "m = 8 * sint bytes"
  have m: "0 \<le> m" "m = 0 \<longleftrightarrow> bytes = 0" "f64_of_int m = of_int m" using assms(1) z fb by (auto simp: m_def)
  show ?thesis
  proof (cases "sint elapsed < 1000")
    case True
    then have "sint elapsed div 1000 = 0" using assms(3) by simp
    then show ?thesis using True m unfolding calculateThroughput_def b q fq m_def [symmetric] by (simp add: f64_quot_def)
  next
    case False
    then have "0 < sint elapsed div 1000" by (simp add: pos_imp_zdiv_pos_iff)
    then have "0 < (of_int (sint elapsed div 1000) :: rat)" by simp
    then show ?thesis using False m unfolding calculateThroughput_def b q fq m_def [symmetric] by (simp add: f64_quot_nonneg)
  qed
qed

theorem throughput_value_witness: "calculateThroughput 5 999 = PInf"
  using throughput_value [of 5 999] by simp

end
