(* ===== verification/Gateway_Main.thy ===== *)
theory Gateway_Main
  imports Registration Scaling Gateway "HOL-Library.Multiset"
begin

text \<open>
  How the gateway is put together: \<open>main\<close> and \<open>readFromNetworkInterface\<close> (\<open>src/gateway.go\<close>), the
  goroutines that \<open>InitRuleMap\<close> starts and the loops \<open>AcceptRegisterRequests\<close> and \<open>handleContainerPool\<close>
  (\<open>src/cnt/handler.go\<close>), and \<open>OpenSocketOnPort\<close> (\<open>src/udp/udp_handler.go\<close>).

  What the sockets deliver is an argument: the connections a listener accepts, the frames an interface
  reads. A loop that never returns is given as its effect on a finite list of such events, after which it
  waits for the next one. The goroutines a loop starts are its result; the order in which they run
  afterwards is arbitrary.
\<close>

section \<open>Definitions\<close>

subsection \<open>The accept loop\<close>

text \<open>
  A call of \<open>AcceptTCP\<close> fails, or gives a connection whose first \<open>Read\<close> delivers some bytes (none when the
  peer closes it; the error is ignored), or one on which the peer sends nothing, so that the read never
  returns.
\<close>

datatype incoming = AcceptError | Silent | Delivers bytes

fun accept_loop :: "incoming list \<Rightarrow> (bytes \<times> nat) list" where
  "accept_loop [] = []"
| "accept_loop (AcceptError # es) = accept_loop es"
| "accept_loop (Silent # es) = []"
| "accept_loop (Delivers msg # es) =
     (let buff = replicate 65535 0;
          read = min (length msg) (length buff)
      in (go_copy buff msg, read) # accept_loop es)"

text \<open>The result are the arguments \<open>buff\<close> and \<open>size\<close> of the goroutines \<open>addEntryToChan\<close>.\<close>

definition AcceptRegisterRequests :: "error option \<Rightarrow> incoming list \<Rightarrow> (bytes \<times> nat) list" where
  "AcceptRegisterRequests listen es = (if listen \<noteq> None then [] else accept_loop es)"

text \<open>These goroutines in some order.\<close>

fun register_all :: "(bytes \<Rightarrow> nfmsg go) \<Rightarrow> (bytes \<Rightarrow> u16 \<Rightarrow> conn option) \<Rightarrow> (bytes \<times> nat) list \<Rightarrow> world \<Rightarrow> world go" where
  "register_all GM dial [] w = Ret w"
| "register_all GM dial ((buff, n) # jobs) w = go_bind (addEntryToChan GM dial buff n w) (register_all GM dial jobs)"

text \<open>
  \<open>handleContainerPool\<close> moves containers from one channel to the other until a channel makes it wait;
  the first component is the container it holds while the second channel is full.
\<close>

fun handleContainerPool :: "nat \<Rightarrow> ptr list \<Rightarrow> ptr list \<Rightarrow> ptr option \<times> ptr list \<times> ptr list" where
  "handleContainerPool cap [] outChan = (None, [], outChan)"
| "handleContainerPool cap (cnt # inChan) outChan =
     (case chan_send cap outChan cnt of
        Ret outChan \<Rightarrow> handleContainerPool cap inChan outChan
      | _ \<Rightarrow> (Some cnt, inChan, outChan))"

text \<open>A socket is opened and held forever: nobody closes \<open>stopChan\<close>.\<close>

definition OpenSocketOnPort :: "error option \<Rightarrow> unit go" where
  "OpenSocketOnPort listen = (if listen \<noteq> None then Exit else Block)"

subsection \<open>The reader of an interface\<close>

text \<open>
  The loop reads into one buffer: a frame overwrites its beginning, the rest keeps what earlier frames left
  there. \<open>None\<close> is a failed read. The result are the packets that handler goroutines are started with.
\<close>

fun reader_loop :: "(bytes \<Rightarrow> bytes option) \<Rightarrow> bytes option list \<Rightarrow> bytes \<Rightarrow> bytes list go" where
  "reader_loop unmarshal [] buff = Ret []"
| "reader_loop unmarshal (r # rs) buff =
     (let (buff, read) = (case r of None \<Rightarrow> (buff, None)
                          | Some frame \<Rightarrow> (go_copy buff frame, Some (min (length frame) (length buff)))) in
      go_bind (frame_step unmarshal buff read) (\<lambda>started.
      go_bind (reader_loop unmarshal rs buff) (\<lambda>pkts.
      Ret (case started of None \<Rightarrow> pkts | Some pkt \<Rightarrow> pkt # pkts))))"

text \<open>\<open>InterfaceByName\<close> gives the MTU of an interface, \<open>listen\<close> the error of \<open>raw.ListenPacket\<close>.\<close>

definition readFromNetworkInterface :: "(string \<Rightarrow> nat option) \<Rightarrow> (string \<Rightarrow> error option) \<Rightarrow> (bytes \<Rightarrow> bytes option) \<Rightarrow>
    string \<Rightarrow> bytes option list \<Rightarrow> bytes list go" where
  "readFromNetworkInterface InterfaceByName listen unmarshal interfaceName reads =
     (case InterfaceByName interfaceName of
        None \<Rightarrow> Exit
      | Some mtu \<Rightarrow>
          if listen interfaceName \<noteq> None then Exit
          else reader_loop unmarshal reads (replicate mtu 0))"

text \<open>The handler goroutines in some order, each with the time of its lookup.\<close>

fun handle_all :: "(bytes \<Rightarrow> u16) \<Rightarrow> ('w \<Rightarrow> 'w go) \<Rightarrow> ('w \<Rightarrow> 'w go) \<Rightarrow>
    ((ptr \<times> rule \<times> ptr) list \<Rightarrow> (ptr \<times> rule \<times> ptr) list) \<Rightarrow> RuleMap \<Rightarrow> (bytes \<times> int) list \<Rightarrow> 'w gw_state \<Rightarrow> 'w gw_state go" where
  "handle_all ck Acquire Release1 order rl [] g = Ret g"
| "handle_all ck Acquire Release1 order rl ((pkt, now) # jobs) g =
     go_bind (udp_HandleIncomingRequestsFromIPv4 ck Acquire Release1 order pkt rl now g)
       (handle_all ck Acquire Release1 order rl jobs)"

subsection \<open>Main\<close>

datatype goroutine =
    FreeMemory
  | AcceptRegister nat \<comment> \<open>the port\<close>
  | Provisioning Provisioner
  | ListenForMapping
  | ReadInterface string

definition InitRuleMap :: "string \<Rightarrow> string \<Rightarrow> string \<Rightarrow> nat \<Rightarrow> RuleMap \<times> world \<times> goroutine list" where
  "InitRuleMap hostname auth redisIp redisPort =
     (let rl = NewRuleMap;
          acc = AcceptRegister 9082;
          rl = RuleMap_Add nat_rule 0 rl
      in (rl, InitRuleMap_world, [acc, Provisioning (ActionHandler hostname auth ''nat'' redisIp (int redisPort))]))"

text \<open>
  The state in which \<open>main\<close> waits on \<open>stop\<close>, which nobody closes: the rules, the shared world and the
  goroutines in the order of their start.
\<close>

record started =
  m_rules :: RuleMap
  m_world :: world
  m_procs :: "goroutine list"

definition gateway_main :: "error option \<times> error option \<times> error option \<Rightarrow>
    error option \<times> error option \<times> error option \<times> error option \<Rightarrow> string list \<Rightarrow> started go" where
  "gateway_main natdb dhcpdb args =
     go_bind (main_args args) (\<lambda>a.
     go_bind (case natdb of (e1, e2, e3) \<Rightarrow> InitNat e1 e2 e3) (\<lambda>_.
     go_bind (case dhcpdb of (e1, e2, e3, e4) \<Rightarrow> InitDhcp e1 e2 e3 e4) (\<lambda>_.
     case InitRuleMap (a_hostname a) (a_auth a) (a_redisIp a) (a_redisPort a) of (rl, w, procs) \<Rightarrow>
       Ret \<lparr>m_rules = rl, m_world = w,
            m_procs = FreeMemory # procs @ ListenForMapping # map ReadInterface (a_ninf a)\<rparr>)))"

section \<open>Lemmas\<close>

subsection \<open>Registrations\<close>

fun delivered :: "incoming \<Rightarrow> bytes option" where
  "delivered (Delivers msg) = Some msg" | "delivered _ = None"

lemma accept_loop_eq:
  "accept_loop es = map (\<lambda>msg. (go_copy (replicate 65535 0) msg, min (length msg) 65535))
     (List.map_filter delivered (takeWhile (\<lambda>e. e \<noteq> Silent) es))"
  by (induction es rule: accept_loop.induct) (simp_all add: map_filter_simps Let_def)

lemma job_bytes: "take (min (length msg) 65535) (go_copy (replicate 65535 0) msg) = take 65535 (msg :: bytes)"
  by (simp add: go_copy_def min_def)

definition nat_msg :: "(bytes \<Rightarrow> nfmsg go) \<Rightarrow> bytes \<Rightarrow> bool" where
  "nat_msg GM msg \<longleftrightarrow> (case GM msg of Ret m \<Rightarrow> trimActionName (n_Name m) = ''nat'' | _ \<Rightarrow> False)"

lemma addEntryToChan_next:
  assumes "world_inv w xs" and "addEntryToChan GM dial buff n w = Ret w'"
  shows "nextElem (connPool (w_maps w' 0)) = Suc (nextElem (connPool (w_maps w 0)))"
proof -
  obtain m ci where m: "GM (take n buff) = Ret m" and ci: "w_cil w (trimActionName (n_Name m)) = Some ci"
    using assms(2) by (auto simp: addEntryToChan_def Let_def split: if_splits)
  then have c: "ci = \<lparr>cntPool = 0, cntLst = 0, maxFluxes = 10\<rparr>"
    using assms(1) by (auto simp: world_inv_def split: if_splits)
  obtain cn cnt r s where r: "register cn cnt (w_maps w 0) = Ret (r, s)" and w': "w_maps w' 0 = s"
    using assms(2) m ci c by (auto simp: addEntryToChan_def Let_def split: if_splits)
  then show ?thesis using agree_register [OF world_invD(1) [OF assms(1)], of cn cnt] by auto
qed

lemma register_all_nat:
  assumes "world_inv w xs" and "\<forall>(buff, n) \<in> set jobs. n \<le> length buff \<and> nat_msg GM (take n buff)"
  shows "\<exists>w'. register_all GM dial jobs w = Ret w'
    \<and> world_inv w' (xs @ [nextElem (connPool (w_maps w 0))..<nextElem (connPool (w_maps w 0)) + length jobs])"
  using assms
proof (induction jobs arbitrary: w xs)
  case (Cons job jobs)
  let ?k = "nextElem (connPool (w_maps w 0))"
  obtain buff n where job: "job = (buff, n)" by (cases job)
  then have n: "n \<le> length buff" "nat_msg GM (take n buff)" using Cons.prems(2) by auto
  then obtain m where m: "GM (take n buff) = Ret m" "trimActionName (n_Name m) = ''nat''"
    by (auto simp: nat_msg_def split: go.splits)
  obtain w1 where w1: "addEntryToChan GM dial buff n w = Ret w1"
    using addEntryToChan_nat [where GM = GM and n = n and buff = buff, OF n(1) m(1) Cons.prems(1) m(2)] by blast
  have "world_inv w1 (xs @ [?k])" and k: "nextElem (connPool (w_maps w1 0)) = Suc ?k"
    using addEntryToChan_inv [OF Cons.prems(1) w1] addEntryToChan_next [OF Cons.prems(1) w1] by auto
  from Cons.IH [OF this(1)] Cons.prems(2) obtain w' where "register_all GM dial jobs w1 = Ret w'"
    "world_inv w' (xs @ [?k] @ [Suc ?k..<Suc ?k + length jobs])" unfolding k by auto
  then show ?case using w1 job upt_conv_Cons [of ?k "?k + length (job # jobs)"] by auto
qed simp

subsection \<open>The reader\<close>

text \<open>What the package documents of a frame without VLAN tags: the payload follows the header of 14 bytes.\<close>

definition untagged :: "(bytes \<Rightarrow> bytes option) \<Rightarrow> bytes \<Rightarrow> bool" where
  "untagged unmarshal frame \<longleftrightarrow> unmarshal frame = Some (drop 14 frame)"

lemma take_go_copy: "length src \<le> length dst \<Longrightarrow> take (length src) (go_copy dst src) = src"
  by (simp add: go_copy_def)

lemma nth_go_copy: "length src \<le> length dst \<Longrightarrow> i < length src \<Longrightarrow> go_copy dst src ! i = src ! i"
  by (simp add: go_copy_def nth_append)

lemma reader_loop_frames:
  assumes "\<forall>f \<in> set frames. 24 \<le> length f \<and> length f \<le> length buff \<and> untagged unmarshal f"
  shows "reader_loop unmarshal (map Some frames) buff = Ret (map (drop 14) (filter (\<lambda>f. f ! 23 = 17) frames))"
  using assms
proof (induction frames arbitrary: buff)
  case (Cons f fs)
  have f: "24 \<le> length f" "length f \<le> length buff" "unmarshal f = Some (drop 14 f)"
    using Cons.prems by (auto simp: untagged_def)
  have t: "take (length f) (go_copy buff f) = f" using f(2) by (rule take_go_copy)
  have n: "go_copy buff f ! 23 = f ! 23" by (rule nth_go_copy) (use f in auto)
  have "frame_step unmarshal (go_copy buff f) (Some (length f)) = Ret (if f ! 23 = 17 then Some (drop 14 f) else None)"
    using f by (simp add: frame_step_def index_def t n)
  moreover have "reader_loop unmarshal (map Some fs) (go_copy buff f) = Ret (map (drop 14) (filter (\<lambda>f. f ! 23 = 17) fs))"
    by (rule Cons.IH) (use Cons.prems in auto)
  ultimately show ?case using f by (simp add: min_absorb1)
qed simp

subsection \<open>The handlers\<close>

lemma Get_e_conn:
  "Get crc now s = Ret (r, s') \<Longrightarrow> e_conn (elems (connPool s') x) = e_conn (elems (connPool s) x)"
  by (auto simp: Get_def Get_miss_def Let_def ConnPool_Next_def AddCrc_def split: if_splits)

lemma handler_e_conn:
  assumes "udp_HandleIncomingRequestsFromIPv4 ck Acquire Release1 order pkt (nat_rules m) now g = Ret g'"
    and "rule_order order" and "24 \<le> length pkt"
  shows "e_conn (elems (connPool (gw_maps g' m)) x) = e_conn (elems (connPool (gw_maps g m)) x)"
proof (cases "be16 (pkt ! 20) (pkt ! 21) = 53")
  case True
  then show ?thesis using assms(1) by (auto simp: udp_HandleIncomingRequestsFromIPv4_def GetChan_nat [OF assms(2,3)])
next
  case False
  then obtain cn lk s where G: "Get (ck (hash_input pkt)) now (gw_maps g m) = Ret ((cn, lk), s)"
    using assms(1) by (auto simp: udp_HandleIncomingRequestsFromIPv4_def GetChan_nat [OF assms(2,3)])
  then have "gw_maps g' m = s"
    using assms(1) False
    by (auto simp: udp_HandleIncomingRequestsFromIPv4_def GetChan_nat [OF assms(2,3)] Let_def sem_call_def
      SendToContainer3_def split: option.splits)
  then show ?thesis using Get_e_conn [OF G] by simp
qed

definition dns :: "bytes \<Rightarrow> bool" where
  "dns pkt \<longleftrightarrow> be16 (pkt ! 20) (pkt ! 21) = 53"

lemma handler_dns:
  "rule_order order \<Longrightarrow> 24 \<le> length pkt \<Longrightarrow> dns pkt \<Longrightarrow>
   udp_HandleIncomingRequestsFromIPv4 ck Acquire Release1 order pkt (nat_rules m) now g = Ret g"
  by (cases g) (simp add: udp_HandleIncomingRequestsFromIPv4_def GetChan_nat dns_def)

lemma handle_all_writes:
  assumes ord: "rule_order order" and laws: "semaphore_laws Acquire Release1 avail"
    and "c2c_inv (gw_maps g m) xs" and ne: "xs \<noteq> []" and "\<forall>l. avail (gw_sem g l)"
    and "\<forall>e \<in> set xs. e_conn (elems (connPool (gw_maps g m)) e) \<noteq> None"
    and "\<forall>job \<in> set jobs. 24 \<le> length (fst job)"
  shows "\<exists>g'. handle_all ck Acquire Release1 order (nat_rules m) jobs g = Ret g'
    \<and> map snd (gw_out g') = map snd (gw_out g) @ filter (\<lambda>p. \<not> dns p) (map fst jobs)"
  using assms(3-)
proof (induction jobs arbitrary: g)
  case (Cons job jobs)
  obtain p now where job: "job = (p, now)" by (cases job)
  have len: "24 \<le> length p" using Cons.prems(5) job by simp
  show ?case
  proof (cases "dns p")
    case True
    then have "udp_HandleIncomingRequestsFromIPv4 ck Acquire Release1 order p (nat_rules m) now g = Ret g"
      by (rule handler_dns [OF ord len])
    then show ?thesis using Cons.IH [of g] Cons.prems job True by simp
  next
    case False
    then have src: "be16 (p ! 20) (p ! 21) \<noteq> 53" by (simp add: dns_def)
    obtain g1 cn where g1: "udp_HandleIncomingRequestsFromIPv4 ck Acquire Release1 order p (nat_rules m) now g = Ret g1"
      "c2c_inv (gw_maps g1 m) xs" "crc2conn (gw_maps g1 m) (ck (hash_input p)) = Some cn"
      "gw_out g1 = gw_out g @ (case cn of None \<Rightarrow> [] | Some c \<Rightarrow> [(c, p)])" "\<forall>l. avail (gw_sem g1 l)"
      using handler_total [OF Cons.prems(1) ne ord laws Cons.prems(3) len src] by blast
    have conns: "\<forall>e \<in> set xs. e_conn (elems (connPool (gw_maps g1 m)) e) \<noteq> None"
      using Cons.prems(4) handler_e_conn [OF g1(1) ord len] by simp
    have own: "owned (gw_maps g1 m) xs" using g1(2) by (simp add: c2c_inv_def)
    obtain e where "e \<in> set xs" "e_conn (elems (connPool (gw_maps g1 m)) e) = cn" using own g1(3) by (rule ownedE)
    then obtain c where "cn = Some c" using conns by auto
    then show ?thesis using Cons.IH [OF g1(2) ne g1(5) conns] Cons.prems(5) g1(1,4) job False by auto
  qed
qed simp

text \<open>The plumbing between two channels keeps all containers and their order.\<close>

lemma handleContainerPool_fifo:
  "handleContainerPool cap inChan outChan = (held, inChan', outChan') \<Longrightarrow>
   outChan' @ (case held of None \<Rightarrow> [] | Some cnt \<Rightarrow> [cnt]) @ inChan' = outChan @ inChan
   \<and> (length outChan \<le> cap \<longrightarrow> length outChan' \<le> cap \<and> (held = None \<longrightarrow> inChan' = []))"
proof (induction cap inChan outChan rule: handleContainerPool.induct)
  case (2 cap cnt inChan outChan)
  then show ?case by (cases "length outChan < cap") (auto simp: chan_send_def)
qed auto

subsection \<open>Main\<close>

definition readers :: "goroutine list \<Rightarrow> string list" where
  "readers = List.map_filter (\<lambda>p. case p of ReadInterface ni \<Rightarrow> Some ni | _ \<Rightarrow> None)"

lemma readers_map: "readers (map ReadInterface nis) = nis"
  by (induction nis) (simp_all add: readers_def map_filter_simps)

lemma main_started:
  "gateway_main natdb dhcpdb args = Ret m \<Longrightarrow> m_rules m = nat_rules 0 \<and> world_inv (m_world m) []
     \<and> readers (m_procs m) = drop 3 args \<and> AcceptRegister 9082 \<in> set (m_procs m)"
  using readers_map
  by (auto simp: gateway_main_def main_args_def InitRuleMap_def Let_def nat_rules_def readers_def map_filter_simps world_inv_init
    split: if_splits)

section \<open>Properties\<close>

text \<open>
  C31: While no peer keeps a connection open without sending, every registration message for the action
  \<open>nat\<close> that arrives is served, also after failed accepts: whatever the order in which the goroutines of
  the accept loop run, they end without a panic, the pool gets one new member for each message, and pool,
  container list and registries still agree.
\<close>

theorem registrations_all_served:
  assumes "Silent \<notin> set es" and "\<forall>msg. Delivers msg \<in> set es \<longrightarrow> nat_msg GM (take 65535 msg)"
    and "mset jobs = mset (AcceptRegisterRequests None es)" and "world_inv w xs"
  shows "\<exists>w' ys. register_all GM dial jobs w = Ret w' \<and> world_inv w' (xs @ ys)
    \<and> length ys = length (filter (\<lambda>e. e \<noteq> AcceptError) es)"
proof -
  have jobs: "mset jobs = mset (map (\<lambda>msg. (go_copy (replicate 65535 0) msg, min (length msg) 65535)) (List.map_filter delivered es))"
  proof -
    have "takeWhile (\<lambda>e. e \<noteq> Silent) es = es" using assms(1) by (auto simp: takeWhile_eq_all_conv)
    then show ?thesis using assms(3) by (simp add: AcceptRegisterRequests_def accept_loop_eq del: takeWhile_eq_all_conv)
  qed
  have "set jobs = (\<lambda>msg. (go_copy (replicate 65535 0) msg, min (length msg) 65535)) ` set (List.map_filter delivered es)"
    using arg_cong [OF jobs, of set_mset] by simp
  moreover have "nat_msg GM (take 65535 msg)" if "msg \<in> set (List.map_filter delivered es)" for msg
    using that assms(2) by (auto simp: map_filter_def elim!: delivered.elims)
  ultimately have ok: "\<forall>(buff, n) \<in> set jobs. n \<le> length buff \<and> nat_msg GM (take n buff)"
    by (auto simp: job_bytes)
  have "length jobs = length (List.map_filter delivered es)" using arg_cong [OF jobs, of size] by simp
  also have "\<dots> = length (filter (\<lambda>e. e \<noteq> AcceptError) es)"
    using assms(1) by (induction es rule: accept_loop.induct) (simp_all add: map_filter_simps)
  finally show ?thesis using register_all_nat [OF assms(4) ok, of dial] by (metis diff_add_inverse length_upt)
qed

theorem registrations_all_served_witness:
  "\<exists>w' ys. register_all GM_ex (\<lambda>_ _. Some 1) (rev (AcceptRegisterRequests None [Delivers [1], AcceptError, Delivers [2]]))
      InitRuleMap_world = Ret w' \<and> world_inv w' ([] @ ys) \<and> length ys = Suc 1"
proof -
  have "nat_msg GM_ex msg" for msg by (simp add: nat_msg_def GM_ex_def)
  then show ?thesis
    using registrations_all_served [of "[Delivers [1], AcceptError, Delivers [2]]" GM_ex, OF _ _ _ world_inv_init,
        of "rev (AcceptRegisterRequests None [Delivers [1], AcceptError, Delivers [2]])" "\<lambda>_ _. Some 1"]
    by (auto simp del: accept_loop.simps)
qed

text \<open>
  The accept loop reads before it accepts again, with no deadline: once a peer has connected without sending
  anything, no later registration is served.
\<close>

theorem silent_peer_stops_registration:
  "AcceptRegisterRequests listen (es @ Silent # es') = AcceptRegisterRequests listen es"
  by (simp add: AcceptRegisterRequests_def accept_loop_eq takeWhile_tail)

text \<open>
  The reader of an interface starts a handler for exactly the UDP frames, in their order, each with the
  payload of its own frame: although all frames are read into one buffer, no byte of another frame gets into
  a packet.
\<close>

theorem reader_hands_over_payloads:
  assumes "InterfaceByName ni = Some mtu" and "listen ni = None"
    and "\<forall>f \<in> set frames. 24 \<le> length f \<and> length f \<le> mtu \<and> untagged unmarshal f"
  shows "readFromNetworkInterface InterfaceByName listen unmarshal ni (map Some frames) =
    Ret (map (drop 14) (filter (\<lambda>f. f ! 23 = 17) frames))"
  using assms by (simp add: readFromNetworkInterface_def reader_loop_frames)

theorem reader_hands_over_payloads_witness:
  "readFromNetworkInterface (\<lambda>_. Some 40) (\<lambda>_. None) (\<lambda>f. Some (drop 14 f)) ''eth0''
     (map Some [replicate 23 0 @ [17] @ replicate 16 9, replicate 23 0 @ [17, 8], replicate 24 6]) =
   Ret [replicate 9 0 @ [17] @ replicate 16 9, replicate 9 0 @ [17, 8]]"
  using reader_hands_over_payloads [of "\<lambda>_. Some 40" "''eth0''" 40 "\<lambda>_. None"
      "[replicate 23 0 @ [17] @ replicate 16 9, replicate 23 0 @ [17, 8], replicate 24 6]" "\<lambda>f. Some (drop 14 f)"]
  by (simp add: untagged_def nth_append)

text \<open>
  \<open>main\<close> comes to wait with everything started exactly when it has at least four arguments, the third is
  an address with a port, and the databases were initialised. It has then started the goroutine that
  accepts registrations, one provisioner, for the action \<open>nat\<close>, and one reader for each interface
  named on the command line, over a world in which pool, list and registries agree.
\<close>

theorem main_starts:
  "(\<exists>m. gateway_main (n1, n2, n3) (d1, d2, d3, d4) args = Ret m \<and> m_rules m = nat_rules 0 \<and> world_inv (m_world m) []
      \<and> readers (m_procs m) = drop 3 args \<and> AcceptRegister 9082 \<in> set (m_procs m)) \<longleftrightarrow>
   4 \<le> length args \<and> (\<exists>r. parseRedisAddressParam (args ! 2) = Ret r) \<and> [n1, n2, n3, d1, d2, d3, d4] = replicate 7 None"
proof -
  have "(\<exists>m. gateway_main (n1, n2, n3) (d1, d2, d3, d4) args = Ret m) \<longleftrightarrow>
     4 \<le> length args \<and> (\<exists>r. parseRedisAddressParam (args ! 2) = Ret r)
     \<and> [n1, n2, n3, d1, d2, d3, d4] = replicate 7 None"
    by (auto simp: gateway_main_def main_args_def InitNat_def InitDhcp_def InitRuleMap_def Let_def numeral_eq_Suc
      go_bind_eq_Ret)
  then show ?thesis using main_started by blast
qed

text \<open>
  C6: From an interface to the containers, for any number of frames and any order of the handler goroutines:
  in a reachable world with a registered container, all of whose connections are open, every complete UDP
  packet that is no DNS answer is written exactly once, no other packet is, and nothing panics or waits.
\<close>

theorem interface_to_containers:
  assumes "world_reachable GM rng w" and "range_order rng" and "rule_order order"
    and "semaphore_laws Acquire Release1 avail" and "\<forall>l. avail (gw_sem g l)"
    and "gw_maps g = w_maps w" and "\<not> Empty (w_lists w 0)"
    and "\<forall>e < nextElem (connPool (w_maps w 0)). IsAlive e (connPool (w_maps w 0)) \<longrightarrow> e_conn (elems (connPool (w_maps w 0)) e) \<noteq> None"
    and "InterfaceByName ni = Some mtu" and "listen ni = None"
    and "\<forall>f \<in> set frames. 38 \<le> length f \<and> length f \<le> mtu \<and> untagged unmarshal f"
  shows "\<exists>pkts. readFromNetworkInterface InterfaceByName listen unmarshal ni (map Some frames) = Ret pkts
    \<and> (\<forall>jobs. mset (map fst jobs) = mset pkts \<longrightarrow>
        (\<exists>g'. handle_all ck Acquire Release1 order (nat_rules 0) jobs g = Ret g'
           \<and> mset (map snd (gw_out g')) = mset (map snd (gw_out g))
               + mset (map (drop 14) (filter (\<lambda>f. f ! 23 = 17 \<and> \<not> dns (drop 14 f)) frames))))"
proof -
  let ?pkts = "map (drop 14) (filter (\<lambda>f. f ! 23 = 17) frames)"
  obtain xs where inv: "world_inv w xs" using world_reachable_inv [OF assms(1,2)] by blast
  note ag = world_invD(1) [OF inv]
  have ne: "xs \<noteq> []" using assms(7) agreeD(2) [OF ag] by (auto simp: Empty_def)
  have c2c: "c2c_inv (gw_maps g 0) xs" using agreeD(1) [OF ag] assms(6) by simp
  then have r: "ring (connPool (w_maps w 0)) xs" using assms(6) by (simp add: c2c_inv_def)
  have conns: "\<forall>e \<in> set xs. e_conn (elems (connPool (gw_maps g 0)) e) \<noteq> None"
    using assms(6,8) ring_IsAlive [OF r] r by (auto simp: ring_def)
  have read: "readFromNetworkInterface InterfaceByName listen unmarshal ni (map Some frames) = Ret ?pkts"
    unfolding readFromNetworkInterface_def using assms(9,10) reader_loop_frames [of frames "replicate mtu 0" unmarshal] assms(11)
    by fastforce
  have "\<exists>g'. handle_all ck Acquire Release1 order (nat_rules 0) jobs g = Ret g'
      \<and> mset (map snd (gw_out g')) = mset (map snd (gw_out g))
          + mset (map (drop 14) (filter (\<lambda>f. f ! 23 = 17 \<and> \<not> dns (drop 14 f)) frames))"
    if jobs: "mset (map fst jobs) = mset ?pkts" for jobs
  proof -
    have "set (map fst jobs) = set ?pkts" using jobs by (metis set_mset_mset)
    then have "\<forall>p \<in> set (map fst jobs). 24 \<le> length p" using assms(11) by auto
    then have "\<forall>job \<in> set jobs. 24 \<le> length (fst job)" by simp
    from handle_all_writes [OF assms(3,4) c2c ne assms(5) conns this, of ck] obtain g' where
      g': "handle_all ck Acquire Release1 order (nat_rules 0) jobs g = Ret g'"
      "map snd (gw_out g') = map snd (gw_out g) @ filter (\<lambda>p. \<not> dns p) (map fst jobs)" by blast
    have "mset (filter (\<lambda>p. \<not> dns p) (map fst jobs)) = mset (filter (\<lambda>p. \<not> dns p) ?pkts)"
      unfolding mset_filter jobs ..
    also have "filter (\<lambda>p. \<not> dns p) ?pkts = map (drop 14) (filter (\<lambda>f. f ! 23 = 17 \<and> \<not> dns (drop 14 f)) frames)"
      by (induction frames) auto
    finally have eq: "mset (filter (\<lambda>p. \<not> dns p) (map fst jobs)) =
      mset (map (drop 14) (filter (\<lambda>f. f ! 23 = 17 \<and> \<not> dns (drop 14 f)) frames))" .
    have "mset (map snd (gw_out g')) = mset (map snd (gw_out g)) + mset (filter (\<lambda>p. \<not> dns p) (map fst jobs))"
      by (simp only: g'(2) mset_append)
    then show ?thesis using g'(1) eq by metis
  qed
  then show ?thesis using read by blast
qed

theorem interface_to_containers_witness:
  "\<exists>g'. handle_all ck_ex acquire_ex release_ex id (nat_rules 0) [(replicate 9 0 @ [17] @ replicate 20 2, 5)]
      \<lparr>gw_maps = w_maps world_ex, gw_sem = (\<lambda>_. 0), gw_out = []\<rparr> = Ret g'
    \<and> mset (map snd (gw_out g')) = {#replicate 9 0 @ [17] @ replicate 20 2#}"
proof -
  let ?f = "replicate 23 0 @ [17] @ replicate 20 (2 :: u8)"
  let ?g = "\<lparr>gw_maps = w_maps world_ex, gw_sem = (\<lambda>_. 0), gw_out = []\<rparr>"
  have w: "world_reachable GM_ex id world_ex" by (rule world_next [OF world_init ws_register [OF world_ex]])
  have inv: "world_inv world_ex [0]"
    using addEntryToChan_inv [OF world_inv_init world_ex]
    by (simp add: InitRuleMap_world_def NewCrc2ConnMap_def NewConnPool_def)
  have ne: "\<not> Empty (w_lists world_ex 0)" by code_simp
  have "e_conn (elems (connPool (w_maps world_ex 0)) 0) \<noteq> None" by code_simp
  moreover have "ring (connPool (w_maps world_ex 0)) [0]" using agreeD(1) [OF world_invD(1) [OF inv]] by (simp add: c2c_inv_def)
  then have "e = 0" if "e < nextElem (connPool (w_maps world_ex 0))" "IsAlive e (connPool (w_maps world_ex 0))" for e
    using that ring_IsAlive [of "connPool (w_maps world_ex 0)" "[0]" e] by simp
  ultimately have c: "\<forall>e < nextElem (connPool (w_maps world_ex 0)). IsAlive e (connPool (w_maps world_ex 0))
      \<longrightarrow> e_conn (elems (connPool (w_maps world_ex 0)) e) \<noteq> None"
    by blast
  have d: "\<not> dns (drop 14 ?f)" by code_simp
  let ?p = "replicate 9 0 @ [17] @ replicate 20 (2 :: u8)"
  have "readFromNetworkInterface (\<lambda>_. Some 44) (\<lambda>_. None) (\<lambda>f. Some (drop 14 f)) ''e'' (map Some [?f]) = Ret [?p]"
    by code_simp
  moreover have "filter (\<lambda>f. f ! 23 = 17 \<and> \<not> dns (drop 14 f)) [?f] = [?f]" using d by (simp add: nth_append)
  ultimately have "\<forall>jobs. mset (map fst jobs) = mset [?p] \<longrightarrow>
      (\<exists>g'. handle_all ck_ex acquire_ex release_ex id (nat_rules 0) jobs ?g = Ret g' \<and> mset (map snd (gw_out g')) = {#?p#})"
    using interface_to_containers [OF w range_order_id ex_laws(2,1) _ _ ne c, of ?g "\<lambda>_. Some 44" "''e''" 44 "\<lambda>_. None"
        "[?f]" "\<lambda>f. Some (drop 14 f)" ck_ex]
    by (simp del: handle_all.simps add: untagged_def)
  from spec [OF this, of "[(?p, 5)]"] show ?thesis by (simp del: handle_all.simps)
qed

end
