(* ===== verification/Utils_Services.thy ===== *)
theory Utils_Services
  imports Buffers_Pool Nat_Context Go_Strings
begin

text \<open>
  The small services around the gateway: \<open>SendToEndpoint\<close> (\<open>src/utils/flowlet_handler.go\<close>), the logger and
  the Redis writer (\<open>src/utils/log.go\<close>), the initialisation of the package's variables
  (\<open>src/utils/init.go\<close>), the map of flowlets (\<open>src/utils/flowlet/flowlet.go\<close>), the listener for mapping
  requests (\<open>src/nat/context.go\<close>) and the packet printer of \<open>src/tools/udpreceiver.go\<close>.

  The HTTP exchange, the Redis client and the accessors of \<open>header.IPv4\<close> and \<open>header.UDP\<close> (package
  \<open>github.com/google/netstack\<close>) are parameters.
\<close>

section \<open>Definitions\<close>

subsection \<open>Posting a buffer\<close>

text \<open>What \<open>http.PostForm\<close> gives: an error, or a status and a body that can be read or not.\<close>

datatype post_result = PostError | Posted nat "bytes option"

definition bytes_to_string :: "bytes \<Rightarrow> string" where
  "bytes_to_string bs = map (\<lambda>b. char_of (unat b)) bs"

text \<open>
  The payload is a copy of the buffer; the deferred \<open>Release\<close> runs on every return. The trace lists what
  was posted where.
\<close>

definition SendToEndpoint :: "(string \<Rightarrow> string \<Rightarrow> post_result) \<Rightarrow> ptr \<Rightarrow> string \<Rightarrow> BuffersPool \<times> (string \<times> string) list \<Rightarrow>
    ((string \<times> error option) \<times> BuffersPool \<times> (string \<times> string) list) go" where
  "SendToEndpoint PostForm packet endpoint st = (case st of (bp, posts) \<Rightarrow>
     let payload = bytes_to_string (bp_buff bp packet);
         posts = posts @ [(endpoint, payload)];
         res = (case PostForm endpoint payload of
                  PostError \<Rightarrow> ([], Some (''Error received trying to send packet to '' @ endpoint))
                | Posted statusCode body \<Rightarrow>
                    (case body of
                       Some content \<Rightarrow> (bytes_to_string content, None)
                     | None \<Rightarrow> ([], Some ''Error reading output from HTTP response'')))
     in go_bind (Release packet bp) (\<lambda>bp. Ret (res, bp, posts)))"

subsection \<open>Logging\<close>

record RedisPubSubWriter =
  ps_addr :: string
  ps_chan :: string

text \<open>\<open>receive\<close> is the outcome of the first \<open>Receive\<close> on the subscription.\<close>

definition NewRedisPubSubWriter :: "(string \<Rightarrow> string \<Rightarrow> error option) \<Rightarrow> string \<Rightarrow> string \<Rightarrow> nat \<Rightarrow>
    RedisPubSubWriter option \<times> error option" where
  "NewRedisPubSubWriter receive chanName hostname port =
     (let res = \<lparr>ps_addr = hostname @ '':'' @ Itoa port, ps_chan = chanName\<rparr> in
      case receive (ps_addr res) chanName of
        Some err \<Rightarrow> (None, Some (''Error attempt opening Redis Pub/Sub Channel: '' @ err))
      | None \<Rightarrow> (Some res, None))"

text \<open>\<open>Write\<close> publishes the bytes on the channel and returns what \<open>Publish\<close> returns.\<close>

definition RedisPubSubWriter_Write :: "(string \<Rightarrow> string \<Rightarrow> string \<Rightarrow> int \<times> error option) \<Rightarrow> bytes \<Rightarrow> RedisPubSubWriter \<Rightarrow>
    int \<times> error option" where
  "RedisPubSubWriter_Write publish buff r = publish (ps_addr r) (ps_chan r) (bytes_to_string buff)"

text \<open>\<open>Close\<close> returns what the client's \<open>Close\<close> returns.\<close>

definition RedisPubSubWriter_Close :: "(string \<Rightarrow> error option) \<Rightarrow> RedisPubSubWriter \<Rightarrow> error option" where
  "RedisPubSubWriter_Close close_client r = close_client (ps_addr r)"

text \<open>
  \<open>time.Now().UnixNano()\<close> of a clock that shows \<open>sec\<close> seconds and \<open>nsec\<close> nanoseconds since 1970: computed in
  int64, so it wraps around beyond the year 2262.
\<close>

definition GetNanoSeconds :: "int \<Rightarrow> int \<Rightarrow> i64" where
  "GetNanoSeconds sec nsec = word_of_int (sec * 1000000000 + nsec)"

datatype log_target = Stdin | PubSub RedisPubSubWriter

record Logger =
  log_out :: log_target
  log_prefix :: string

text \<open>The Redis writer is commented out; the standard input takes its place.\<close>

definition NewRedisLogger :: "string \<Rightarrow> string \<Rightarrow> string \<Rightarrow> nat \<Rightarrow> Logger option \<times> error option" where
  "NewRedisLogger logPrefix chanName hostname port = (Some \<lparr>log_out = Stdin, log_prefix = logPrefix\<rparr>, None)"

subsection \<open>The variables of the package\<close>

record 'b utils_vars =
  u_RLogger :: "Logger option"
  u_CPMap :: "'b CntPortMapping"
  u_PCMap :: PortCntMapping

definition utils_init :: "'b \<Rightarrow> 'b utils_vars go" where
  "utils_init new_set =
     (case NewRedisLogger ''[Gateway]'' ''logChan'' ''127.0.0.1'' 6379 of (RLogger, err) \<Rightarrow>
        if err \<noteq> None then Exit
        else Ret \<lparr>u_RLogger = RLogger, u_CPMap = NewCntPortMapping new_set, u_PCMap = NewPortCntMapping (120 * 1000000000)\<rparr>)"

subsection \<open>Flowlets\<close>

record Flowlet =
  fl_size :: u16
  fl_latency :: int

record FlowletMap =
  maxSize :: u16
  maxLatency :: int
  innMap :: "u16 \<Rightarrow> Flowlet option"

definition NewFlowletMap :: "u16 \<Rightarrow> int \<Rightarrow> FlowletMap" where
  "NewFlowletMap sizeLimit latencyLimit = \<lparr>maxSize = 0, maxLatency = 0, innMap = (\<lambda>_. None)\<rparr>"

text \<open>The method only locks and unlocks.\<close>

definition FlowletMap_AddInstance :: "bytes \<Rightarrow> u16 \<Rightarrow> int \<Rightarrow> FlowletMap \<Rightarrow> FlowletMap" where
  "FlowletMap_AddInstance routeInfo size_f timing fm = fm"

subsection \<open>The listener for mapping requests\<close>

text \<open>Connections are accepted and dropped; an error ends the process. A list of outcomes of \<open>AcceptTCP\<close>.\<close>

fun mapping_loop :: "error option list \<Rightarrow> 'm \<Rightarrow> 'm go" where
  "mapping_loop [] m = Ret m"
| "mapping_loop (err # errs) m = (if err \<noteq> None then Exit else mapping_loop errs m)"

definition ListenForMappingRequests :: "error option \<Rightarrow> error option list \<Rightarrow> 'b CntPortMapping \<times> PortCntMapping \<Rightarrow>
    ('b CntPortMapping \<times> PortCntMapping) go" where
  "ListenForMappingRequests listen accepts m = (if listen \<noteq> None then Exit else mapping_loop accepts m)"

subsection \<open>The packet printer\<close>

text \<open>
  Rounds of the loop: a failed read is logged and skipped; the whole IP packet is taken as a UDP packet. The
  result lists the source address and the two ports of each line it prints.
\<close>

fun udpreceiver_loop :: "(bytes \<Rightarrow> bytes go) \<Rightarrow> (bytes \<Rightarrow> u16 go) \<Rightarrow> (bytes \<Rightarrow> u16 go) \<Rightarrow> bytes option list \<Rightarrow> bytes \<Rightarrow>
    (bytes \<times> u16 \<times> u16) list go" where
  "udpreceiver_loop SourceAddress SourcePort DestinationPort [] buff = Ret []"
| "udpreceiver_loop SourceAddress SourcePort DestinationPort (None # rs) buff =
     udpreceiver_loop SourceAddress SourcePort DestinationPort rs buff"
| "udpreceiver_loop SourceAddress SourcePort DestinationPort (Some pkt # rs) buff =
     (let buff = go_copy buff pkt;
          ipPkt = take (min (length pkt) (length buff)) buff;
          udpPkt = ipPkt in
      go_bind (SourcePort udpPkt) (\<lambda>sourcePort.
      go_bind (DestinationPort udpPkt) (\<lambda>destPort.
      go_bind (SourceAddress ipPkt) (\<lambda>addr.
      go_bind (udpreceiver_loop SourceAddress SourcePort DestinationPort rs buff) (\<lambda>out.
      Ret ((addr, sourcePort, destPort) # out))))))"

definition udpreceiver_main :: "error option \<Rightarrow> (bytes \<Rightarrow> bytes go) \<Rightarrow> (bytes \<Rightarrow> u16 go) \<Rightarrow> (bytes \<Rightarrow> u16 go) \<Rightarrow>
    bytes option list \<Rightarrow> (bytes \<times> u16 \<times> u16) list go" where
  "udpreceiver_main listen SourceAddress SourcePort DestinationPort reads =
     (if listen \<noteq> None then Exit
      else udpreceiver_loop SourceAddress SourcePort DestinationPort reads (replicate 65535 0))"

section \<open>Lemmas\<close>

text \<open>What the package documents: the source port is the first 16-bit field, the destination port the second.\<close>

definition udp_header_laws :: "(bytes \<Rightarrow> u16 go) \<Rightarrow> (bytes \<Rightarrow> u16 go) \<Rightarrow> bool" where
  "udp_header_laws SourcePort DestinationPort \<longleftrightarrow>
     (\<forall>p. 8 \<le> length p \<longrightarrow> SourcePort p = Ret (be16 (p ! 0) (p ! 1)) \<and> DestinationPort p = Ret (be16 (p ! 2) (p ! 3)))"

lemma mapping_loop_eq: "mapping_loop errs m = (if set errs \<subseteq> {None} then Ret m else Exit)"
  by (induction errs) auto

text \<open>The port mappings are never changed by a mapping request: the code that would is commented out.\<close>

lemma mapping_requests_ignored:
  "ListenForMappingRequests listen accepts m = (if listen = None \<and> set accepts \<subseteq> {None} then Ret m else Exit)"
  by (simp add: ListenForMappingRequests_def mapping_loop_eq)

text \<open>Neither the limits of a new map nor an added instance leave a trace.\<close>

lemma flowlets_are_stubs:
  "NewFlowletMap l t = NewFlowletMap l' t'" "innMap (FlowletMap_AddInstance r n d (NewFlowletMap l t)) = (\<lambda>_. None)"
  by (simp_all add: NewFlowletMap_def FlowletMap_AddInstance_def)

text \<open>The start-up of the package always succeeds, with empty mappings, and logs to the standard input.\<close>

lemma utils_init_returns:
  "\<exists>u. utils_init new_set = Ret u \<and> map_option log_out (u_RLogger u) = Some Stdin
    \<and> am (u_CPMap u) = (\<lambda>_. None) \<and> im (u_PCMap u) = (\<lambda>_. None)"
  by (simp add: utils_init_def NewRedisLogger_def NewCntPortMapping_def NewPortCntMapping_def)

lemma redis_writer_address:
  "NewRedisPubSubWriter receive chanName hostname port = (Some r, err) \<Longrightarrow>
   err = None \<and> RedisPubSubWriter_Write publish buff r = publish (hostname @ '':'' @ Itoa port) chanName (bytes_to_string buff)
   \<and> RedisPubSubWriter_Close close_client r = close_client (hostname @ '':'' @ Itoa port)"
  by (auto simp: NewRedisPubSubWriter_def RedisPubSubWriter_Write_def RedisPubSubWriter_Close_def Let_def split: option.splits)

text \<open>The reading is exact, and so orders moments, from 1970 to the seconds that int64 nanoseconds can count.\<close>

lemma GetNanoSeconds_exact:
  assumes "0 \<le> sec" and "sec < 9223372036" and "0 \<le> nsec" and "nsec < 1000000000"
  shows "sint (GetNanoSeconds sec nsec) = sec * 1000000000 + nsec"
proof -
  have "signed_take_bit 63 (sec * 1000000000 + nsec) = sec * 1000000000 + nsec"
    using assms by (intro signed_take_bit_int_eq_self) auto
  then show ?thesis unfolding GetNanoSeconds_def by (simp only: sint_sbintrunc') simp
qed

lemma GetNanoSeconds_order:
  assumes "0 \<le> s" "s < 9223372036" "0 \<le> n" "n < 1000000000" and "0 \<le> s'" "s' < 9223372036" "0 \<le> n'" "n' < 1000000000"
  shows "sint (GetNanoSeconds s n) < sint (GetNanoSeconds s' n') \<longleftrightarrow> s < s' \<or> (s = s' \<and> n < n')"
  using assms by (auto simp: GetNanoSeconds_exact)

section \<open>Properties\<close>

text \<open>
  Posting a buffer of the pool, in every state the pool and its goroutines can reach: the content of the
  buffer is posted once, the call returns whatever the server answers (an error exactly when nothing came
  back), and the buffer is given back exactly once, which leads to a reachable state again.
\<close>

theorem SendToEndpoint_releases:
  assumes "pool_reachable buffSize poolSize s" and "packet \<in> set (pl_held s)"
  shows "\<exists>res err bp. SendToEndpoint PostForm packet endpoint (pl_bp s, posts) =
      Ret ((res, err), bp, posts @ [(endpoint, bytes_to_string (bp_buff (pl_bp s) packet))])
    \<and> pool_reachable buffSize poolSize (s\<lparr>pl_bp := bp, pl_held := remove1 packet (pl_held s)\<rparr>)
    \<and> (err = None \<longleftrightarrow> (\<exists>code body. PostForm endpoint (bytes_to_string (bp_buff (pl_bp s) packet)) = Posted code (Some body)))"
proof -
  obtain bp where bp: "Release packet (pl_bp s) = Ret bp"
    using Release_never_blocks [OF assms(1)] assms(2) by (auto simp: returns_iff)
  have "pool_reachable buffSize poolSize (s\<lparr>pl_bp := bp, pl_held := remove1 packet (pl_held s)\<rparr>)"
    by (rule pool_next [OF assms(1) release [OF assms(2) bp]])
  then show ?thesis
    using bp by (auto simp: SendToEndpoint_def Let_def split: post_result.splits option.splits)
qed

theorem SendToEndpoint_releases_witness:
  "\<exists>bp. SendToEndpoint (\<lambda>_ _. Posted 500 None) 0 ''http://h'' (pl_bp (pool_ex_taken 2), []) =
      Ret (([], Some ''Error reading output from HTTP response''), bp, [(''http://h'', replicate 4 (CHR 0x00))])"
proof -
  have held: "0 \<in> set (pl_held (pool_ex_taken 2))" by (simp add: pool_ex_taken_def)
  have b: "bytes_to_string (bp_buff (pl_bp (pool_ex_taken 2)) 0) = replicate 4 (CHR 0x00)" by code_simp
  from SendToEndpoint_releases [OF pool_ex_taken_reachable held, of "\<lambda>_ _. Posted 500 None" "''http://h''" "[]"]
  obtain res err bp where r: "SendToEndpoint (\<lambda>_ _. Posted 500 None) 0 ''http://h'' (pl_bp (pool_ex_taken 2), []) =
      Ret ((res, err), bp, [(''http://h'', bytes_to_string (bp_buff (pl_bp (pool_ex_taken 2)) 0))])" by auto
  then have "res = []" "err = Some ''Error reading output from HTTP response''" by (auto simp: SendToEndpoint_def Let_def)
  then show ?thesis using r unfolding b by blast
qed

text \<open>
  The packet printer prints the wrong ports: it reads the IP header as if it were the UDP header, so the
  source port it prints is the version byte and the type of service, and the destination port is the total
  length of the packet.
\<close>

theorem udpreceiver_prints_ip_header:
  assumes "udp_header_laws SourcePort DestinationPort" and "20 \<le> length pkt" and "length pkt \<le> 65535"
    and "SourceAddress pkt = Ret addr"
  shows "udpreceiver_main None SourceAddress SourcePort DestinationPort [Some pkt] =
    Ret [(addr, be16 (pkt ! 0) (pkt ! 1), be16 (pkt ! 2) (pkt ! 3))]"
proof -
  have "take (length pkt) (go_copy (replicate 65535 0) pkt) = pkt" using assms(3) by (simp add: go_copy_def)
  then show ?thesis
    using assms by (simp add: udpreceiver_main_def udp_header_laws_def Let_def min_absorb1)
qed

theorem udpreceiver_prints_ip_header_witness:
  "udpreceiver_main None (\<lambda>p. Ret (take 4 (drop 12 p))) (\<lambda>p. Ret (be16 (p ! 0) (p ! 1))) (\<lambda>p. Ret (be16 (p ! 2) (p ! 3)))
     [Some ([0x45, 0, 0, 28] @ replicate 24 7)] = Ret [([7, 7, 7, 7], be16 0x45 0, be16 0 28)]"
  using udpreceiver_prints_ip_header [of "\<lambda>p. Ret (be16 (p ! 0) (p ! 1))" "\<lambda>p. Ret (be16 (p ! 2) (p ! 3))"
      "[0x45, 0, 0, 28] @ replicate 24 7" "\<lambda>p. Ret (take 4 (drop 12 p))" "[7, 7, 7, 7]"]
  by (simp add: udp_header_laws_def numeral_eq_Suc)

end
