(* ===== verification/Move_Runs.thy ===== *)
theory Move_Runs
  imports Main
begin

text \<open>
  Goroutines that a scheduler interleaves, in the form the models of the NAT leases and of the
  registration share: a partial function \<open>mv\<close> gives the effect of one move (one section of one
  goroutine) where that move is possible, and an interleaving is a list of moves.

  \<open>moving_system\<close> is the contract of an invariant that every move keeps, \<open>ending_system\<close> that of a
  system whose moves run out, and which is stuck only when it has finished. The lemmas on whole
  interleavings are proved here once, from the contract on single moves.
\<close>

fun run_moves :: "('m \<Rightarrow> 's \<Rightarrow> 's option) \<Rightarrow> 'm list \<Rightarrow> 's \<Rightarrow> 's option" where
  "run_moves mv [] s = Some s"
| "run_moves mv (m # ms) s = (case mv m s of None \<Rightarrow> None | Some s' \<Rightarrow> run_moves mv ms s')"

lemma run_moves_append:
  "run_moves mv (ms @ ms') s = (case run_moves mv ms s of None \<Rightarrow> None | Some s' \<Rightarrow> run_moves mv ms' s')"
  by (induction mv ms s rule: run_moves.induct) (auto split: option.split)

lemma run_moves_trans:
  "run_moves mv ms s = Some s' \<Longrightarrow> run_moves mv ms' s' = Some s'' \<Longrightarrow> run_moves mv (ms @ ms') s = Some s''"
  by (simp add: run_moves_append)

locale moving_system =
  fixes mv :: "'m \<Rightarrow> 's \<Rightarrow> 's option" and inv :: "'s \<Rightarrow> bool"
  assumes inv_move: "inv s \<Longrightarrow> mv m s = Some s' \<Longrightarrow> inv s'"
begin

lemma inv_run: "inv s \<Longrightarrow> run_moves mv ms s = Some s' \<Longrightarrow> inv s'"
  by (induction ms arbitrary: s) (auto split: option.splits dest: inv_move)

end

locale ending_system = moving_system mv inv
  for mv :: "'m \<Rightarrow> 's \<Rightarrow> 's option" and inv :: "'s \<Rightarrow> bool" +
  fixes left :: "'s \<Rightarrow> nat" and finished :: "'s \<Rightarrow> bool"
  assumes left_move: "inv s \<Longrightarrow> mv m s = Some s' \<Longrightarrow> left s' < left s"
    and not_stuck: "inv s \<Longrightarrow> \<not> finished s \<Longrightarrow> \<exists>m s'. mv m s = Some s'"
begin

lemma run_length:
  assumes "inv s" and "run_moves mv ms s = Some s'"
  shows "length ms + left s' \<le> left s"
  using assms
proof (induction ms arbitrary: s)
  case (Cons m ms)
  then obtain s1 where s1: "mv m s = Some s1" "run_moves mv ms s1 = Some s'" by (auto split: option.splits)
  then show ?case using Cons.IH [of s1] left_move [OF Cons.prems(1) s1(1)] inv_move [OF Cons.prems(1) s1(1)] by simp
qed simp

lemma finishes: "inv s \<Longrightarrow> \<exists>ms s'. run_moves mv ms s = Some s' \<and> finished s'"
proof (induction "left s" arbitrary: s rule: less_induct)
  case less
  show ?case
  proof (cases "finished s")
    case True
    then show ?thesis by (metis run_moves.simps(1))
  next
    case False
    obtain m s1 where s1: "mv m s = Some s1" using not_stuck [OF less.prems False] by blast
    obtain ms s' where "run_moves mv ms s1 = Some s'" "finished s'"
      using less.hyps [OF left_move [OF less.prems s1] inv_move [OF less.prems s1]] by blast
    then have "run_moves mv (m # ms) s = Some s'" "finished s'" using s1 by simp_all
    then show ?thesis by blast
  qed
qed

lemma can_always_finish:
  assumes "inv s" and "run_moves mv ms s = Some s'"
  shows "length ms \<le> left s \<and> (\<exists>ms' s''. run_moves mv (ms @ ms') s = Some s'' \<and> finished s'')"
proof -
  obtain ms' s'' where "run_moves mv ms' s' = Some s''" "finished s''"
    using finishes [OF inv_run [OF assms]] by blast
  then have "run_moves mv (ms @ ms') s = Some s''" using run_moves_trans [OF assms(2)] by blast
  then show ?thesis using run_length [OF assms] \<open>finished s''\<close> by auto
qed

end

end
