(* ===== verification/Assign_Threads.thy ===== *)
theory Assign_Threads
  imports Nat_Context Move_Runs
begin

text \<open>
  \<open>AssignPorts\<close> (\<open>src/nat/context.go\<close>) leaves the work to two goroutines that share the bit set
  without a lock. Here they are interleaved call by call: each section is one method call on the
  bit set, one exchange on an unbuffered channel, or the final \<open>append\<close>. The methods of the bit set
  are taken to be atomic.

  \<open>acc\<close> is an array that the goroutine and \<open>AssignPorts\<close> share: what \<open>append\<close> copies is what the
  goroutine has written by then.
\<close>

section \<open>Definitions\<close>

text \<open>Where a goroutine of \<open>setHelper\<close> stands, with its local variables.\<close>

datatype helper =
    FindClear nat "u16 list" \<comment> \<open>before \<open>NextClear(offset)\<close>\<close>
  | SendEarly nat "u16 list" \<comment> \<open>at the send for lack of a clear bit, with \<open>idx\<close>\<close>
  | Probe nat nat nat "u16 list" \<comment> \<open>at the head of the loop, with \<open>idx\<close>, \<open>length\<close> and \<open>i\<close>\<close>
  | Mark nat nat nat "u16 list" \<comment> \<open>before \<open>Set(idx)\<close>, the bit having been clear\<close>
  | SendLast "u16 list"
  | Returned "u16 list"

fun helper_acc :: "helper \<Rightarrow> u16 list" where
  "helper_acc (FindClear off acc) = acc"
| "helper_acc (SendEarly idx acc) = acc"
| "helper_acc (Probe idx len i acc) = acc"
| "helper_acc (Mark idx len i acc) = acc"
| "helper_acc (SendLast acc) = acc"
| "helper_acc (Returned acc) = acc"

fun helper_section :: "'b bitset_ops \<Rightarrow> helper \<Rightarrow> 'b \<Rightarrow> (helper \<times> 'b) option" where
  "helper_section B (FindClear off acc) b =
     (let (idx, avail) = NextClear B off b
      in Some (if \<not> avail then SendEarly idx acc else Probe idx (idx + 100) 0 acc, b))"
| "helper_section B (Probe idx len i acc) b =
     Some (if idx < len then (if \<not> Test B idx b then Mark idx len i acc else Probe (Suc idx) len i acc)
           else SendLast acc, b)"
| "helper_section B (Mark idx len i acc) b =
     Some (Probe (Suc idx) len (Suc i) (acc[i := of_nat idx]), SetBit B idx b)"
| "helper_section B (SendEarly idx acc) b = None"
| "helper_section B (SendLast acc) b = None"
| "helper_section B (Returned acc) b = None"

text \<open>
  The receiver takes the value that the goroutine waits to send. After the first send there is no
  return: the goroutine goes on with its window.
\<close>

fun helper_received :: "helper \<Rightarrow> helper option" where
  "helper_received (SendEarly idx acc) = Some (Probe idx (idx + 100) 0 acc)"
| "helper_received (SendLast acc) = Some (Returned acc)"
| "helper_received _ = None"

datatype assign_pc = RecvLower | RecvUpper | Append | Unlocked "u16 list"

record 'b assign_state =
  a_cp :: "'b CntPortMapping"
  hlower :: helper
  hupper :: helper
  apc :: assign_pc

datatype amove = LowerRuns | UpperRuns | ReceiveLower | ReceiveUpper | AppendAndUnlock

fun assign_move :: "'b bitset_ops \<Rightarrow> ptr \<Rightarrow> amove \<Rightarrow> 'b assign_state \<Rightarrow> 'b assign_state option" where
  "assign_move B a LowerRuns s =
     map_option (\<lambda>(h, b). s\<lparr>hlower := h, a_cp := (a_cp s)\<lparr>bSet := b\<rparr>\<rparr>) (helper_section B (hlower s) (bSet (a_cp s)))"
| "assign_move B a UpperRuns s =
     map_option (\<lambda>(h, b). s\<lparr>hupper := h, a_cp := (a_cp s)\<lparr>bSet := b\<rparr>\<rparr>) (helper_section B (hupper s) (bSet (a_cp s)))"
| "assign_move B a ReceiveLower s =
     (if apc s = RecvLower then map_option (\<lambda>h. s\<lparr>hlower := h, apc := RecvUpper\<rparr>) (helper_received (hlower s)) else None)"
| "assign_move B a ReceiveUpper s =
     (if apc s = RecvUpper then map_option (\<lambda>h. s\<lparr>hupper := h, apc := Append\<rparr>) (helper_received (hupper s)) else None)"
| "assign_move B a AppendAndUnlock s =
     (if apc s = Append
      then let res = helper_acc (hlower s) @ helper_acc (hupper s)
           in Some (s\<lparr>apc := Unlocked res, a_cp := (a_cp s)\<lparr>am := (am (a_cp s))(a := Some res)\<rparr>\<rparr>)
      else None)"

text \<open>The state after \<open>cp.mu.Lock()\<close>, with the two goroutines started.\<close>

definition assign_start :: "'b CntPortMapping \<Rightarrow> 'b assign_state" where
  "assign_start cp = \<lparr>a_cp = cp, hlower = FindClear 1 (replicate 100 0), hupper = FindClear 1025 (replicate 100 0), apc = RecvLower\<rparr>"

abbreviation assign_run :: "'b bitset_ops \<Rightarrow> ptr \<Rightarrow> amove list \<Rightarrow> 'b CntPortMapping \<Rightarrow> 'b assign_state option" where
  "assign_run B a ms cp \<equiv> run_moves (assign_move B a) ms (assign_start cp)"

text \<open>The call has returned.\<close>

definition assigned :: "'b assign_state \<Rightarrow> bool" where
  "assigned s \<longleftrightarrow> (case apc s of Unlocked res \<Rightarrow> True | _ \<Rightarrow> False)"

section \<open>Lemmas\<close>

subsection \<open>The call returns\<close>

fun helper_left :: "helper \<Rightarrow> nat" where
  "helper_left (FindClear off acc) = 204"
| "helper_left (SendEarly idx acc) = 203"
| "helper_left (Probe idx len i acc) = 2 * (len - idx) + 2"
| "helper_left (Mark idx len i acc) = 2 * (len - idx) + 1"
| "helper_left (SendLast acc) = 1"
| "helper_left (Returned acc) = 0"

fun main_left :: "assign_pc \<Rightarrow> nat" where
  "main_left RecvLower = 3"
| "main_left RecvUpper = 2"
| "main_left Append = 1"
| "main_left (Unlocked res) = 0"

definition assign_left :: "'b assign_state \<Rightarrow> nat" where
  "assign_left s = helper_left (hlower s) + helper_left (hupper s) + main_left (apc s)"

text \<open>A goroutine that has not been heard yet has not returned, and a bit found clear lies in its window.\<close>

fun in_window :: "helper \<Rightarrow> bool" where
  "in_window (Mark idx len i acc) \<longleftrightarrow> idx < len"
| "in_window _ \<longleftrightarrow> True"

definition unheard :: "'b assign_state \<Rightarrow> bool" where
  "unheard s \<longleftrightarrow> in_window (hlower s) \<and> in_window (hupper s) \<and>
     (apc s = RecvLower \<longrightarrow> (\<forall>acc. hlower s \<noteq> Returned acc)) \<and>
     (apc s = RecvLower \<or> apc s = RecvUpper \<longrightarrow> (\<forall>acc. hupper s \<noteq> Returned acc))"

lemma assign_moveE:
  assumes "assign_move B a m s = Some s'"
  obtains (lower) h b where "helper_section B (hlower s) (bSet (a_cp s)) = Some (h, b)"
      and "s' = s\<lparr>hlower := h, a_cp := (a_cp s)\<lparr>bSet := b\<rparr>\<rparr>"
    | (upper) h b where "helper_section B (hupper s) (bSet (a_cp s)) = Some (h, b)"
      and "s' = s\<lparr>hupper := h, a_cp := (a_cp s)\<lparr>bSet := b\<rparr>\<rparr>"
    | (recv_lower) h where "apc s = RecvLower" and "helper_received (hlower s) = Some h" and "s' = s\<lparr>hlower := h, apc := RecvUpper\<rparr>"
    | (recv_upper) h where "apc s = RecvUpper" and "helper_received (hupper s) = Some h" and "s' = s\<lparr>hupper := h, apc := Append\<rparr>"
    | (append) res where "apc s = Append" and "res = helper_acc (hlower s) @ helper_acc (hupper s)"
      and "s' = s\<lparr>apc := Unlocked res, a_cp := (a_cp s)\<lparr>am := (am (a_cp s))(a := Some res)\<rparr>\<rparr>"
  using assms by (cases m) (auto simp: Let_def split: if_splits)

lemma helper_section_left:
  assumes "helper_section B h b = Some (h', b')" and "in_window h"
  shows "helper_left h' < helper_left h \<and> in_window h' \<and> (\<forall>acc. h' \<noteq> Returned acc)"
  using assms by (cases h) (auto split: prod.splits if_splits)

lemma helper_received_left:
  assumes "helper_received h = Some h'"
  shows "helper_left h' < helper_left h \<and> in_window h'"
  using assms by (cases h) auto

lemma helper_not_stuck:
  assumes "\<forall>acc. h \<noteq> Returned acc"
  shows "helper_section B h b \<noteq> None \<or> helper_received h \<noteq> None"
  using assms by (cases h) (auto split: prod.splits)

interpretation assign: ending_system "assign_move B a" unheard assign_left assigned for B :: "'b bitset_ops" and a
proof
  fix s s' :: "'b assign_state" and m
  assume u: "unheard s" and m: "assign_move B a m s = Some s'"
  have "unheard s' \<and> assign_left s' < assign_left s"
    using m
  proof (cases rule: assign_moveE)
    case (lower h b)
    then show ?thesis using u helper_section_left [OF lower(1)] by (simp add: unheard_def assign_left_def)
  next
    case (upper h b)
    then show ?thesis using u helper_section_left [OF upper(1)] by (simp add: unheard_def assign_left_def)
  next
    case (recv_lower h)
    then show ?thesis using u helper_received_left [OF recv_lower(2)] by (simp add: unheard_def assign_left_def)
  next
    case (recv_upper h)
    then show ?thesis using u helper_received_left [OF recv_upper(2)] by (simp add: unheard_def assign_left_def)
  next
    case (append res)
    then show ?thesis using u by (simp add: unheard_def assign_left_def)
  qed
  then show "unheard s'" "assign_left s' < assign_left s" by blast+
next
  fix s :: "'b assign_state"
  assume u: "unheard s" and n: "\<not> assigned s"
  have enabled: "\<exists>m s'. assign_move B a m s = Some s'" if "assign_move B a m s \<noteq> None" for m
    using that by blast
  show "\<exists>m s'. assign_move B a m s = Some s'"
  proof (cases "apc s")
    case RecvLower
    then have "helper_section B (hlower s) (bSet (a_cp s)) \<noteq> None \<or> helper_received (hlower s) \<noteq> None"
      using u by (intro helper_not_stuck) (simp add: unheard_def)
    then have "assign_move B a LowerRuns s \<noteq> None \<or> assign_move B a ReceiveLower s \<noteq> None"
      using RecvLower by simp
    then show ?thesis using enabled by blast
  next
    case RecvUpper
    then have "helper_section B (hupper s) (bSet (a_cp s)) \<noteq> None \<or> helper_received (hupper s) \<noteq> None"
      using u by (intro helper_not_stuck) (simp add: unheard_def)
    then have "assign_move B a UpperRuns s \<noteq> None \<or> assign_move B a ReceiveUpper s \<noteq> None"
      using RecvUpper by simp
    then show ?thesis using enabled by blast
  next
    case Append
    then show ?thesis by (intro enabled [of AppendAndUnlock]) (simp add: Let_def)
  next
    case Unlocked
    then show ?thesis using n by (simp add: assigned_def)
  qed
qed

lemma unheard_start: "unheard (assign_start cp)"
  by (simp add: unheard_def assign_start_def)

text \<open>The result is recorded for the container.\<close>

definition recorded :: "ptr \<Rightarrow> 'b assign_state \<Rightarrow> bool" where
  "recorded a s \<longleftrightarrow> (\<forall>res. apc s = Unlocked res \<longrightarrow> am (a_cp s) a = Some res)"

interpretation recording: moving_system "assign_move B a" "recorded a" for B :: "'b bitset_ops" and a
  by unfold_locales (auto simp: recorded_def elim!: assign_moveE)

lemma am_of_returned: "assign_run B a ms cp = Some s \<Longrightarrow> apc s = Unlocked res \<Longrightarrow> am (a_cp s) a = Some res"
  using recording.inv_run [of a "assign_start cp" B ms s] by (simp add: recorded_def assign_start_def)

subsection \<open>One goroutine and its window\<close>

text \<open>
  Setting one bit does not change which bit \<open>NextClear\<close> finds, unless it is that one: with
  \<open>bitset_laws\<close>, what the package documents of \<open>NextClear\<close>.
\<close>

definition bitset_stable :: "'b bitset_ops \<Rightarrow> bool" where
  "bitset_stable B \<longleftrightarrow> (\<forall>i n j b. NextClear B i b = (n, True) \<and> j \<noteq> n \<longrightarrow> NextClear B i (SetBit B j b) = (n, True))"

text \<open>The free bits of the window from \<open>n\<close> on that lie before \<open>idx\<close>, and the entries stored for them.\<close>

abbreviation free_before :: "'b bitset_ops \<Rightarrow> 'b \<Rightarrow> nat \<Rightarrow> nat \<Rightarrow> nat list" where
  "free_before B b0 n idx \<equiv> filter (\<lambda>k. \<not> Test B k b0) [n..<idx]"

definition stored :: "'b bitset_ops \<Rightarrow> 'b \<Rightarrow> nat \<Rightarrow> nat \<Rightarrow> u16 list" where
  "stored B b0 n idx = map of_nat (free_before B b0 n idx) @ replicate (100 - length (free_before B b0 n idx)) 0"

text \<open>
  The goroutine that found \<open>n\<close>: \<open>b0\<close> are the bits at the start of the call, \<open>b\<close> the present ones,
  of which only the window matters.
\<close>

definition marked_upto :: "'b bitset_ops \<Rightarrow> 'b \<Rightarrow> nat \<Rightarrow> nat \<Rightarrow> 'b \<Rightarrow> bool" where
  "marked_upto B b0 n idx b \<longleftrightarrow> n \<le> idx \<and> idx \<le> n + 100 \<and> (\<forall>k. n \<le> k \<and> k < n + 100 \<longrightarrow> Test B k b = (Test B k b0 \<or> k < idx))"

fun helper_ok :: "'b bitset_ops \<Rightarrow> 'b \<Rightarrow> nat \<Rightarrow> helper \<Rightarrow> 'b \<Rightarrow> bool" where
  "helper_ok B b0 n (FindClear off acc) b \<longleftrightarrow> NextClear B off b = (n, True) \<and> acc = replicate 100 0 \<and> marked_upto B b0 n n b"
| "helper_ok B b0 n (SendEarly idx acc) b \<longleftrightarrow> False"
| "helper_ok B b0 n (Probe idx len i acc) b \<longleftrightarrow> len = n + 100 \<and> i = length (free_before B b0 n idx)
     \<and> acc = stored B b0 n idx \<and> marked_upto B b0 n idx b"
| "helper_ok B b0 n (Mark idx len i acc) b \<longleftrightarrow> len = n + 100 \<and> i = length (free_before B b0 n idx)
     \<and> acc = stored B b0 n idx \<and> marked_upto B b0 n idx b \<and> idx < n + 100 \<and> \<not> Test B idx b0"
| "helper_ok B b0 n (SendLast acc) b \<longleftrightarrow> acc = stored B b0 n (n + 100) \<and> marked_upto B b0 n (n + 100) b"
| "helper_ok B b0 n (Returned acc) b \<longleftrightarrow> acc = stored B b0 n (n + 100) \<and> marked_upto B b0 n (n + 100) b"

lemma length_free_before: "length (free_before B b0 n idx) \<le> idx - n"
  using length_filter_le [of "\<lambda>k. \<not> Test B k b0" "[n..<idx]"] by simp

lemma stored_start [simp]: "stored B b0 n n = replicate 100 0"
  by (simp add: stored_def)

lemma stored_next:
  assumes "n \<le> idx" and "idx < n + 100" and "\<not> Test B idx b0"
  shows "(stored B b0 n idx)[length (free_before B b0 n idx) := of_nat idx] = stored B b0 n (Suc idx)"
proof -
  have "length (free_before B b0 n idx) < 100" using length_free_before [of B b0 n idx] assms by linarith
  then obtain k where k: "100 - length (free_before B b0 n idx) = Suc k" by (metis Suc_diff_Suc)
  then have "100 - length (free_before B b0 n (Suc idx)) = k" using assms by simp
  then show ?thesis using assms k by (simp add: stored_def list_update_append)
qed

text \<open>A section of the goroutine keeps its assertion, and writes at most one bit, of its own window.\<close>

lemma helper_section_ok:
  assumes laws: "bitset_laws B" and ok: "helper_ok B b0 n h b" and sec: "helper_section B h b = Some (h', b')"
  shows "helper_ok B b0 n h' b' \<and> (b' = b \<or> (\<exists>j. n \<le> j \<and> j < n + 100 \<and> b' = SetBit B j b))"
proof (cases h)
  case (Probe idx len i acc)
  then show ?thesis
    using ok sec by (auto simp: marked_upto_def stored_def le_less_Suc_eq less_Suc_eq split: if_splits)
next
  case (Mark idx len i acc)
  then have b': "b' = SetBit B idx b" and h': "h' = Probe (Suc idx) len (Suc i) (acc[i := of_nat idx])" using sec by auto
  have in_w: "n \<le> idx" "idx < n + 100" "\<not> Test B idx b0" using ok Mark by (auto simp: marked_upto_def)
  have "marked_upto B b0 n (Suc idx) b'"
    using ok Mark laws b' in_w by (auto simp: marked_upto_def bitset_laws_def)
  then show ?thesis using ok Mark in_w h' b' stored_next [OF in_w] by auto
qed (use ok sec in \<open>auto split: prod.splits\<close>)

lemma helper_received_ok:
  assumes "helper_ok B b0 n h b" and "helper_received h = Some h'"
  shows "helper_ok B b0 n h' b \<and> h' = Returned (helper_acc h')"
  using assms by (cases h) auto

text \<open>It is not disturbed by a write outside of its window.\<close>

lemma helper_ok_other:
  assumes "bitset_laws B" and "bitset_stable B" and "helper_ok B b0 n h b" and "j < n \<or> n + 100 \<le> j"
  shows "helper_ok B b0 n h (SetBit B j b)"
proof -
  have "marked_upto B b0 n idx (SetBit B j b)" if "marked_upto B b0 n idx b" for idx
    using that assms(1,4) by (auto simp: marked_upto_def bitset_laws_def)
  moreover have "NextClear B off (SetBit B j b) = (n, True)" if "NextClear B off b = (n, True)" for off
    using that assms(2,4) by (auto simp: bitset_stable_def)
  ultimately show ?thesis using assms(3) by (cases h) auto
qed

subsection \<open>Two goroutines with disjoint windows\<close>

definition main_ok :: "ptr \<Rightarrow> 'b CntPortMapping \<Rightarrow> 'b assign_state \<Rightarrow> bool" where
  "main_ok a cp s \<longleftrightarrow>
     (apc s \<noteq> RecvLower \<longrightarrow> hlower s = Returned (helper_acc (hlower s))) \<and>
     (apc s \<noteq> RecvLower \<and> apc s \<noteq> RecvUpper \<longrightarrow> hupper s = Returned (helper_acc (hupper s))) \<and>
     cim (a_cp s) = cim cp \<and>
     am (a_cp s) = (case apc s of Unlocked res \<Rightarrow> (am cp)(a := Some res) | _ \<Rightarrow> am cp) \<and>
     (\<forall>res. apc s = Unlocked res \<longrightarrow> res = helper_acc (hlower s) @ helper_acc (hupper s))"

definition windows_ok :: "'b bitset_ops \<Rightarrow> ptr \<Rightarrow> 'b CntPortMapping \<Rightarrow> nat \<Rightarrow> nat \<Rightarrow> 'b assign_state \<Rightarrow> bool" where
  "windows_ok B a cp n m s \<longleftrightarrow> bitset_laws B \<and> bitset_stable B \<and> n + 100 \<le> m \<and>
     helper_ok B (bSet cp) n (hlower s) (bSet (a_cp s)) \<and> helper_ok B (bSet cp) m (hupper s) (bSet (a_cp s)) \<and>
     (\<forall>k. \<not> (n \<le> k \<and> k < n + 100) \<and> \<not> (m \<le> k \<and> k < m + 100) \<longrightarrow> Test B k (bSet (a_cp s)) = Test B k (bSet cp)) \<and>
     main_ok a cp s"

lemma returned_stays: "helper_section B h b = Some (h', b') \<Longrightarrow> h \<noteq> Returned acc"
  by auto

lemma outside_windows:
  assumes "bitset_laws B" and "b' = b \<or> (\<exists>j. n \<le> j \<and> j < n + 100 \<and> b' = SetBit B j b)" and "\<not> (n \<le> k \<and> k < n + 100)"
  shows "Test B k b' = Test B k b"
  using assms by (auto simp: bitset_laws_def)

interpretation windows: moving_system "assign_move B a" "windows_ok B a cp n m" for B :: "'b bitset_ops" and a cp n m
proof
  fix s s' :: "'b assign_state" and mv
  assume ok: "windows_ok B a cp n m s" and mv: "assign_move B a mv s = Some s'"
  then have laws: "bitset_laws B" "bitset_stable B" "n + 100 \<le> m" by (auto simp: windows_ok_def)
  from mv show "windows_ok B a cp n m s'"
  proof (cases rule: assign_moveE)
    case (lower h b)
    have sec: "helper_ok B (bSet cp) n h b" "b = bSet (a_cp s) \<or> (\<exists>j. n \<le> j \<and> j < n + 100 \<and> b = SetBit B j (bSet (a_cp s)))"
      using helper_section_ok [OF laws(1) _ lower(1)] ok by (auto simp: windows_ok_def)
    have other: "helper_ok B (bSet cp) m (hupper s) b"
      using sec(2) ok laws helper_ok_other [OF laws(1,2)] by (auto simp: windows_ok_def)
    have "apc s = RecvLower" using ok returned_stays [OF lower(1)] by (auto simp: windows_ok_def main_ok_def)
    then have "main_ok a cp s'" using ok lower(2) by (simp add: windows_ok_def main_ok_def)
    moreover have "bSet (a_cp s') = b" "hlower s' = h" "hupper s' = hupper s" using lower(2) by simp_all
    ultimately show ?thesis
      using ok sec(1) other outside_windows [OF laws(1) sec(2)] by (simp add: windows_ok_def)
  next
    case (upper h b)
    have sec: "helper_ok B (bSet cp) m h b" "b = bSet (a_cp s) \<or> (\<exists>j. m \<le> j \<and> j < m + 100 \<and> b = SetBit B j (bSet (a_cp s)))"
      using helper_section_ok [OF laws(1) _ upper(1)] ok by (auto simp: windows_ok_def)
    have other: "helper_ok B (bSet cp) n (hlower s) b"
      using sec(2) ok laws helper_ok_other [OF laws(1,2)] by (auto simp: windows_ok_def)
    have "apc s = RecvLower \<or> apc s = RecvUpper"
      using ok returned_stays [OF upper(1)] by (auto simp: windows_ok_def main_ok_def)
    then have "main_ok a cp s'" using ok upper(2) by (auto simp: windows_ok_def main_ok_def)
    moreover have "bSet (a_cp s') = b" "hlower s' = hlower s" "hupper s' = h" using upper(2) by simp_all
    ultimately show ?thesis
      using ok sec(1) other outside_windows [OF laws(1) sec(2)] by (simp add: windows_ok_def)
  next
    case (recv_lower h)
    have "helper_ok B (bSet cp) n h (bSet (a_cp s)) \<and> h = Returned (helper_acc h)"
      using ok by (intro helper_received_ok [OF _ recv_lower(2)]) (simp add: windows_ok_def)
    then show ?thesis using ok recv_lower by (simp add: windows_ok_def main_ok_def)
  next
    case (recv_upper h)
    have "helper_ok B (bSet cp) m h (bSet (a_cp s)) \<and> h = Returned (helper_acc h)"
      using ok by (intro helper_received_ok [OF _ recv_upper(2)]) (simp add: windows_ok_def)
    then show ?thesis using ok recv_upper by (simp add: windows_ok_def main_ok_def)
  next
    case (append res)
    then show ?thesis using ok by (auto simp: windows_ok_def main_ok_def)
  qed
qed

lemma windows_ok_start:
  assumes "bitset_laws B" and "bitset_stable B" and "NextClear B 1 (bSet cp) = (n, True)"
    and "NextClear B 1025 (bSet cp) = (m, True)" and "n + 100 \<le> m"
  shows "windows_ok B a cp n m (assign_start cp)"
  using assms by (auto simp: windows_ok_def main_ok_def assign_start_def marked_upto_def)

text \<open>What \<open>AssignPorts\<close> gives when the goroutines run one after the other.\<close>

lemma NextClear_after_window:
  assumes "bitset_stable B" and "NextClear B off b = (m, True)" and "m \<notin> set ks"
  shows "NextClear B off (snd (setHelper_loop B ks i acc b)) = (m, True)"
  using assms by (induction B ks i acc b rule: setHelper_loop.induct) (auto simp: bitset_stable_def)

lemma AssignPorts_windows:
  assumes laws: "bitset_laws B" "bitset_stable B" and l: "NextClear B 1 (bSet cp) = (n, True)"
    and u: "NextClear B 1025 (bSet cp) = (m, True)" and apart: "n + 100 \<le> m"
  shows "fst (AssignPorts B a cp) = stored B (bSet cp) n (n + 100) @ stored B (bSet cp) m (m + 100)"
    and "Test B k (bSet (snd (AssignPorts B a cp))) \<longleftrightarrow> (n \<le> k \<and> k < n + 100) \<or> (m \<le> k \<and> k < m + 100) \<or> Test B k (bSet cp)"
    and "am (snd (AssignPorts B a cp)) = (am cp)(a := Some (fst (AssignPorts B a cp)))"
    and "cim (snd (AssignPorts B a cp)) = cim cp"
proof -
  define b1 where "b1 = snd (setHelper B 1 (replicate 100 0) (bSet cp))"
  have u1: "NextClear B 1025 b1 = (m, True)"
    using NextClear_after_window [OF laws(2) u, of "[n..<n + 100]" 0 "replicate 100 0"] l apart
    by (simp add: b1_def setHelper_def split: prod.splits)
  have b1: "Test B k b1 \<longleftrightarrow> (n \<le> k \<and> k < n + 100) \<or> Test B k (bSet cp)" for k
    unfolding b1_def by (rule setHelper_bits [OF laws(1) l])
  have "window_ports B m b1 = free_before B (bSet cp) m (m + 100)"
    unfolding window_ports_def using apart by (intro filter_cong) (auto simp: b1)
  then have fu: "fst (setHelper B 1025 (replicate 100 0) b1) = stored B (bSet cp) m (m + 100)"
    using setHelper_ports [OF laws(1) u1] by (simp add: stored_def)
  have fl: "fst (setHelper B 1 (replicate 100 0) (bSet cp)) = stored B (bSet cp) n (n + 100)"
    using setHelper_ports [OF laws(1) l] by (simp add: stored_def window_ports_def)
  show "fst (AssignPorts B a cp) = stored B (bSet cp) n (n + 100) @ stored B (bSet cp) m (m + 100)"
    using fl fu by (simp add: AssignPorts_eq b1_def)
  show "Test B k (bSet (snd (AssignPorts B a cp))) \<longleftrightarrow> (n \<le> k \<and> k < n + 100) \<or> (m \<le> k \<and> k < m + 100) \<or> Test B k (bSet cp)"
    unfolding AssignPorts_eq using setHelper_bits [OF laws(1) u1, of k "replicate 100 0"] b1 [of k]
    by (auto simp: b1_def)
qed (simp_all add: AssignPorts_eq)

text \<open>What is known when the call has returned.\<close>

lemma windows_ok_returned:
  assumes "windows_ok B a cp n m s" and "apc s = Unlocked res"
  shows "res = stored B (bSet cp) n (n + 100) @ stored B (bSet cp) m (m + 100)"
    and "Test B k (bSet (a_cp s)) \<longleftrightarrow> (n \<le> k \<and> k < n + 100) \<or> (m \<le> k \<and> k < m + 100) \<or> Test B k (bSet cp)"
    and "am (a_cp s) = (am cp)(a := Some res)" and "cim (a_cp s) = cim cp"
proof -
  obtain l u where h: "hlower s = Returned l" "hupper s = Returned u" and res: "res = l @ u"
    using assms by (auto simp: windows_ok_def main_ok_def)
  then show "res = stored B (bSet cp) n (n + 100) @ stored B (bSet cp) m (m + 100)"
    using assms(1) by (simp add: windows_ok_def)
  have "marked_upto B (bSet cp) n (n + 100) (bSet (a_cp s))" "marked_upto B (bSet cp) m (m + 100) (bSet (a_cp s))"
    using assms(1) h by (simp_all add: windows_ok_def)
  then show "Test B k (bSet (a_cp s)) \<longleftrightarrow> (n \<le> k \<and> k < n + 100) \<or> (m \<le> k \<and> k < m + 100) \<or> Test B k (bSet cp)"
    using assms(1) by (auto simp: windows_ok_def marked_upto_def)
  show "am (a_cp s) = (am cp)(a := Some res)" "cim (a_cp s) = cim cp"
    using assms by (auto simp: windows_ok_def main_ok_def)
qed

subsection \<open>Two goroutines on the same port\<close>

text \<open>When every port below 1025 is marked, both goroutines look for the same bit.\<close>

lemma same_first_clear:
  assumes "bitset_laws B" and "\<forall>k. 1 \<le> k \<and> k < 1025 \<longrightarrow> Test B k b"
    and "NextClear B 1 b = (n, True)" and "NextClear B 1025 b = (m, True)"
  shows "n = m"
proof -
  have n: "1 \<le> n" "\<not> Test B n b" "\<And>k. 1 \<le> k \<Longrightarrow> k < n \<Longrightarrow> Test B k b"
    using assms(1,3) unfolding bitset_laws_def by blast+
  have m: "1025 \<le> m" "\<not> Test B m b" "\<And>k. 1025 \<le> k \<Longrightarrow> k < m \<Longrightarrow> Test B k b"
    using assms(1,4) unfolding bitset_laws_def by blast+
  have "1025 \<le> n" using n(1,2) assms(2) not_less by blast
  then show ?thesis using n(2,3) m nat_neq_iff by (metis le_trans one_le_numeral)
qed

text \<open>Once a goroutine has stored its first port, that entry stays.\<close>

fun first_is :: "u16 \<Rightarrow> helper \<Rightarrow> bool" where
  "first_is p (FindClear off acc) \<longleftrightarrow> False"
| "first_is p (SendEarly idx acc) \<longleftrightarrow> False"
| "first_is p (Probe idx len i acc) \<longleftrightarrow> length acc = 100 \<and> acc ! 0 = p \<and> 0 < i"
| "first_is p (Mark idx len i acc) \<longleftrightarrow> length acc = 100 \<and> acc ! 0 = p \<and> 0 < i"
| "first_is p (SendLast acc) \<longleftrightarrow> length acc = 100 \<and> acc ! 0 = p"
| "first_is p (Returned acc) \<longleftrightarrow> length acc = 100 \<and> acc ! 0 = p"

lemma first_is_acc: "first_is p h \<Longrightarrow> length (helper_acc h) = 100 \<and> helper_acc h ! 0 = p"
  by (cases h) auto

lemma first_is_section: "helper_section B h b = Some (h', b') \<Longrightarrow> first_is p h \<Longrightarrow> first_is p h'"
  by (cases h) (auto split: if_splits)

lemma first_is_received: "helper_received h = Some h' \<Longrightarrow> first_is p h \<Longrightarrow> first_is p h'"
  by (cases h) auto

definition both_first :: "u16 \<Rightarrow> 'b assign_state \<Rightarrow> bool" where
  "both_first p s \<longleftrightarrow> unheard s \<and> first_is p (hlower s) \<and> first_is p (hupper s) \<and>
     (\<forall>res. apc s = Unlocked res \<longrightarrow> length res = 200 \<and> res ! 0 = p \<and> res ! 100 = p)"

interpretation firsts: moving_system "assign_move B a" "both_first p" for B :: "'b bitset_ops" and a p
proof
  fix s s' :: "'b assign_state" and m
  assume f: "both_first p s" and m: "assign_move B a m s = Some s'"
  have u: "unheard s'" using f m assign.inv_move [of s B a m s'] by (simp add: both_first_def)
  from m show "both_first p s'"
  proof (cases rule: assign_moveE)
    case (lower h b)
    then show ?thesis using f u first_is_section [OF lower(1), of p] by (simp add: both_first_def)
  next
    case (upper h b)
    then show ?thesis using f u first_is_section [OF upper(1), of p] by (simp add: both_first_def)
  next
    case (recv_lower h)
    then show ?thesis using f u first_is_received [OF recv_lower(2), of p] by (simp add: both_first_def)
  next
    case (recv_upper h)
    then show ?thesis using f u first_is_received [OF recv_upper(2), of p] by (simp add: both_first_def)
  next
    case (append res)
    then show ?thesis
      using f u first_is_acc [of p "hlower s"] first_is_acc [of p "hupper s"] by (simp add: both_first_def nth_append)
  qed
qed

text \<open>Both look for a clear bit, both find it clear, both set it.\<close>

definition racing_moves :: "amove list" where
  "racing_moves = [LowerRuns, UpperRuns, LowerRuns, UpperRuns, LowerRuns, UpperRuns]"

lemma racing_moves_run:
  assumes "bitset_laws B" and "NextClear B 1 (bSet cp) = (n, True)" and "NextClear B 1025 (bSet cp) = (n, True)"
  shows "\<exists>s. assign_run B a racing_moves cp = Some s \<and> both_first (of_nat n) s"
proof -
  have "\<not> Test B n (bSet cp)" using assms(1,2) unfolding bitset_laws_def by blast
  then show ?thesis
    using assms(2,3) by (simp add: racing_moves_def assign_start_def both_first_def unheard_def)
qed

lemma racing_moves_finish:
  assumes "bitset_laws B" and "NextClear B 1 (bSet cp) = (n, True)" and "NextClear B 1025 (bSet cp) = (n, True)"
  shows "\<exists>ms s res. assign_run B a ms cp = Some s \<and> apc s = Unlocked res \<and> am (a_cp s) a = Some res
    \<and> length res = 200 \<and> res ! 0 = of_nat n \<and> res ! 100 = of_nat n"
proof -
  obtain s where s: "assign_run B a racing_moves cp = Some s" "both_first (of_nat n) s"
    using racing_moves_run [OF assms] by blast
  obtain ms s' where s': "assign_run B a (racing_moves @ ms) cp = Some s'" "assigned s'"
    using assign.can_always_finish [OF unheard_start s(1)] by blast
  then have "run_moves (assign_move B a) ms s = Some s'" using s(1) by (simp add: run_moves_append)
  then have f: "both_first (of_nat n) s'" using firsts.inv_run [OF s(2)] by blast
  obtain res where res: "apc s' = Unlocked res" using s'(2) by (auto simp: assigned_def split: assign_pc.splits)
  moreover have "am (a_cp s') a = Some res" using am_of_returned [OF s'(1) res] .
  ultimately show ?thesis using s'(1) f by (auto simp: both_first_def)
qed

section \<open>Properties\<close>

text \<open>
  C22: However the two goroutines are interleaved, \<open>AssignPorts\<close> returns after at most 411 sections: no
  interleaving is stuck before the call has returned, and none goes on for ever.
\<close>

theorem assignment_returns:
  assumes "assign_run B a ms cp = Some s"
  shows "length ms \<le> 411 \<and> (\<exists>ms' s'. assign_run B a (ms @ ms') cp = Some s' \<and> assigned s')"
  using assign.can_always_finish [OF unheard_start assms] by (simp add: assign_left_def assign_start_def)

text \<open>The examples are on the bit set of \<open>Nat_Context\<close>.\<close>

lemma find_stronger:
  assumes "find P xs = Some k" and "Q k" and "\<And>j. Q j \<Longrightarrow> P j"
  shows "find Q xs = Some k"
  using assms by (induction xs) (auto split: if_splits)

lemma find_upt:
  assumes "i \<le> h" and "h < n" and "P h" and "\<And>k. i \<le> k \<Longrightarrow> k < h \<Longrightarrow> \<not> P k"
  shows "find P [i..<n] = Some h"
  unfolding find_Some_iff using assms by (intro exI [of _ "h - i"]) auto

lemma bits_ex_below:
  assumes "i \<le> h" and "h < 65536" and "set b = {1..<h}" and "1 \<le> i"
  shows "NextClear bits_ex i b = (h, True)"
  using assms find_upt [of i h 65536 "\<lambda>k. k \<notin> set b"] by (simp add: bits_ex_def)

lemma bits_ex_stable: "bitset_stable bits_ex"
  unfolding bitset_stable_def
proof (intro allI impI)
  fix i n j :: nat and b
  assume a: "NextClear bits_ex i b = (n, True) \<and> j \<noteq> n"
  then have n: "find (\<lambda>k. k \<notin> set b) [i..<65536] = Some n" by (auto simp: bits_ex_def split: option.splits)
  then have "find (\<lambda>k. k \<notin> set (j # b)) [i..<65536] = Some n"
    by (rule find_stronger) (use a find_upt_first(2) [OF n] in auto)
  then show "NextClear bits_ex i (SetBit bits_ex j b) = (n, True)" by (simp add: bits_ex_def)
qed

theorem assignment_returns_witness:
  "\<exists>ms' s'. assign_run bits_ex 0 (racing_moves @ ms') (NewCntPortMapping []) = Some s' \<and> assigned s'"
proof -
  have "\<exists>s. assign_run bits_ex 0 racing_moves (NewCntPortMapping []) = Some s"
    by (simp add: racing_moves_def assign_start_def NewCntPortMapping_def bits_ex_first bits_ex_def [THEN arg_cong, of Test])
  then show ?thesis using assignment_returns [of bits_ex 0 racing_moves "NewCntPortMapping []"] by blast
qed



text \<open>
  C23: Once the ports 1 to 1024 are marked, both goroutines start at the same free port, and an
  interleaving leases it twice in one call: the first entry of both halves of the result is that port.
\<close>

theorem saturated_windows_lease_twice:
  assumes "bitset_laws B" and "\<forall>k. 1 \<le> k \<and> k < 1025 \<longrightarrow> Test B k (bSet cp)"
    and "NextClear B 1 (bSet cp) = (n, True)" and "NextClear B 1025 (bSet cp) = (m, True)"
  shows "\<exists>ms s res. assign_run B a ms cp = Some s \<and> apc s = Unlocked res \<and> am (a_cp s) a = Some res
    \<and> length res = 200 \<and> res ! 0 = of_nat n \<and> res ! 100 = of_nat n"
  using same_first_clear [OF assms] racing_moves_finish [OF assms(1,3)] assms(4) by blast

theorem saturated_windows_lease_twice_witness:
  "\<exists>ms s res. assign_run bits_ex 0 ms (NewCntPortMapping [1..<1025]) = Some s \<and> apc s = Unlocked res
    \<and> res ! 0 = 1025 \<and> res ! 100 = 1025"
proof -
  let ?b = "[1..<1025]"
  have b: "set ?b = {1..<1025}" by (rule set_upt)
  have marked: "\<forall>k. 1 \<le> k \<and> k < 1025 \<longrightarrow> Test bits_ex k ?b" unfolding bits_ex_def using b by auto
  have l: "NextClear bits_ex 1 ?b = (1025, True)" and u: "NextClear bits_ex 1025 ?b = (1025, True)"
    by (rule bits_ex_below; simp add: b del: upt_rec_numeral)+
  have "bSet (NewCntPortMapping ?b) = ?b" unfolding NewCntPortMapping_def by (rule CntPortMapping.simps(1))
  then show ?thesis
    using saturated_windows_lease_twice [OF bits_ex_laws, of "NewCntPortMapping ?b" 1025 1025 0] marked l u
    by (metis of_nat_numeral)
qed

end
