(* ===== verification/Lease_Threads.thy ===== *)
theory Lease_Threads
  imports Nat_Context Move_Runs
begin

text \<open>
  The goroutines around \<open>PortCntMapping\<close> (\<open>src/nat/context.go\<close>), interleaved at the points where they
  hold no lock. Every \<open>Set\<close> starts a function with \<open>time.AfterFunc\<close> that looks at the last use of the
  port under the read lock and, when the lease has expired, takes the write lock to remove the port:
  two critical sections with a gap between them. \<open>Get\<close> reads the pointer under the read lock and
  dereferences it afterwards.

  The clock is part of the state; a sleeping function wakes at its time or later. A \<open>Set\<close>, its write under
  the lock and the start of its timer right after, is one section.
\<close>

section \<open>Definitions\<close>

datatype lease_thread =
    Asleep u16 int \<comment> \<open>the timer or \<open>time.Sleep\<close>, until the given time\<close>
  | Expire u16 \<comment> \<open>found the lease expired, waits for the write lock\<close>
  | LeaseDone

datatype reader = Deref ptr | GotVal u32

record lease_sys =
  pcm :: PortCntMapping
  clock :: int
  lthreads :: "lease_thread list"
  readers :: "reader list"

text \<open>The condition under the read lock. The entry of an absent port is the zero time.\<close>

definition lease_expired :: "int \<Rightarrow> u16 \<Rightarrow> PortCntMapping \<Rightarrow> bool" where
  "lease_expired now port pc \<longleftrightarrow> (case lum pc port of None \<Rightarrow> True | Some t \<Rightarrow> t + leaseTimeout pc < now)"

text \<open>The two deletions under the write lock; the function ends.\<close>

definition lease_remove :: "u16 \<Rightarrow> PortCntMapping \<Rightarrow> PortCntMapping" where
  "lease_remove port pc =
     pc\<lparr>im := (im pc)(port := None), lum := (lum pc)(port := None), leases := remove1 port (leases pc)\<rparr>"

text \<open>The two sections of \<open>Get\<close>.\<close>

definition Get_lookup :: "u16 \<Rightarrow> PortCntMapping \<Rightarrow> reader" where
  "Get_lookup port pc = (case im pc port of None \<Rightarrow> GotVal 0 | Some val \<Rightarrow> Deref val)"

fun Get_deref :: "reader \<Rightarrow> PortCntMapping \<Rightarrow> reader" where
  "Get_deref (Deref val) pc = GotVal (cells pc val)"
| "Get_deref (GotVal a) pc = GotVal a"

datatype lease_move =
    Tick nat
  | CallSet u16 u32
  | CallDelete u16
  | CallReplace u32 u32
  | Check nat
  | Remove nat
  | Lookup u16
  | Dereference nat

fun lmove :: "lease_move \<Rightarrow> lease_sys \<Rightarrow> lease_sys option" where
  "lmove (Tick d) s = Some (s\<lparr>clock := clock s + int d\<rparr>)"
| "lmove (CallSet port addr) s =
     Some (s\<lparr>pcm := PortCntMapping_Set (clock s) port addr (pcm s),
             lthreads := lthreads s @ [Asleep port (clock s + leaseTimeout (pcm s))]\<rparr>)"
| "lmove (CallDelete port) s = Some (s\<lparr>pcm := PortCntMapping_Delete port (pcm s)\<rparr>)"
| "lmove (CallReplace old new) s = Some (s\<lparr>pcm := PortCntMapping_Replace old new (pcm s)\<rparr>)"
| "lmove (Check i) s =
     (if i < length (lthreads s)
      then case lthreads s ! i of
             Asleep port w \<Rightarrow>
               if w \<le> clock s
               then Some (s\<lparr>lthreads := (lthreads s)[i :=
                      (if lease_expired (clock s) port (pcm s) then Expire port
                       else Asleep port (clock s + leaseTimeout (pcm s)))]\<rparr>)
               else None
           | _ \<Rightarrow> None
      else None)"
| "lmove (Remove i) s =
     (if i < length (lthreads s)
      then case lthreads s ! i of
             Expire port \<Rightarrow> Some (s\<lparr>pcm := lease_remove port (pcm s), lthreads := (lthreads s)[i := LeaseDone]\<rparr>)
           | _ \<Rightarrow> None
      else None)"
| "lmove (Lookup port) s = Some (s\<lparr>readers := readers s @ [Get_lookup port (pcm s)]\<rparr>)"
| "lmove (Dereference i) s =
     (if i < length (readers s) then Some (s\<lparr>readers := (readers s)[i := Get_deref (readers s ! i) (pcm s)]\<rparr>) else None)"

definition lease_start :: "int \<Rightarrow> lease_sys" where
  "lease_start timeout = \<lparr>pcm = NewPortCntMapping timeout, clock = 0, lthreads = [], readers = []\<rparr>"

text \<open>
  Restrictions of the scheduler that the theorems are relative to. Under \<open>prompt\<close> a goroutine
  that is due runs before time goes on; under \<open>undisturbed\<close> no \<open>Set\<close> of a port comes between the two
  sections of a function that removes it; under \<open>no_replace\<close> nobody calls \<open>Replace\<close>.
\<close>

fun not_due :: "int \<Rightarrow> lease_thread \<Rightarrow> bool" where
  "not_due now (Asleep port w) \<longleftrightarrow> now \<le> w"
| "not_due now (Expire port) \<longleftrightarrow> False"
| "not_due now LeaseDone \<longleftrightarrow> True"

fun prompt :: "lease_move \<Rightarrow> lease_sys \<Rightarrow> bool" where
  "prompt (Tick d) s \<longleftrightarrow> d = 0 \<or> list_all (not_due (clock s + int d)) (lthreads s)"
| "prompt _ s \<longleftrightarrow> True"

fun undisturbed :: "lease_move \<Rightarrow> lease_sys \<Rightarrow> bool" where
  "undisturbed (CallSet port addr) s \<longleftrightarrow> Expire port \<notin> set (lthreads s)"
| "undisturbed _ s \<longleftrightarrow> True"

fun no_replace :: "lease_move \<Rightarrow> lease_sys \<Rightarrow> bool" where
  "no_replace (CallReplace old new) s \<longleftrightarrow> False"
| "no_replace _ s \<longleftrightarrow> True"

definition restricted :: "(lease_move \<Rightarrow> lease_sys \<Rightarrow> bool) \<Rightarrow> lease_move \<Rightarrow> lease_sys \<Rightarrow> lease_sys option" where
  "restricted R m s = (if R m s then lmove m s else None)"

section \<open>Lemmas\<close>

lemma restricted_Some: "restricted R m s = Some s' \<longleftrightarrow> R m s \<and> lmove m s = Some s'"
  by (simp add: restricted_def)

lemma lmoveE:
  assumes "lmove m s = Some s'"
  obtains (tick) d where "m = Tick d" and "s' = s\<lparr>clock := clock s + int d\<rparr>"
    | (set) port addr where "m = CallSet port addr"
      and "s' = s\<lparr>pcm := PortCntMapping_Set (clock s) port addr (pcm s),
            lthreads := lthreads s @ [Asleep port (clock s + leaseTimeout (pcm s))]\<rparr>"
    | (delete) port where "m = CallDelete port" and "s' = s\<lparr>pcm := PortCntMapping_Delete port (pcm s)\<rparr>"
    | (replace) old new where "m = CallReplace old new" and "s' = s\<lparr>pcm := PortCntMapping_Replace old new (pcm s)\<rparr>"
    | (renewed) i port w where "m = Check i" and "i < length (lthreads s)" and "lthreads s ! i = Asleep port w" and "w \<le> clock s"
      and "\<not> lease_expired (clock s) port (pcm s)"
      and "s' = s\<lparr>lthreads := (lthreads s)[i := Asleep port (clock s + leaseTimeout (pcm s))]\<rparr>"
    | (expired) i port w where "m = Check i" and "i < length (lthreads s)" and "lthreads s ! i = Asleep port w" and "w \<le> clock s"
      and "lease_expired (clock s) port (pcm s)" and "s' = s\<lparr>lthreads := (lthreads s)[i := Expire port]\<rparr>"
    | (remove) i port where "m = Remove i" and "i < length (lthreads s)" and "lthreads s ! i = Expire port"
      and "s' = s\<lparr>pcm := lease_remove port (pcm s), lthreads := (lthreads s)[i := LeaseDone]\<rparr>"
    | (lookup) port where "m = Lookup port" and "s' = s\<lparr>readers := readers s @ [Get_lookup port (pcm s)]\<rparr>"
    | (deref) i where "m = Dereference i" and "i < length (readers s)"
      and "s' = s\<lparr>readers := (readers s)[i := Get_deref (readers s ! i) (pcm s)]\<rparr>"
  using assms by (cases m) (auto split: if_splits lease_thread.splits)

text \<open>What the operations leave alone.\<close>

lemma timeout_const [simp]:
  "leaseTimeout (PortCntMapping_Set now port addr pc) = leaseTimeout pc"
  "leaseTimeout (PortCntMapping_Delete port pc) = leaseTimeout pc"
  "leaseTimeout (PortCntMapping_Replace old new pc) = leaseTimeout pc"
  "leaseTimeout (lease_remove port pc) = leaseTimeout pc"
  by (auto simp: PortCntMapping_Set_def PortCntMapping_Delete_def PortCntMapping_Replace_def lease_remove_def Let_def
      split: option.split)

lemma timeout_new [simp]: "leaseTimeout (NewPortCntMapping t) = t"
  by (simp add: NewPortCntMapping_def)

lemma lum_simps [simp]:
  "lum (PortCntMapping_Set now port addr pc) = (lum pc)(port := Some now)"
  "lum (PortCntMapping_Delete port pc) = lum pc"
  "lum (PortCntMapping_Replace old new pc) = lum pc"
  "lum (lease_remove port pc) = (lum pc)(port := None)"
  by (auto simp: PortCntMapping_Set_def PortCntMapping_Delete_def PortCntMapping_Replace_def lease_remove_def Let_def
      split: option.split)

lemma im_simps [simp]:
  "im (PortCntMapping_Delete port pc) = (im pc)(port := None)"
  "im (PortCntMapping_Replace old new pc) = im pc"
  "im (lease_remove port pc) = (im pc)(port := None)"
  by (auto simp: PortCntMapping_Delete_def PortCntMapping_Replace_def lease_remove_def split: option.split)

lemma im_Set:
  "im (PortCntMapping_Set now port addr pc) =
    (im pc)(port := Some (case rm pc addr of None \<Rightarrow> nextCell pc | Some v \<Rightarrow> v))"
  by (auto simp: PortCntMapping_Set_def Let_def split: option.split)

subsection \<open>The sections against the call\<close>

lemma sections_of_lease_check:
  "lease_check now port pc = (if lease_expired now port pc then (True, lease_remove port pc) else (False, pc))"
  by (simp add: lease_check_def lease_expired_def lease_remove_def)

lemma sections_of_Get: "Get_deref (Get_lookup port pc) pc = GotVal (PortCntMapping_Get port pc)"
  by (simp add: Get_lookup_def PortCntMapping_Get_def split: option.split)

subsection \<open>No lease is forgotten\<close>

text \<open>The port a goroutine is still responsible for.\<close>

fun guards :: "u16 \<Rightarrow> lease_thread \<Rightarrow> bool" where
  "guards port (Asleep p w) \<longleftrightarrow> p = port"
| "guards port (Expire p) \<longleftrightarrow> p = port"
| "guards port LeaseDone \<longleftrightarrow> False"

definition lease_inv :: "lease_sys \<Rightarrow> bool" where
  "lease_inv s \<longleftrightarrow>
     (\<forall>port v. im (pcm s) port = Some v \<longrightarrow> v < nextCell (pcm s) \<and> lum (pcm s) port \<noteq> None) \<and>
     (\<forall>a v. rm (pcm s) a = Some v \<longrightarrow> v < nextCell (pcm s)) \<and>
     (\<forall>port. lum (pcm s) port \<noteq> None \<longrightarrow> (\<exists>th \<in> set (lthreads s). guards port th)) \<and>
     (\<forall>v. Deref v \<in> set (readers s) \<longrightarrow> v < nextCell (pcm s))"

text \<open>A goroutine that satisfies \<open>P\<close> stays among the others when one of them takes a step.\<close>

lemma some_thread_stays:
  assumes "\<exists>th \<in> set ths. P th" and "i < length ths" and "P (ths ! i) \<Longrightarrow> P th'"
  shows "\<exists>th \<in> set (ths[i := th']). P th"
proof -
  obtain j where "j < length ths" "P (ths ! j)" using assms(1) by (auto simp: in_set_conv_nth)
  then have "j < length (ths[i := th'])" "P (ths[i := th'] ! j)" using assms(2,3) by (auto simp: nth_list_update)
  then show ?thesis using nth_mem by blast
qed

lemma some_thread_added: "\<exists>th \<in> set ths. P th \<Longrightarrow> \<exists>th \<in> set (ths @ [th']). P th"
  by auto

lemma nextCell_simps [simp]:
  "nextCell (PortCntMapping_Delete port pc) = nextCell pc"
  "nextCell (PortCntMapping_Replace old new pc) = nextCell pc"
  "nextCell (lease_remove port pc) = nextCell pc"
  "rm (PortCntMapping_Delete port pc) = rm pc"
  "rm (PortCntMapping_Replace old new pc) = rm pc"
  "rm (lease_remove port pc) = rm pc"
  by (auto simp: PortCntMapping_Delete_def PortCntMapping_Replace_def lease_remove_def split: option.split)

lemma rm_Set: "rm (PortCntMapping_Set now port addr pc) =
    (case rm pc addr of None \<Rightarrow> (rm pc)(addr := Some (nextCell pc)) | Some v \<Rightarrow> rm pc)"
  and nextCell_Set: "nextCell (PortCntMapping_Set now port addr pc) =
    (case rm pc addr of None \<Rightarrow> Suc (nextCell pc) | Some v \<Rightarrow> nextCell pc)"
  by (auto simp: PortCntMapping_Set_def Let_def split: option.split)

lemma cells_allocated:
  assumes "\<forall>port v. im pc port = Some v \<longrightarrow> v < nextCell pc \<and> lum pc port \<noteq> None" and "\<forall>a v. rm pc a = Some v \<longrightarrow> v < nextCell pc"
  shows "\<forall>p v. im (PortCntMapping_Set now port addr pc) p = Some v \<longrightarrow>
      v < nextCell (PortCntMapping_Set now port addr pc) \<and> lum (PortCntMapping_Set now port addr pc) p \<noteq> None"
    and "\<forall>a v. rm (PortCntMapping_Set now port addr pc) a = Some v \<longrightarrow> v < nextCell (PortCntMapping_Set now port addr pc)"
    and "nextCell pc \<le> nextCell (PortCntMapping_Set now port addr pc)"
  using assms by (auto simp: im_Set rm_Set nextCell_Set less_Suc_eq split: option.split)

lemma Get_deref_GotVal [simp]: "Deref v \<noteq> Get_deref r pc"
  by (cases r) auto

interpretation leases: moving_system lmove lease_inv
proof
  fix s s' m
  assume inv: "lease_inv s" and m: "lmove m s = Some s'"
  from m show "lease_inv s'"
  proof (cases rule: lmoveE)
    case (set port addr)
    have "guards p (Asleep port w) \<longleftrightarrow> p = port" for p w by auto
    then show ?thesis
      using inv set(2) cells_allocated [of "pcm s" "clock s" port addr] by (auto simp: lease_inv_def intro: less_le_trans)
  next
    case (renewed i port w)
    have "\<exists>th \<in> set ((lthreads s)[i := Asleep port u]). guards p th" if "lum (pcm s) p \<noteq> None" for p u
      using that inv renewed(3) by (intro some_thread_stays [OF _ renewed(2)]) (auto simp: lease_inv_def)
    then show ?thesis using inv renewed(6) by (auto simp: lease_inv_def)
  next
    case (expired i port w)
    have "\<exists>th \<in> set ((lthreads s)[i := Expire port]). guards p th" if "lum (pcm s) p \<noteq> None" for p
      using that inv expired(3) by (intro some_thread_stays [OF _ expired(2)]) (auto simp: lease_inv_def)
    then show ?thesis using inv expired(6) by (auto simp: lease_inv_def)
  next
    case (remove i port)
    have "\<exists>th \<in> set ((lthreads s)[i := LeaseDone]). guards p th" if "lum (pcm s) p \<noteq> None" "p \<noteq> port" for p
      using that inv remove(3) by (intro some_thread_stays [OF _ remove(2)]) (auto simp: lease_inv_def)
    then show ?thesis using inv remove(4) by (auto simp: lease_inv_def)
  next
    case (lookup port)
    then show ?thesis using inv by (auto simp: lease_inv_def Get_lookup_def split: option.splits)
  next
    case (deref i)
    then show ?thesis
      using inv by (auto simp: lease_inv_def dest!: set_update_subset_insert [THEN subsetD])
  qed (use inv in \<open>auto simp: lease_inv_def\<close>)
qed

lemma mapped_port:
  assumes "lease_inv s" and "im (pcm s) port = Some v"
  shows "lum (pcm s) port \<noteq> None \<and> v < nextCell (pcm s) \<and> (\<exists>th \<in> set (lthreads s). guards port th)"
  using assms unfolding lease_inv_def by blast

lemma lease_inv_start: "lease_inv (lease_start t)"
  by (simp add: lease_inv_def lease_start_def NewPortCntMapping_def)

subsection \<open>How long a lease lasts\<close>

text \<open>A goroutine that will look at the port not later than \<open>u\<close>.\<close>

fun looks_by :: "int \<Rightarrow> u16 \<Rightarrow> lease_thread \<Rightarrow> bool" where
  "looks_by u port (Asleep p w) \<longleftrightarrow> p = port \<and> w \<le> u"
| "looks_by u port (Expire p) \<longleftrightarrow> p = port"
| "looks_by u port LeaseDone \<longleftrightarrow> False"

definition lease_soon :: "lease_sys \<Rightarrow> bool" where
  "lease_soon s \<longleftrightarrow> 0 \<le> leaseTimeout (pcm s) \<and>
     (\<forall>port t. lum (pcm s) port = Some t \<longrightarrow> t \<le> clock s \<and> clock s \<le> t + 2 * leaseTimeout (pcm s) \<and>
        (\<exists>th \<in> set (lthreads s). looks_by (t + 2 * leaseTimeout (pcm s)) port th))"

lemma lease_soonI:
  assumes "0 \<le> leaseTimeout (pcm s)"
    and "\<And>port t. lum (pcm s) port = Some t \<Longrightarrow> t \<le> clock s \<and> clock s \<le> t + 2 * leaseTimeout (pcm s) \<and>
        (\<exists>th \<in> set (lthreads s). looks_by (t + 2 * leaseTimeout (pcm s)) port th)"
  shows "lease_soon s"
  using assms by (simp add: lease_soon_def)

lemma lease_soonD:
  assumes "lease_soon s" and "lum (pcm s) port = Some t"
  shows "t \<le> clock s \<and> clock s \<le> t + 2 * leaseTimeout (pcm s)"
    and "\<exists>th \<in> set (lthreads s). looks_by (t + 2 * leaseTimeout (pcm s)) port th"
  using assms by (auto simp: lease_soon_def)

text \<open>Time can go on only up to the moment at which the next goroutine is due.\<close>

lemma tick_in_time:
  assumes "prompt (Tick d) s" and "\<exists>th \<in> set (lthreads s). looks_by u port th" and "clock s \<le> u"
  shows "clock s + int d \<le> u"
proof (cases "d = 0")
  case False
  obtain th where th: "th \<in> set (lthreads s)" "looks_by u port th" using assms(2) by blast
  then have "not_due (clock s + int d) th" using assms(1) False by (auto simp: list_all_iff)
  then show ?thesis using th(2) by (cases th) auto
qed (use assms(3) in simp)

interpretation promptly: moving_system "restricted prompt" lease_soon
proof
  fix s s' m
  assume soon: "lease_soon s" and "restricted prompt m s = Some s'"
  then have p: "prompt m s" and m: "lmove m s = Some s'" by (auto simp: restricted_Some)
  have T: "0 \<le> leaseTimeout (pcm s)" using soon by (simp add: lease_soon_def)
  from m show "lease_soon s'"
  proof (cases rule: lmoveE)
    case (tick d)
    show ?thesis
    proof (rule lease_soonI)
      fix port t
      assume l: "lum (pcm s') port = Some t"
      then have l: "lum (pcm s) port = Some t" using tick(2) by simp
      have "clock s + int d \<le> t + 2 * leaseTimeout (pcm s)"
        using p tick(1) lease_soonD [OF soon l] by (intro tick_in_time [of d s _ port]) auto
      then show "t \<le> clock s' \<and> clock s' \<le> t + 2 * leaseTimeout (pcm s') \<and>
          (\<exists>th \<in> set (lthreads s'). looks_by (t + 2 * leaseTimeout (pcm s')) port th)"
        using lease_soonD [OF soon l] tick(2) by simp
    qed (use T tick(2) in simp)
  next
    case (set port addr)
    then show ?thesis
      using T by (auto intro!: lease_soonI dest: lease_soonD [OF soon] split: if_splits)
  next
    case (renewed i port w)
    show ?thesis
    proof (rule lease_soonI)
      fix q t
      assume l: "lum (pcm s') q = Some t"
      then have l: "lum (pcm s) q = Some t" using renewed(6) by simp
      have "clock s + leaseTimeout (pcm s) \<le> t + 2 * leaseTimeout (pcm s)" if "q = port"
        using renewed(5) l that by (simp add: lease_expired_def)
      then have "\<exists>th \<in> set (lthreads s'). looks_by (t + 2 * leaseTimeout (pcm s)) q th"
        using renewed(3) unfolding renewed(6)
        by (simp, intro some_thread_stays [OF lease_soonD(2) [OF soon l] renewed(2)]) auto
      then show "t \<le> clock s' \<and> clock s' \<le> t + 2 * leaseTimeout (pcm s') \<and>
          (\<exists>th \<in> set (lthreads s'). looks_by (t + 2 * leaseTimeout (pcm s')) q th)"
        using lease_soonD [OF soon l] renewed(6) by simp
    qed (use T renewed(6) in simp)
  next
    case (expired i port w)
    have "\<exists>th \<in> set ((lthreads s)[i := Expire port]). looks_by (t + 2 * leaseTimeout (pcm s)) q th"
      if "lum (pcm s) q = Some t" for q t
      using expired(3) by (intro some_thread_stays [OF lease_soonD(2) [OF soon that] expired(2)]) auto
    then show ?thesis using T expired(6) lease_soonD(1) [OF soon] by (intro lease_soonI) auto
  next
    case (remove i port)
    have "\<exists>th \<in> set ((lthreads s)[i := LeaseDone]). looks_by (t + 2 * leaseTimeout (pcm s)) q th"
      if "lum (pcm s) q = Some t" "q \<noteq> port" for q t
      using remove(3) that(2) by (intro some_thread_stays [OF lease_soonD(2) [OF soon that(1)] remove(2)]) auto
    then show ?thesis using T remove(4) lease_soonD(1) [OF soon] by (intro lease_soonI) (auto split: if_splits)
  qed (use soon in \<open>simp_all add: lease_soon_def\<close>)
qed

lemma lease_soon_start: "0 \<le> t \<Longrightarrow> lease_soon (lease_start t)"
  by (simp add: lease_soon_def lease_start_def NewPortCntMapping_def)

text \<open>The invariants hold of restricted interleavings too.\<close>

lemma run_restricted: "run_moves (restricted R) ms s = Some s' \<Longrightarrow> run_moves lmove ms s = Some s'"
  by (induction ms arbitrary: s) (auto simp: restricted_Some split: option.splits)

lemma lmove_timeout: "lmove m s = Some s' \<Longrightarrow> leaseTimeout (pcm s') = leaseTimeout (pcm s)"
  by (auto elim!: lmoveE)

lemma run_timeout: "run_moves lmove ms s = Some s' \<Longrightarrow> leaseTimeout (pcm s') = leaseTimeout (pcm s)"
  by (induction ms arbitrary: s) (auto dest: lmove_timeout split: option.splits)

subsection \<open>What the second section removes\<close>

definition removals_due :: "lease_sys \<Rightarrow> bool" where
  "removals_due s \<longleftrightarrow> (\<forall>port. Expire port \<in> set (lthreads s) \<longrightarrow> lease_expired (clock s) port (pcm s))"

lemma lease_expired_later: "lease_expired now port pc \<Longrightarrow> lease_expired (now + int d) port pc"
  by (auto simp: lease_expired_def split: option.splits)

interpretation undisturbedly: moving_system "restricted undisturbed" removals_due
proof
  fix s s' m
  assume due: "removals_due s" and "restricted undisturbed m s = Some s'"
  then have u: "undisturbed m s" and m: "lmove m s = Some s'" by (auto simp: restricted_Some)
  from m show "removals_due s'"
  proof (cases rule: lmoveE)
    case (tick d)
    then show ?thesis using due lease_expired_later by (auto simp: removals_due_def)
  next
    case (set port addr)
    then show ?thesis using due u by (auto simp: removals_due_def lease_expired_def split: option.split)
  next
    case (renewed i port w)
    then show ?thesis using due by (auto simp: removals_due_def dest!: set_update_subset_insert [THEN subsetD])
  next
    case (expired i port w)
    then show ?thesis using due by (auto simp: removals_due_def dest!: set_update_subset_insert [THEN subsetD])
  next
    case (remove i port)
    then show ?thesis
      using due by (auto simp: removals_due_def lease_expired_def dest!: set_update_subset_insert [THEN subsetD] split: option.split)
  qed (use due in \<open>auto simp: removals_due_def lease_expired_def split: option.split\<close>)
qed

lemma removals_due_start: "removals_due (lease_start t)"
  by (simp add: removals_due_def lease_start_def)

subsection \<open>What Get returns\<close>

definition reader_inv :: "nat \<Rightarrow> u32 \<Rightarrow> lease_sys \<Rightarrow> bool" where
  "reader_inv i a s \<longleftrightarrow> lease_inv s \<and> i < length (readers s) \<and>
     (case readers s ! i of Deref v \<Rightarrow> cells (pcm s) v = a | GotVal x \<Rightarrow> x = a)"

lemma cells_kept:
  assumes "lmove m s = Some s'" and "no_replace m s" and "v < nextCell (pcm s)"
  shows "cells (pcm s') v = cells (pcm s) v"
  using assms(1)
proof (cases rule: lmoveE)
  case (set port addr)
  then show ?thesis using assms(3) by (simp add: PortCntMapping_Set_def Let_def split: option.split)
qed (use assms(2) in \<open>auto simp: PortCntMapping_Delete_def lease_remove_def\<close>)

lemma readers_step:
  assumes "lmove m s = Some s'" and "i < length (readers s)"
  shows "i < length (readers s') \<and> (readers s' ! i = readers s ! i \<or> readers s' ! i = Get_deref (readers s ! i) (pcm s))"
  using assms(1) by (cases rule: lmoveE) (use assms(2) in \<open>auto simp: nth_append nth_list_update\<close>)

interpretation reading: moving_system "restricted no_replace" "reader_inv i a" for i a
proof
  fix s s' m
  assume r: "reader_inv i a s" and "restricted no_replace m s = Some s'"
  then have n: "no_replace m s" and m: "lmove m s = Some s'" by (auto simp: restricted_Some)
  have inv: "lease_inv s" and i: "i < length (readers s)" using r by (auto simp: reader_inv_def)
  have inv': "lease_inv s'" using leases.inv_move [OF inv m] .
  show "reader_inv i a s'"
  proof (cases "readers s ! i")
    case (Deref v)
    then have "Deref v \<in> set (readers s)" using i nth_mem by metis
    then have "cells (pcm s') v = cells (pcm s) v"
      using inv by (intro cells_kept [OF m n]) (simp add: lease_inv_def)
    then show ?thesis using r readers_step [OF m i] inv' Deref by (auto simp: reader_inv_def)
  next
    case (GotVal x)
    then show ?thesis using r readers_step [OF m i] inv' by (auto simp: reader_inv_def)
  qed
qed

lemma reader_starts:
  assumes "lease_inv s" and "lmove (Lookup port) s = Some s1"
  shows "reader_inv (length (readers s)) (PortCntMapping_Get port (pcm s)) s1"
  using assms leases.inv_move [OF assms]
  by (auto simp: reader_inv_def Get_lookup_def PortCntMapping_Get_def split: option.split)

lemma reader_ends:
  assumes "reader_inv i a s" and "lmove (Dereference i) s = Some s'"
  shows "readers s' ! i = GotVal a"
  using assms by (cases "readers s ! i") (auto simp: reader_inv_def)

section \<open>Properties\<close>

text \<open>
  In every interleaving of callers, timers and goroutines, no lease is forgotten: a mapped port has
  a time of last use and a goroutine that will look at it again, and all pointers of the maps and of the
  readers lead to allocated cells.
\<close>

theorem no_lease_forgotten:
  assumes "run_moves lmove ms (lease_start t) = Some s" and "im (pcm s) port = Some v"
  shows "lum (pcm s) port \<noteq> None \<and> v < nextCell (pcm s) \<and> (\<exists>th \<in> set (lthreads s). guards port th)"
  using mapped_port [OF leases.inv_run [OF lease_inv_start assms(1)] assms(2)] .

lemma two_sets_run:
  "\<exists>s v. run_moves lmove [CallSet 80 9, Tick 3, CallSet 80 4] (lease_start 5) = Some s \<and> im (pcm s) 80 = Some v \<and> clock s = 3"
  by (simp add: im_Set lease_start_def)

theorem no_lease_forgotten_witness:
  "\<exists>s. run_moves lmove [CallSet 80 9, Tick 3, CallSet 80 4] (lease_start 5) = Some s \<and> (\<exists>th \<in> set (lthreads s). guards 80 th)"
  using two_sets_run no_lease_forgotten by blast

text \<open>
  C14: When goroutines run as soon as they are due, a port is mapped only for so long: it was set at
  most two timeouts ago, in every interleaving.
\<close>

theorem lease_lasts_two_timeouts:
  assumes "0 \<le> t" and "run_moves (restricted prompt) ms (lease_start t) = Some s" and "im (pcm s) port = Some v"
  shows "\<exists>used. lum (pcm s) port = Some used \<and> used \<le> clock s \<and> clock s \<le> used + 2 * t"
proof -
  have r: "run_moves lmove ms (lease_start t) = Some s" using run_restricted [OF assms(2)] .
  obtain used where l: "lum (pcm s) port = Some used"
    using mapped_port [OF leases.inv_run [OF lease_inv_start r] assms(3)] by blast
  have "lease_soon s" using promptly.inv_run [OF lease_soon_start [OF assms(1)] assms(2)] .
  moreover have "leaseTimeout (pcm s) = t" using run_timeout [OF r] by (simp add: lease_start_def NewPortCntMapping_def)
  ultimately show ?thesis using lease_soonD(1) [of s port used] l by auto
qed

theorem lease_lasts_two_timeouts_witness:
  "\<exists>s used. run_moves (restricted prompt) [CallSet 80 9, Tick 5, Check 0, Tick 5] (lease_start 5) = Some s
    \<and> lum (pcm s) 80 = Some used \<and> clock s = 10 \<and> clock s \<le> used + 2 * 5"
proof -
  obtain s v where s: "run_moves (restricted prompt) [CallSet 80 9, Tick 5, Check 0, Tick 5] (lease_start 5) = Some s"
    "im (pcm s) 80 = Some v" "clock s = 10"
    by (simp add: im_Set lease_start_def restricted_def lease_expired_def NewPortCntMapping_def)
  then show ?thesis using lease_lasts_two_timeouts [OF zero_le_numeral s(1,2)] by blast
qed

text \<open>
  C24: As long as no \<open>Set\<close> of a port falls between the two sections of the function that removes it, a
  lease that has not expired is never removed by it.
\<close>

theorem unexpired_lease_kept:
  assumes "run_moves (restricted undisturbed) ms (lease_start t) = Some s" and "lum (pcm s) port = Some used"
    and "clock s \<le> used + leaseTimeout (pcm s)" and "lmove (Remove i) s = Some s'"
  shows "im (pcm s') port = im (pcm s) port \<and> lum (pcm s') port = Some used"
proof -
  have due: "removals_due s" using undisturbedly.inv_run [OF removals_due_start assms(1)] .
  obtain p where p: "i < length (lthreads s)" "lthreads s ! i = Expire p" "pcm s' = lease_remove p (pcm s)"
    using assms(4) by (auto split: if_splits lease_thread.splits)
  then have "lease_expired (clock s) p (pcm s)" using due nth_mem [OF p(1)] by (auto simp: removals_due_def)
  then have "p \<noteq> port" using assms(2,3) by (auto simp: lease_expired_def)
  then show ?thesis using p(3) assms(2) by simp
qed

theorem unexpired_lease_kept_witness:
  "\<exists>s s'. run_moves (restricted undisturbed) [CallSet 80 9, Tick 6, CallSet 81 9, Check 0] (lease_start 5) = Some s
    \<and> lmove (Remove 0) s = Some s' \<and> lum (pcm s') 81 = Some 6"
proof -
  have "\<exists>s s'. run_moves (restricted undisturbed) [CallSet 80 9, Tick 6, CallSet 81 9, Check 0] (lease_start 5) = Some s
    \<and> lmove (Remove 0) s = Some s' \<and> lum (pcm s) 81 = Some 6 \<and> clock s \<le> 6 + leaseTimeout (pcm s)"
    by (simp add: lease_start_def restricted_def lease_expired_def NewPortCntMapping_def)
  then show ?thesis using unexpired_lease_kept by blast
qed

text \<open>
  C25: A \<open>Set\<close> that does fall in between is lost: the port has been renewed at this very moment, and is
  unmapped all the same.
\<close>

theorem renewal_can_be_lost:
  assumes "0 \<le> t"
  shows "\<exists>s s'. run_moves lmove [CallSet port a, Tick (nat t + 1), Check 0, CallSet port b] (lease_start t) = Some s
    \<and> lum (pcm s) port = Some (clock s) \<and> PortCntMapping_Get port (pcm s) = b
    \<and> lmove (Remove 0) s = Some s' \<and> clock s' = clock s \<and> im (pcm s') port = None \<and> PortCntMapping_Get port (pcm s') = 0"
proof -
  define pc where "pc = PortCntMapping_Set 0 port a (NewPortCntMapping t)"
  have "pc_inv pc" using pc_reachable_inv [OF pc_set [OF pc_new]] by (simp add: pc_def)
  then have "PortCntMapping_Get port (PortCntMapping_Set now port b pc) = b" for now by (simp add: Set_Get)
  moreover have "lum pc port = Some 0" "leaseTimeout pc = t" by (simp_all add: pc_def NewPortCntMapping_def)
  ultimately show ?thesis
    using assms by (simp add: lease_start_def pc_def [symmetric] lease_expired_def PortCntMapping_Get_def [of _ "lease_remove _ _"])
qed

theorem renewal_can_be_lost_witness:
  "\<exists>s s'. run_moves lmove [CallSet 80 9, Tick (nat 5 + 1), Check 0, CallSet 80 4] (lease_start 5) = Some s
    \<and> lmove (Remove 0) s = Some s' \<and> im (pcm s') 80 = None"
  using renewal_can_be_lost [of 5 80 9 4] by auto

text \<open>
  \<open>Get\<close> dereferences the pointer after it has released the lock. As long as nobody calls \<open>Replace\<close>
  meanwhile it returns what the map held when it looked, whatever else happens before it reads the cell.
\<close>

theorem Get_reads_what_it_saw:
  assumes "run_moves lmove ms (lease_start t) = Some s" and "lmove (Lookup port) s = Some s1"
    and "run_moves (restricted no_replace) ms' s1 = Some s2" and "lmove (Dereference (length (readers s))) s2 = Some s3"
  shows "readers s3 ! length (readers s) = GotVal (PortCntMapping_Get port (pcm s))"
proof -
  have "lease_inv s" using leases.inv_run [OF lease_inv_start assms(1)] .
  then have "reader_inv (length (readers s)) (PortCntMapping_Get port (pcm s)) s1" using reader_starts assms(2) by blast
  then have "reader_inv (length (readers s)) (PortCntMapping_Get port (pcm s)) s2" using reading.inv_run assms(3) by blast
  then show ?thesis using reader_ends assms(4) by blast
qed

theorem Get_reads_what_it_saw_witness:
  "\<exists>s3. run_moves lmove [CallSet 80 9, Lookup 80, CallDelete 80, Dereference 0] (lease_start 5) = Some s3
    \<and> readers s3 ! 0 = GotVal 9"
proof -
  obtain s where s: "run_moves lmove [CallSet 80 9] (lease_start 5) = Some s" "length (readers s) = 0"
    "PortCntMapping_Get 80 (pcm s) = 9"
    by (simp add: lease_start_def PortCntMapping_Get_def PortCntMapping_Set_def NewPortCntMapping_def)
  obtain s1 s2 s3 where r: "lmove (Lookup 80) s = Some s1" "run_moves (restricted no_replace) [CallDelete 80] s1 = Some s2"
    "lmove (Dereference 0) s2 = Some s3"
    using s(2) by (simp add: restricted_def)
  then have "readers s3 ! 0 = GotVal 9"
    using Get_reads_what_it_saw [OF s(1) r(1,2)] s(2,3) by simp
  moreover have "run_moves lmove [CallSet 80 9, Lookup 80, CallDelete 80, Dereference 0] (lease_start 5) = Some s3"
    using s(1) r by (simp add: restricted_Some restricted_def split: option.splits)
  ultimately show ?thesis by blast
qed

text \<open>
  With \<open>Replace\<close> it may return an address that the port never had: here the port is deleted before the
  old address is replaced.
\<close>

theorem Get_can_return_unmapped_address:
  "\<exists>s. run_moves lmove [CallSet 80 9, Lookup 80, CallDelete 80, CallReplace 9 4, Dereference 0] (lease_start 5) = Some s
    \<and> readers s ! 0 = GotVal 4 \<and> PortCntMapping_Get 80 (pcm s) = 0"
  by (simp add: lease_start_def Get_lookup_def PortCntMapping_Get_def PortCntMapping_Set_def PortCntMapping_Replace_def
      PortCntMapping_Delete_def NewPortCntMapping_def)

end
