(* ===== verification/Registration_Threads.thy ===== *)
theory Registration_Threads
  imports Provision Move_Runs
begin

text \<open>
  Registrations, timed removals and drops on demand as goroutines: the calls of \<open>addEntryToChan\<close> and of
  the goroutine it starts (\<open>src/cnt/handler.go\<close>) and the branch of \<open>startDropFunction\<close> that drops a
  container (\<open>src/cnt/provisioner.go\<close>), each split into the calls that take the lock of the pool, of the
  container list or of the provisioner maps. \<open>Registration\<close> has the same calls in one piece.

  Between two sections every other goroutine may move, as may lookups and expiries of flows, and the
  provisioner, which announces instances and whose scale-down loop forgets entries. A deletion
  is one section here; \<open>Flow_Threads\<close> looks into it.
\<close>

section \<open>Definitions\<close>

text \<open>What \<open>addEntryToChan\<close> remembers after it has added the element to the pool.\<close>

record regn =
  g_name :: string
  g_info :: ContainerInfo
  g_id :: u16
  g_cnt :: ptr
  g_elem :: ptr

datatype rthread =
    RegList regn \<comment> \<open>before \<open>cntLst.AddContainer\<close>\<close>
  | RegCep regn \<comment> \<open>before \<open>a2c.Get\<close> and \<open>cep.AddConnElem\<close>\<close>
  | RemStart removal \<comment> \<open>the new goroutine, before it reads the id of its container\<close>
  | RemWait removal \<comment> \<open>in its select\<close>
  | RemDelete removal \<comment> \<open>after \<open>RemoveContainer\<close>, before \<open>Delete\<close>\<close>
  | DropFind u16 \<comment> \<open>after \<open>RemoveInstance\<close>, before \<open>GetConnElem\<close>\<close>
  | DropRead ptr "ptr option" \<comment> \<open>before \<open>connElem.GetContainer\<close>\<close>
  | DropDelete ptr "ptr option" "ptr option" \<comment> \<open>before \<open>connElem.Delete\<close>\<close>
  | DropRemove "ptr option" "ptr option" \<comment> \<open>before \<open>cntLst.RemoveContainer\<close>\<close>
  | RegEnd

record rsys =
  r_world :: world
  r_threads :: "rthread list"

text \<open>The registration up to the call of \<open>Add\<close> on the pool.\<close>

definition reg_add :: "(bytes \<Rightarrow> nfmsg go) \<Rightarrow> (bytes \<Rightarrow> u16 \<Rightarrow> conn option) \<Rightarrow> bytes \<Rightarrow> nat \<Rightarrow> world \<Rightarrow> (rthread \<times> world) go" where
  "reg_add GetMsgFromBytes dial buff n w =
     (if n > length buff then Panic SliceOutOfRange else
      go_bind (GetMsgFromBytes (take n buff)) (\<lambda>tMsg.
      let ipAddr = IPv4 (n_Addr tMsg ! 0) (n_Addr tMsg ! 1) (n_Addr tMsg ! 2) (n_Addr tMsg ! 3);
          actionName = trimActionName (n_Name tMsg) in
      go_bind (deref (w_cil w actionName)) (\<lambda>ci.
      let cnt = \<lparr>c_Addr = ipAddr, c_Port = n_Port tMsg, c_Fluxes = 0, c_Id = n_CntId tMsg,
                 c_Repl = n_Repl tMsg, c_MaxFluxes = maxFluxes ci\<rparr> in
      go_bind (register (UDPConnFactory dial ipAddr (n_Port tMsg)) cnt (w_maps w (cntPool ci))) (\<lambda>((c, connPoolElem), s).
      Ret (RegList \<lparr>g_name = actionName, g_info = ci, g_id = n_CntId tMsg, g_cnt = c, g_elem = connPoolElem\<rparr>,
           w\<lparr>w_maps := (w_maps w)(cntPool ci := s)\<rparr>)))))"

definition reg_removal :: "regn \<Rightarrow> removal" where
  "reg_removal g = \<lparr>rm_map = cntPool (g_info g), rm_elem = g_elem g, rm_list = cntLst (g_info g), rm_cnt = g_cnt g\<rparr>"

text \<open>
  One section of a goroutine. In its select the goroutine of \<open>addEntryToChan\<close> goes on with the timer.
\<close>

fun reg_section :: "(u16 list \<Rightarrow> u16 list) \<Rightarrow> rthread \<Rightarrow> world \<Rightarrow> (rthread \<times> world) go" where
  "reg_section rng (RegList g) w =
     (let l = cntLst (g_info g) in
      Ret (RegCep g, w\<lparr>w_lists := (w_lists w)(l := AddContainer (g_cnt g) (w_lists w l))\<rparr>))"
| "reg_section rng (RegCep g) w =
     go_bind (deref (Action2Cep_Get (g_name g) (w_a2c w))) (\<lambda>cep.
     Ret (RemStart (reg_removal g),
          w\<lparr>w_ceps := (w_ceps w)(cep := AddConnElem (g_id g) (g_elem g) (cntLst (g_info g)) (w_ceps w cep)),
            w_removals := w_removals w @ [reg_removal g]\<rparr>))"
| "reg_section rng (RemStart r) w =
     go_bind (deref (ConnPoolElem_GetContainer (rm_elem r) (w_maps w (rm_map r)))) (\<lambda>_. Ret (RemWait r, w))"
| "reg_section rng (RemWait r) w =
     go_bind (RemoveContainer (rm_cnt r) (w_lists w (rm_list r))) (\<lambda>cl.
     Ret (RemDelete r, w\<lparr>w_lists := (w_lists w)(rm_list r := cl)\<rparr>))"
| "reg_section rng (RemDelete r) w =
     go_bind (Delete rng (rm_elem r) (w_maps w (rm_map r))) (\<lambda>s.
     Ret (RegEnd, w\<lparr>w_maps := (w_maps w)(rm_map r := s), w_removals := remove1 r (w_removals w)\<rparr>))"
| "reg_section rng (DropFind cntInt) w =
     (let (connElem, cntList) = GetConnElem cntInt (w_ceps w 0) in
      go_bind (deref connElem) (\<lambda>ce. Ret (DropRead ce cntList, w)))"
| "reg_section rng (DropRead ce cntList) w = Ret (DropDelete ce cntList (ConnPoolElem_GetContainer ce (w_maps w 0)), w)"
| "reg_section rng (DropDelete ce cntList container) w =
     go_bind (Delete rng ce (w_maps w 0)) (\<lambda>s. Ret (DropRemove cntList container, w\<lparr>w_maps := (w_maps w)(0 := s)\<rparr>))"
| "reg_section rng (DropRemove cntList container) w =
     go_bind (deref cntList) (\<lambda>l.
     case container of
       None \<Rightarrow> Ret (RegEnd, w)
     | Some c \<Rightarrow> go_bind (RemoveContainer c (w_lists w l)) (\<lambda>cl. Ret (RegEnd, w\<lparr>w_lists := (w_lists w)(l := cl)\<rparr>)))"
| "reg_section rng RegEnd w = Block"

text \<open>The other case of the select: the element's \<open>stopChan\<close> is closed.\<close>

definition reg_stopped :: "removal \<Rightarrow> world \<Rightarrow> world option" where
  "reg_stopped r w =
     (if GetStopChan (rm_elem r) (w_maps w (rm_map r)) then Some (w\<lparr>w_removals := remove1 r (w_removals w)\<rparr>) else None)"

definition drop_start :: "u16 \<Rightarrow> world \<Rightarrow> rthread \<times> world" where
  "drop_start cntInt w = (DropFind cntInt, w\<lparr>w_ceps := (w_ceps w)(0 := RemoveInstance cntInt (w_ceps w 0))\<rparr>)"

text \<open>
  What one iteration of the scale-down loop of \<open>InstantiateFunctions\<close> does to the entry of \<open>cntId\<close>, which it
  reaches under the read lock: the entry of a live element without an instance, or whose instance has no
  channel (\<open>no_chan\<close>), is forgotten, as is that of a dead element. An id that is sent changes nothing here: the
  drop begins when it is received.
\<close>

definition scale_visit :: "(ptr \<Rightarrow> bool) \<Rightarrow> u16 \<Rightarrow> world \<Rightarrow> world go" where
  "scale_visit no_chan cntId w =
     (let forget = w\<lparr>w_ceps := (w_ceps w)(0 := RemoveConnElem cntId (w_ceps w 0))\<rparr> in
      case c2e (w_ceps w 0) cntId of
        None \<Rightarrow> Ret w
      | Some connElem \<Rightarrow>
          if IsAlive connElem (connPool (w_maps w 0)) then
            go_bind (IsRepl connElem (w_maps w 0)) (\<lambda>repl.
            if \<not> repl then
              (case GetInstanceNoLock cntId (w_ceps w 0) of
                 None \<Rightarrow> Ret forget
               | Some inst \<Rightarrow> if no_chan inst then Ret forget else Ret w)
            else Ret w)
          else Ret forget)"

text \<open>Deletions are of elements that are not the only member of the pool, as in \<open>Registration\<close>.\<close>

fun lone_delete :: "rthread \<Rightarrow> world \<Rightarrow> bool" where
  "lone_delete (RemDelete r) w \<longleftrightarrow> only_member (rm_elem r) w"
| "lone_delete (DropDelete ce l c) w \<longleftrightarrow> only_member ce w"
| "lone_delete _ w \<longleftrightarrow> False"

datatype rmove =
    Register "bytes \<Rightarrow> u16 \<Rightarrow> conn option" bytes nat
  | Drop u16
  | Section nat
  | StopSeen nat
  | FlowGet u16 int
  | FlowTick int flux_timer
  | Announce u16 ptr
  | ScaleVisit "ptr \<Rightarrow> bool" u16

definition spawn :: "(rthread \<times> world) \<Rightarrow> rsys \<Rightarrow> rsys" where
  "spawn tw s = s\<lparr>r_world := snd tw, r_threads := r_threads s @ [fst tw]\<rparr>"

definition resume :: "nat \<Rightarrow> rthread \<times> world \<Rightarrow> rsys \<Rightarrow> rsys" where
  "resume i tw s = s\<lparr>r_world := snd tw, r_threads := (r_threads s)[i := fst tw]\<rparr>"

definition in_map :: "Crc2ConnMap \<Rightarrow> rsys \<Rightarrow> rsys" where
  "in_map m s = s\<lparr>r_world := (r_world s)\<lparr>w_maps := (w_maps (r_world s))(0 := m)\<rparr>\<rparr>"

fun reg_move :: "(bytes \<Rightarrow> nfmsg go) \<Rightarrow> (u16 list \<Rightarrow> u16 list) \<Rightarrow> rmove \<Rightarrow> rsys \<Rightarrow> rsys option" where
  "reg_move GM rng (Register dial buff n) s =
     (case reg_add GM dial buff n (r_world s) of Ret tw \<Rightarrow> Some (spawn tw s) | _ \<Rightarrow> None)"
| "reg_move GM rng (Drop cntInt) s = Some (spawn (drop_start cntInt (r_world s)) s)"
| "reg_move GM rng (Section i) s =
     (if i < length (r_threads s) \<and> \<not> lone_delete (r_threads s ! i) (r_world s)
      then case reg_section rng (r_threads s ! i) (r_world s) of Ret tw \<Rightarrow> Some (resume i tw s) | _ \<Rightarrow> None
      else None)"
| "reg_move GM rng (StopSeen i) s =
     (if i < length (r_threads s)
      then case r_threads s ! i of
             RemWait r \<Rightarrow> map_option (\<lambda>w. resume i (RegEnd, w) s) (reg_stopped r (r_world s))
           | _ \<Rightarrow> None
      else None)"
| "reg_move GM rng (FlowGet crc now) s =
     (case Get crc now (w_maps (r_world s) 0) of Ret (res, m) \<Rightarrow> Some (in_map m s) | _ \<Rightarrow> None)"
| "reg_move GM rng (FlowTick now t) s =
     (case flux_tick now t (w_maps (r_world s) 0) of Ret (res, m) \<Rightarrow> Some (in_map m s) | _ \<Rightarrow> None)"
| "reg_move GM rng (Announce cntId inst) s =
     Some (s\<lparr>r_world := (r_world s)\<lparr>w_ceps := (w_ceps (r_world s))(0 := AddInstance cntId inst (w_ceps (r_world s) 0))\<rparr>\<rparr>)"
| "reg_move GM rng (ScaleVisit no_chan cntId) s =
     (case scale_visit no_chan cntId (r_world s) of Ret w \<Rightarrow> Some (s\<lparr>r_world := w\<rparr>) | _ \<Rightarrow> None)"

definition reg_start :: rsys where
  "reg_start = \<lparr>r_world = InitRuleMap_world, r_threads = []\<rparr>"

section \<open>Lemmas\<close>

subsection \<open>The sections against the calls\<close>

text \<open>A goroutine that runs alone: its sections in a row, \<open>n\<close> of them.\<close>

fun solo :: "(u16 list \<Rightarrow> u16 list) \<Rightarrow> nat \<Rightarrow> rthread \<times> world \<Rightarrow> (rthread \<times> world) go" where
  "solo rng 0 tw = Ret tw"
| "solo rng (Suc n) tw = go_bind (reg_section rng (fst tw) (snd tw)) (solo rng n)"

lemma go_bind_cong: "m = m' \<Longrightarrow> (\<And>x. m' = Ret x \<Longrightarrow> f x = g x) \<Longrightarrow> go_bind m f = go_bind m' g"
  by (cases m') auto

lemma solo_registration:
  "go_bind (reg_add GM dial buff n w) (\<lambda>tw. go_bind (solo rng 3 tw) (\<lambda>tw. Ret (snd tw))) = addEntryToChan GM dial buff n w"
  unfolding addEntryToChan_def reg_add_def
  by (auto simp: numeral_eq_Suc Let_def reg_removal_def intro!: go_bind_cong split: prod.split)

lemma solo_removal: "go_bind (solo rng 2 (RemWait r, w)) (\<lambda>tw. Ret (snd tw)) = removal_fires rng r w"
  by (auto simp: numeral_eq_Suc removal_fires_def Let_def intro!: go_bind_cong)

lemma solo_drop: "go_bind (solo rng 4 (drop_start cntInt w)) (\<lambda>tw. Ret (snd tw)) = drop_registration rng 0 0 cntInt w"
  unfolding drop_registration_def drop_start_def
  by (auto simp: numeral_eq_Suc Let_def intro!: go_bind_cong split: prod.split option.split)

text \<open>A visit is one iteration of the loop of \<open>Provision\<close>.\<close>

lemma visit_is_iteration:
  assumes "c2e (w_ceps (p_world p) 0) cntId = Some e" and "scale_down_loop 0 0 [(cntId, e)] delta p = Ret (ids, p')"
  shows "scale_visit (\<lambda>i. decChan (p_insts p i) = None) cntId (p_world p) = Ret (p_world p')"
  using assms by (auto simp: scale_visit_def Let_def upd_cep_def split: if_splits option.splits)

subsection \<open>The pool\<close>

text \<open>The part of \<open>agree\<close> that is about the pool: its members have distinct containers.\<close>

definition pool_ok :: "Crc2ConnMap \<Rightarrow> ptr list \<Rightarrow> bool" where
  "pool_ok m xs \<longleftrightarrow> agree m \<lparr>lst = map (\<lambda>e. the (cptr m e)) xs, duration = 0\<rparr> xs"

lemma pool_ok_agree:
  assumes "agree m cl xs"
  shows "pool_ok m xs"
  unfolding pool_ok_def by (rule agreeI) (fact agreeD [OF assms] | simp)+

lemma pool_okD:
  assumes "pool_ok m xs"
  shows "c2c_inv m xs" and "distinct xs"
    and "e \<in> set xs \<Longrightarrow> e < nextElem (connPool m)" and "e \<in> set xs \<Longrightarrow> \<exists>c. cptr m e = Some c"
    and "e < nextElem (connPool m) \<Longrightarrow> cptr m e = Some c \<Longrightarrow> c < nextContainer m"
    and "e < nextElem (connPool m) \<Longrightarrow> cptr m e = Some c \<Longrightarrow> e' < nextElem (connPool m) \<Longrightarrow> cptr m e' = Some c \<Longrightarrow> e' = e"
proof -
  note ag = assms [unfolded pool_ok_def]
  show "c2c_inv m xs" "distinct xs" by (fact agreeD(1) [OF ag], fact agree_inj(3) [OF ag])
  show "e \<in> set xs \<Longrightarrow> e < nextElem (connPool m)" "e \<in> set xs \<Longrightarrow> \<exists>c. cptr m e = Some c"
    by (fact agree_member [OF ag])+
  show "e < nextElem (connPool m) \<Longrightarrow> cptr m e = Some c \<Longrightarrow> c < nextContainer m"
    "e < nextElem (connPool m) \<Longrightarrow> cptr m e = Some c \<Longrightarrow> e' < nextElem (connPool m) \<Longrightarrow> cptr m e' = Some c \<Longrightarrow> e' = e"
    by (fact agreeD [OF ag])+
qed

lemma pool_ok_register:
  assumes "pool_ok m xs"
  shows "\<exists>m'. register conn cnt m = Ret ((nextContainer m, nextElem (connPool m)), m') \<and> pool_ok m' (xs @ [nextElem (connPool m)])
    \<and> nextContainer m' = Suc (nextContainer m) \<and> nextElem (connPool m') = Suc (nextElem (connPool m))
    \<and> (\<forall>x. cptr m' x = (if x = nextElem (connPool m) then Some (nextContainer m) else cptr m x))"
  using agree_register [OF assms [unfolded pool_ok_def], of conn cnt] pool_ok_agree by blast

lemma pool_ok_delete:
  assumes ok: "pool_ok m xs" and e: "e < nextElem (connPool m)" and more: "xs \<noteq> [e]" and rng: "range_order rng"
  shows "\<exists>m'. Delete rng e m = Ret m' \<and> pool_ok m' (members_without e xs) \<and> nextContainer m' = nextContainer m
    \<and> nextElem (connPool m') = nextElem (connPool m)
    \<and> (\<forall>x. x \<noteq> e \<longrightarrow> cptr m' x = cptr m x) \<and> cptr m' e \<in> {cptr m e, None}"
proof -
  obtain m' where m': "Delete rng e m = Ret m'" "c2c_inv m' (members_without e xs)" "nextContainer m' = nextContainer m"
    "nextElem (connPool m') = nextElem (connPool m)" "\<forall>x. x \<noteq> e \<longrightarrow> cptr m' x = cptr m x" "cptr m' e \<in> {cptr m e, None}"
    using delete_cptr_any [OF ok [unfolded pool_ok_def] e more rng] by blast
  have sub: "cptr m' x = Some k \<Longrightarrow> cptr m x = Some k" for x k using m'(5,6) by (cases "x = e") auto
  have "pool_ok m' (members_without e xs)"
    unfolding pool_ok_def
  proof (rule agreeI [OF m'(2)])
    fix x k assume x: "x < nextElem (connPool m')" "cptr m' x = Some k"
    then have xs: "x < nextElem (connPool m)" "cptr m x = Some k" using sub m'(4) by auto
    then show "k < nextContainer m'" using pool_okD(5) [OF ok xs] m'(3) by simp
    fix y assume y: "y < nextElem (connPool m')" "cptr m' y = Some k"
    then show "y = x" using pool_okD(6) [OF ok xs, of y] sub m'(4) by simp
  qed simp
  then show ?thesis using m' by blast
qed

lemma members_without_set: "distinct xs \<Longrightarrow> set (members_without e xs) = set xs - {e}"
  by (auto simp: members_without_def)

subsection \<open>What a goroutine knows\<close>

definition reg_ok :: "Crc2ConnMap \<Rightarrow> ptr list \<Rightarrow> regn \<Rightarrow> bool" where
  "reg_ok m xs g \<longleftrightarrow> g_name g = ''nat'' \<and> g_info g = \<lparr>cntPool = 0, cntLst = 0, maxFluxes = 10\<rparr>
     \<and> g_elem g \<in> set xs \<and> cptr m (g_elem g) = Some (g_cnt g)"

abbreviation elem_cnt :: "ptr \<Rightarrow> ptr \<Rightarrow> removal" where
  "elem_cnt e c \<equiv> \<lparr>rm_map = 0, rm_elem = e, rm_list = 0, rm_cnt = c\<rparr>"

fun thread_ok :: "Crc2ConnMap \<Rightarrow> ptr list \<Rightarrow> ptr list \<Rightarrow> rthread \<Rightarrow> bool" where
  "thread_ok m xs l (RegList g) \<longleftrightarrow> reg_ok m xs g \<and> g_cnt g \<notin> set l"
| "thread_ok m xs l (RegCep g) \<longleftrightarrow> reg_ok m xs g"
| "thread_ok m xs l (RemStart r) \<longleftrightarrow> removal_ok m r"
| "thread_ok m xs l (RemWait r) \<longleftrightarrow> removal_ok m r"
| "thread_ok m xs l (RemDelete r) \<longleftrightarrow> removal_ok m r \<and> rm_cnt r \<notin> set l"
| "thread_ok m xs l (DropFind i) \<longleftrightarrow> True"
| "thread_ok m xs l (DropRead e cl) \<longleftrightarrow> e < nextElem (connPool m) \<and> cl = Some 0"
| "thread_ok m xs l (DropDelete e cl cont) \<longleftrightarrow> e < nextElem (connPool m) \<and> cl = Some 0 \<and>
     (case cont of None \<Rightarrow> e \<notin> set xs | Some c \<Rightarrow> removal_ok m (elem_cnt e c))"
| "thread_ok m xs l (DropRemove cl cont) \<longleftrightarrow> cl = Some 0 \<and>
     (\<forall>c. cont = Some c \<longrightarrow> c < nextContainer m \<and> (\<forall>e \<in> set xs. cptr m e \<noteq> Some c))"
| "thread_ok m xs l RegEnd \<longleftrightarrow> True"

text \<open>The element a goroutine works on, and whether nobody else can know it yet.\<close>

fun elem_of :: "rthread \<Rightarrow> ptr option" where
  "elem_of (RegList g) = Some (g_elem g)"
| "elem_of (RegCep g) = Some (g_elem g)"
| "elem_of (RemStart r) = Some (rm_elem r)"
| "elem_of (RemWait r) = Some (rm_elem r)"
| "elem_of (RemDelete r) = Some (rm_elem r)"
| "elem_of (DropRead e cl) = Some e"
| "elem_of (DropDelete e cl cont) = Some e"
| "elem_of _ = None"

fun fresh_elem :: "rthread \<Rightarrow> ptr option" where
  "fresh_elem (RegList g) = Some (g_elem g)"
| "fresh_elem (RegCep g) = Some (g_elem g)"
| "fresh_elem _ = None"

text \<open>Every goroutine's knowledge survives what the others do.\<close>

lemma removal_ok_reg:
  assumes ok: "pool_ok m xs" and g: "reg_ok m xs g"
  shows "removal_ok m (reg_removal g)"
proof -
  have e: "g_elem g < nextElem (connPool m)" "cptr m (g_elem g) = Some (g_cnt g)"
    using g pool_okD(3) [OF ok, of "g_elem g"] by (auto simp: reg_ok_def)
  have uniq: "\<forall>x < nextElem (connPool m). cptr m x = Some (g_cnt g) \<longrightarrow> x = g_elem g"
    using pool_okD(6) [OF ok e] by blast
  have r: "reg_removal g = elem_cnt (g_elem g) (g_cnt g)" using g by (simp add: reg_removal_def reg_ok_def)
  show ?thesis
    unfolding removal_ok_def r removal.simps
    by (intro conjI refl e(1) pool_okD(5) [OF ok e] uniq) (simp add: e(2))
qed

lemma thread_ok_register:
  assumes "thread_ok m xs l th" and ok: "pool_ok m xs"
    and eq: "nextContainer m' = Suc (nextContainer m)" "nextElem (connPool m') = Suc (nextElem (connPool m))"
    and c: "\<And>x. cptr m' x = (if x = nextElem (connPool m) then Some (nextContainer m) else cptr m x)"
  shows "thread_ok m' (xs @ [nextElem (connPool m)]) l th"
proof -
  have r: "removal_ok m' r" if "removal_ok m r" for r using removal_ok_register [OF that eq c] .
  have old: "x < nextElem (connPool m)" "cptr m' x = cptr m x" if "x \<in> set xs" for x
    using pool_okD(3) [OF ok that] c [of x] by auto
  have g: "reg_ok m' (xs @ [nextElem (connPool m)]) g" if "reg_ok m xs g" for g
    using that old by (auto simp: reg_ok_def)
  show ?thesis
  proof (cases th)
    case (DropRemove cl cont)
    have "cptr m' x \<noteq> Some k" if "k < nextContainer m" "\<forall>e \<in> set xs. cptr m e \<noteq> Some k" "x \<in> set (xs @ [nextElem (connPool m)])" for x k
      using that old(2) [of x] c [of x] by auto
    then show ?thesis using assms(1) DropRemove eq(1) by (auto simp: less_Suc_eq)
  next
    case (DropDelete x cl cont)
    then show ?thesis using assms(1) eq r by (auto split: option.splits)
  qed (use assms(1) r g eq in auto)
qed

lemma thread_ok_delete:
  assumes "thread_ok m xs l th" and ok: "pool_ok m xs" and fresh: "fresh_elem th \<noteq> Some e"
    and eq: "nextContainer m' = nextContainer m" "nextElem (connPool m') = nextElem (connPool m)"
    and c: "\<forall>x. x \<noteq> e \<longrightarrow> cptr m' x = cptr m x" "cptr m' e \<in> {cptr m e, None}"
  shows "thread_ok m' (members_without e xs) l th"
proof -
  have sub: "cptr m' x \<in> {cptr m x, None}" for x using c by (cases "x = e") auto
  have r: "removal_ok m' r" if "removal_ok m r" for r using removal_ok_shrink [OF that eq sub] .
  have set: "set (members_without e xs) = set xs - {e}" using pool_okD(2) [OF ok] by (rule members_without_set)
  have g: "reg_ok m' (members_without e xs) g" if "reg_ok m xs g" "g_elem g \<noteq> e" for g
    using that c set by (auto simp: reg_ok_def)
  show ?thesis
  proof (cases th)
    case (DropRemove cl cont)
    then show ?thesis using assms(1) eq c(1) set by simp
  next
    case (DropDelete x cl cont)
    then show ?thesis using assms(1) eq r set by (auto split: option.splits)
  qed (use assms(1) fresh r g eq in auto)
qed

lemma thread_ok_add:
  assumes "thread_ok m xs l th" and ok: "pool_ok m xs" and g: "reg_ok m xs g" and other: "elem_of th \<noteq> Some (g_elem g)"
  shows "thread_ok m xs (l @ [g_cnt g]) th"
proof -
  have e: "g_elem g < nextElem (connPool m)" "cptr m (g_elem g) = Some (g_cnt g)"
    using g pool_okD(3) [OF ok, of "g_elem g"] by (auto simp: reg_ok_def)
  have "rm_cnt r \<noteq> g_cnt g" if "removal_ok m r" "rm_elem r \<noteq> g_elem g" for r
    using removal_okD(6) [OF that(1)] e that(2) by force
  moreover have "g_cnt g' \<noteq> g_cnt g" if "reg_ok m xs g'" "g_elem g' \<noteq> g_elem g" for g'
    using that pool_okD(6) [OF ok e, of "g_elem g'"] pool_okD(3) [OF ok, of "g_elem g'"] by (auto simp: reg_ok_def)
  ultimately show ?thesis using assms(1) other by (cases th) auto
qed

lemma thread_ok_remove: "thread_ok m xs l th \<Longrightarrow> set l' \<subseteq> set l \<Longrightarrow> thread_ok m xs l' th"
  by (cases th) auto

subsection \<open>The two views of the containers\<close>

definition unshared :: "ConnElemProvisioner \<Rightarrow> rthread list \<Rightarrow> bool" where
  "unshared cep ths \<longleftrightarrow> (\<forall>i < length ths. \<forall>e. fresh_elem (ths ! i) = Some e \<longrightarrow>
     (\<forall>j < length ths. j \<noteq> i \<longrightarrow> elem_of (ths ! j) \<noteq> Some e) \<and> (\<forall>k. c2e cep k \<noteq> Some e))"

text \<open>
  A listed container belongs to a member of the pool, unless its removal is under way; a member's
  container is listed, unless its registration or its deletion is.
\<close>

definition listed_ok :: "Crc2ConnMap \<Rightarrow> ptr list \<Rightarrow> rthread list \<Rightarrow> ptr list \<Rightarrow> bool" where
  "listed_ok m l ths xs \<longleftrightarrow> (\<forall>c \<in> set l. c < nextContainer m \<and>
     ((\<exists>e \<in> set xs. cptr m e = Some c) \<or> (\<exists>cl. DropRemove cl (Some c) \<in> set ths)))"

definition member_ok :: "Crc2ConnMap \<Rightarrow> ptr list \<Rightarrow> rthread list \<Rightarrow> ptr list \<Rightarrow> bool" where
  "member_ok m l ths xs \<longleftrightarrow> (\<forall>e \<in> set xs. \<forall>c. cptr m e = Some c \<longrightarrow> c \<in> set l \<or>
     (\<exists>g. RegList g \<in> set ths \<and> g_elem g = e) \<or> (\<exists>r. RemDelete r \<in> set ths \<and> rm_elem r = e))"

definition core :: "Crc2ConnMap \<Rightarrow> ptr list \<Rightarrow> ConnElemProvisioner \<Rightarrow> rthread list \<Rightarrow> ptr list \<Rightarrow> bool" where
  "core m l cep ths xs \<longleftrightarrow> pool_ok m xs \<and> distinct l
     \<and> (\<forall>i e. c2e cep i = Some e \<longrightarrow> e < nextElem (connPool m) \<and> c2l cep i = Some 0)
     \<and> (\<forall>th \<in> set ths. thread_ok m xs l th) \<and> unshared cep ths \<and> listed_ok m l ths xs \<and> member_ok m l ths xs"

lemma coreI:
  assumes "pool_ok m xs" and "distinct l" and "\<And>i e. c2e cep i = Some e \<Longrightarrow> e < nextElem (connPool m) \<and> c2l cep i = Some 0"
    and "\<And>th. th \<in> set ths \<Longrightarrow> thread_ok m xs l th" and "unshared cep ths" and "listed_ok m l ths xs" and "member_ok m l ths xs"
  shows "core m l cep ths xs"
  using assms unfolding core_def by blast

lemma coreD:
  assumes "core m l cep ths xs"
  shows "pool_ok m xs" and "distinct l" and "c2e cep i = Some e \<Longrightarrow> e < nextElem (connPool m) \<and> c2l cep i = Some 0"
    and "th \<in> set ths \<Longrightarrow> thread_ok m xs l th" and "unshared cep ths" and "listed_ok m l ths xs" and "member_ok m l ths xs"
  using assms unfolding core_def by blast+

lemma core_thread: "core m l cep ths xs \<Longrightarrow> i < length ths \<Longrightarrow> thread_ok m xs l (ths ! i)"
  using coreD(4) nth_mem by blast

lemma listed_okI:
  assumes "\<And>c. c \<in> set l \<Longrightarrow> c < nextContainer m \<and> ((\<exists>e \<in> set xs. cptr m e = Some c) \<or> (\<exists>cl. DropRemove cl (Some c) \<in> set ths))"
  shows "listed_ok m l ths xs"
  using assms unfolding listed_ok_def by blast

lemma member_okI:
  assumes "\<And>e c. e \<in> set xs \<Longrightarrow> cptr m e = Some c \<Longrightarrow> c \<in> set l \<or>
     (\<exists>g. RegList g \<in> set ths \<and> g_elem g = e) \<or> (\<exists>r. RemDelete r \<in> set ths \<and> rm_elem r = e)"
  shows "member_ok m l ths xs"
  using assms unfolding member_ok_def by blast

lemma listed_okD:
  assumes "listed_ok m l ths xs" and "c \<in> set l"
  shows "c < nextContainer m" and "(\<exists>e \<in> set xs. cptr m e = Some c) \<or> (\<exists>cl. DropRemove cl (Some c) \<in> set ths)"
  using assms unfolding listed_ok_def by blast+

lemma member_okD:
  assumes "member_ok m l ths xs" and "e \<in> set xs" and "cptr m e = Some c"
  shows "c \<in> set l \<or> (\<exists>g. RegList g \<in> set ths \<and> g_elem g = e) \<or> (\<exists>r. RemDelete r \<in> set ths \<and> rm_elem r = e)"
  using assms unfolding member_ok_def by blast

lemma set_update_other: "x \<in> set ths \<Longrightarrow> x \<noteq> ths ! i \<Longrightarrow> x \<in> set (ths[i := y])"
  by (metis in_set_conv_nth length_list_update nth_list_update_neq)

lemma set_update_nthD: "x \<in> set (ths[i := y]) \<Longrightarrow> \<exists>j < length ths. x = (if j = i then y else ths ! j)"
  by (auto simp: in_set_conv_nth nth_list_update)

lemma set_updateD: "x \<in> set (ths[i := y]) \<Longrightarrow> x = y \<or> x \<in> set ths"
  using set_update_subset_insert [of ths i y] by blast

lemma unshared_elsewhere:
  assumes "unshared cep ths" and "i < length ths" and "j < length ths" and "j \<noteq> i" and "fresh_elem (ths ! i) = Some e"
  shows "elem_of (ths ! j) \<noteq> Some e"
  using assms unfolding unshared_def by blast

lemma unshared_unpublished:
  assumes "unshared cep ths" and "i < length ths" and "fresh_elem (ths ! i) = Some e"
  shows "c2e cep k \<noteq> Some e"
  using assms unfolding unshared_def by blast

lemma unshared_update:
  assumes p: "unshared cep ths" and i: "i < length ths"
    and f: "fresh_elem th' = None \<or> fresh_elem th' = fresh_elem (ths ! i)"
    and e: "\<And>e. elem_of th' = Some e \<Longrightarrow> elem_of (ths ! i) = Some e \<or> (\<exists>k. c2e cep k = Some e)"
  shows "unshared cep (ths[i := th'])"
  unfolding unshared_def
proof (intro allI impI)
  fix a x assume a: "a < length (ths[i := th'])" "fresh_elem (ths[i := th'] ! a) = Some x"
  then have a': "a < length ths" "fresh_elem (ths ! a) = Some x" using f i by (cases "a = i"; auto)+
  have "elem_of (ths[i := th'] ! b) \<noteq> Some x" if "b < length ths" "b \<noteq> a" for b
    using unshared_elsewhere [OF p a'(1) that a'(2)] unshared_unpublished [OF p a'] e [of x] that
    by (cases "b = i") auto
  then show "(\<forall>j < length (ths[i := th']). j \<noteq> a \<longrightarrow> elem_of (ths[i := th'] ! j) \<noteq> Some x) \<and> (\<forall>k. c2e cep k \<noteq> Some x)"
    using unshared_unpublished [OF p a'] by simp
qed

lemma unshared_append:
  assumes p: "unshared cep ths" and f: "\<And>e. fresh_elem th = Some e \<Longrightarrow> (\<forall>t \<in> set ths. elem_of t \<noteq> Some e) \<and> (\<forall>k. c2e cep k \<noteq> Some e)"
    and e: "\<And>e. elem_of th = Some e \<Longrightarrow> \<forall>t \<in> set ths. fresh_elem t \<noteq> Some e"
  shows "unshared cep (ths @ [th])"
  unfolding unshared_def
proof (intro allI impI)
  fix a x assume a: "a < length (ths @ [th])" "fresh_elem ((ths @ [th]) ! a) = Some x"
  show "(\<forall>j < length (ths @ [th]). j \<noteq> a \<longrightarrow> elem_of ((ths @ [th]) ! j) \<noteq> Some x) \<and> (\<forall>k. c2e cep k \<noteq> Some x)"
  proof (cases "a < length ths")
    case True
    then have f: "fresh_elem (ths ! a) = Some x" using a(2) by (simp add: nth_append)
    have "elem_of th \<noteq> Some x" using e [of x] f nth_mem [OF True] by auto
    then show ?thesis
      using unshared_elsewhere [OF p True _ _ f] unshared_unpublished [OF p True f] by (auto simp: nth_append less_Suc_eq)
  next
    case False
    then have "a = length ths" "fresh_elem th = Some x" using a by (auto simp: nth_append less_Suc_eq)
    then show ?thesis using f [of x] by (auto simp: nth_append less_Suc_eq)
  qed
qed

lemma thread_elem_bound:
  assumes "thread_ok m xs l th" and "pool_ok m xs" and "elem_of th = Some e"
  shows "e < nextElem (connPool m)"
  using assms pool_okD(3) [OF assms(2)] removal_okD(3) by (cases th) (auto simp: reg_ok_def)

subsection \<open>Every section keeps it\<close>

lemma core_register:
  assumes core: "core m l cep ths xs"
    and m': "pool_ok m' (xs @ [nextElem (connPool m)])" "nextContainer m' = Suc (nextContainer m)"
      "nextElem (connPool m') = Suc (nextElem (connPool m))"
      "\<And>x. cptr m' x = (if x = nextElem (connPool m) then Some (nextContainer m) else cptr m x)"
    and g: "reg_ok m' (xs @ [nextElem (connPool m)]) g" "g_elem g = nextElem (connPool m)"
  shows "core m' l cep (ths @ [RegList g]) (xs @ [nextElem (connPool m)])"
proof (rule coreI [OF m'(1) coreD(2) [OF core]])
  let ?e = "nextElem (connPool m)"
  note ok = coreD(1) [OF core]
  have c: "g_cnt g = nextContainer m" using g m'(4) [of ?e] by (simp add: reg_ok_def)
  have old: "x \<noteq> ?e" if "x \<in> set xs" for x using pool_okD(3) [OF ok that] by simp
  show "e < nextElem (connPool m') \<and> c2l cep i = Some 0" if "c2e cep i = Some e" for i e
    using coreD(3) [OF core that] m'(3) by simp
  have "nextContainer m \<notin> set l" using coreD(6) [OF core] by (auto simp: listed_ok_def)
  then show "thread_ok m' (xs @ [?e]) l th" if "th \<in> set (ths @ [RegList g])" for th
    using that thread_ok_register [OF coreD(4) [OF core] ok m'(2,3,4)] g(1) c by auto
  have "elem_of t \<noteq> Some ?e" if "t \<in> set ths" for t
    using thread_elem_bound [OF coreD(4) [OF core that] ok, of ?e] by auto
  moreover have "fresh_elem t = Some e \<Longrightarrow> elem_of t = Some e" for t e by (cases t) auto
  moreover have "c2e cep k \<noteq> Some ?e" for k using coreD(3) [OF core, of k ?e] by auto
  ultimately show "unshared cep (ths @ [RegList g])"
    using g(2) by (intro unshared_append [OF coreD(5) [OF core]]) auto
  show "listed_ok m' l (ths @ [RegList g]) (xs @ [?e])"
  proof (rule listed_okI)
    fix k assume "k \<in> set l"
    then have "k < nextContainer m" "(\<exists>e \<in> set xs. cptr m e = Some k) \<or> (\<exists>cl. DropRemove cl (Some k) \<in> set ths)"
      using coreD(6) [OF core] by (auto simp: listed_ok_def)
    then show "k < nextContainer m' \<and> ((\<exists>e \<in> set (xs @ [?e]). cptr m' e = Some k) \<or> (\<exists>cl. DropRemove cl (Some k) \<in> set (ths @ [RegList g])))"
      using m'(2,4) old by auto
  qed
  show "member_ok m' l (ths @ [RegList g]) (xs @ [?e])"
  proof (rule member_okI)
    fix e k assume e: "e \<in> set (xs @ [?e])" "cptr m' e = Some k"
    show "k \<in> set l \<or> (\<exists>g'. RegList g' \<in> set (ths @ [RegList g]) \<and> g_elem g' = e)
        \<or> (\<exists>r. RemDelete r \<in> set (ths @ [RegList g]) \<and> rm_elem r = e)"
    proof (cases "e = ?e")
      case False
      then have "e \<in> set xs" "cptr m e = Some k" using e m'(4) [of e] by auto
      then show ?thesis using member_okD [OF coreD(7) [OF core]] by (simp, blast)
    qed (use g(2) in auto)
  qed
qed

text \<open>
  A goroutine that only moves on, or one that is removed: what the other goroutines account for stays
  accounted for.
\<close>

lemma listed_ok_update:
  assumes "listed_ok m l ths xs" and "set l' \<subseteq> set l" and "\<And>cl c. ths ! i = DropRemove cl (Some c) \<Longrightarrow> c \<notin> set l'"
  shows "listed_ok m l' (ths[i := th']) xs"
proof (rule listed_okI)
  fix c assume c: "c \<in> set l'"
  then have "c < nextContainer m" "(\<exists>e \<in> set xs. cptr m e = Some c) \<or> (\<exists>cl. DropRemove cl (Some c) \<in> set ths)"
    using assms(1,2) by (auto simp: listed_ok_def)
  then show "c < nextContainer m \<and> ((\<exists>e \<in> set xs. cptr m e = Some c) \<or> (\<exists>cl. DropRemove cl (Some c) \<in> set (ths[i := th'])))"
    using assms(3) c set_update_other [of _ ths i th'] by metis
qed

lemma member_ok_update:
  assumes "member_ok m l ths xs" and "\<And>g. ths ! i \<noteq> RegList g" and "\<And>r. ths ! i \<noteq> RemDelete r"
  shows "member_ok m l (ths[i := th']) xs"
proof (rule member_okI)
  fix e c assume "e \<in> set xs" "cptr m e = Some c"
  then have "c \<in> set l \<or> (\<exists>g. RegList g \<in> set ths \<and> g_elem g = e) \<or> (\<exists>r. RemDelete r \<in> set ths \<and> rm_elem r = e)"
    using assms(1) by (simp add: member_ok_def)
  then show "c \<in> set l \<or> (\<exists>g. RegList g \<in> set (ths[i := th']) \<and> g_elem g = e) \<or> (\<exists>r. RemDelete r \<in> set (ths[i := th']) \<and> rm_elem r = e)"
    using assms(2,3) set_update_other [of _ ths i th'] by metis
qed

lemma core_add:
  assumes core: "core m l cep ths xs" and i: "i < length ths" and th: "ths ! i = RegList g"
  shows "core m (l @ [g_cnt g]) cep (ths[i := RegCep g]) xs"
proof (rule coreI [OF coreD(1) [OF core] _ coreD(3) [OF core]])
  note ok = coreD(1) [OF core]
  have g: "reg_ok m xs g" "g_cnt g \<notin> set l" using core_thread [OF core i] th by auto
  then have e: "g_elem g \<in> set xs" "cptr m (g_elem g) = Some (g_cnt g)" "g_cnt g < nextContainer m"
    using pool_okD(5) [OF ok] pool_okD(3) [OF ok] by (auto simp: reg_ok_def)
  show "distinct (l @ [g_cnt g])" using coreD(2) [OF core] g(2) by simp
  show "thread_ok m xs (l @ [g_cnt g]) t" if t: "t \<in> set (ths[i := RegCep g])" for t
  proof -
    obtain j where j: "j < length ths" "t = (if j = i then RegCep g else ths ! j)" using set_update_nthD [OF t] by blast
    show ?thesis
    proof (cases "j = i")
      case False
      then have "t = ths ! j" "elem_of t \<noteq> Some (g_elem g)"
        using j unshared_elsewhere [OF coreD(5) [OF core] i j(1), of "g_elem g"] th by auto
      then show ?thesis using thread_ok_add [OF _ ok g(1)] core_thread [OF core j(1)] by simp
    qed (use j g in simp)
  qed
  show "unshared cep (ths[i := RegCep g])" using th by (intro unshared_update [OF coreD(5) [OF core] i]) auto
  show "listed_ok m (l @ [g_cnt g]) (ths[i := RegCep g]) xs"
  proof -
    have "listed_ok m l (ths[i := RegCep g]) xs" using th by (intro listed_ok_update [OF coreD(6) [OF core]]) auto
    then show ?thesis using e unfolding listed_ok_def by auto
  qed
  show "member_ok m (l @ [g_cnt g]) (ths[i := RegCep g]) xs"
  proof (rule member_okI)
    fix e' c assume e': "e' \<in> set xs" "cptr m e' = Some c"
    show "c \<in> set (l @ [g_cnt g]) \<or> (\<exists>g'. RegList g' \<in> set (ths[i := RegCep g]) \<and> g_elem g' = e')
        \<or> (\<exists>r. RemDelete r \<in> set (ths[i := RegCep g]) \<and> rm_elem r = e')"
    proof (cases "e' = g_elem g")
      case False
      then have "RegList g' \<noteq> ths ! i" if "g_elem g' = e'" for g' using that th by auto
      moreover have "RemDelete r \<noteq> ths ! i" for r using th by simp
      ultimately show ?thesis
        using member_okD [OF coreD(7) [OF core] e'] set_update_other [of _ ths i "RegCep g"] by (metis UnI1 set_append)
    qed (use e' e in auto)
  qed
qed

lemma core_move:
  assumes core: "core m l cep ths xs" and i: "i < length ths" and th': "thread_ok m xs l th'" "fresh_elem th' = None"
    and e: "\<And>e. elem_of th' = Some e \<Longrightarrow> elem_of (ths ! i) = Some e \<or> (\<exists>k. c2e cep k = Some e)"
    and plain: "\<And>g. ths ! i \<noteq> RegList g" "\<And>r. ths ! i \<noteq> RemDelete r" "\<And>cl c. ths ! i \<noteq> DropRemove cl (Some c)"
  shows "core m l cep (ths[i := th']) xs"
proof (rule coreI [OF coreD(1,2,3) [OF core]])
  show "thread_ok m xs l t" if "t \<in> set (ths[i := th'])" for t using set_updateD [OF that] th'(1) coreD(4) [OF core] by blast
  show "unshared cep (ths[i := th'])" using th'(2) e by (intro unshared_update [OF coreD(5) [OF core] i]) auto
  show "listed_ok m l (ths[i := th']) xs" using plain(3) by (intro listed_ok_update [OF coreD(6) [OF core]]) auto
  show "member_ok m l (ths[i := th']) xs" using plain(1,2) by (intro member_ok_update [OF coreD(7) [OF core]]) auto
qed

lemma core_publish:
  assumes core: "core m l cep ths xs" and i: "i < length ths" and th: "ths ! i = RegCep g"
  shows "core m l (AddConnElem (g_id g) (g_elem g) 0 cep) (ths[i := RemStart (reg_removal g)]) xs"
proof -
  note ok = coreD(1) [OF core]
  have g: "reg_ok m xs g" using core_thread [OF core i] th by simp
  have moved: "core m l cep (ths[i := RemStart (reg_removal g)]) xs"
    using th removal_ok_reg [OF ok g] by (intro core_move [OF core i]) (auto simp: reg_removal_def)
  have new: "c2e (AddConnElem (g_id g) (g_elem g) 0 cep) k = Some e \<Longrightarrow> e = g_elem g \<or> c2e cep k = Some e" for k e
    by (auto simp: AddConnElem_def split: if_splits)
  have "fresh_elem (ths[i := RemStart (reg_removal g)] ! a) \<noteq> Some (g_elem g)" if a: "a < length ths" for a
  proof (cases "a = i")
    case False
    then have "fresh_elem (ths ! a) \<noteq> Some (g_elem g)"
      using unshared_elsewhere [OF coreD(5) [OF core] a i _, of "g_elem g"] th by auto
    then show ?thesis using False by simp
  qed (use a in simp)
  then have "unshared (AddConnElem (g_id g) (g_elem g) 0 cep) (ths[i := RemStart (reg_removal g)])"
    using coreD(5) [OF moved] new unfolding unshared_def by (metis length_list_update)
  moreover have "e < nextElem (connPool m) \<and> c2l (AddConnElem (g_id g) (g_elem g) 0 cep) k = Some 0"
    if "c2e (AddConnElem (g_id g) (g_elem g) 0 cep) k = Some e" for k e
    using that coreD(3) [OF core, of k e] g pool_okD(3) [OF ok, of "g_elem g"]
    by (auto simp: AddConnElem_def reg_ok_def split: if_splits)
  ultimately show ?thesis
    using coreD(4,6,7) [OF moved] by (intro coreI [OF ok coreD(2) [OF core]])
qed

lemma core_unlist:
  assumes core: "core m l cep ths xs" and i: "i < length ths" and th: "ths ! i = RemWait r"
  shows "core m (remove1 (rm_cnt r) l) cep (ths[i := RemDelete r]) xs"
proof (rule coreI [OF coreD(1) [OF core] _ coreD(3) [OF core]])
  note ok = coreD(1) [OF core]
  have r: "removal_ok m r" using core_thread [OF core i] th by simp
  show "distinct (remove1 (rm_cnt r) l)" using coreD(2) [OF core] by simp
  show "thread_ok m xs (remove1 (rm_cnt r) l) t" if "t \<in> set (ths[i := RemDelete r])" for t
    using set_updateD [OF that] r coreD(2) [OF core] thread_ok_remove [OF coreD(4) [OF core] set_remove1_subset] by auto
  show "unshared cep (ths[i := RemDelete r])" using th by (intro unshared_update [OF coreD(5) [OF core] i]) auto
  show "listed_ok m (remove1 (rm_cnt r) l) (ths[i := RemDelete r]) xs"
    using th by (intro listed_ok_update [OF coreD(6) [OF core] set_remove1_subset]) auto
  show "member_ok m (remove1 (rm_cnt r) l) (ths[i := RemDelete r]) xs"
  proof (rule member_okI)
    fix e c assume e: "e \<in> set xs" "cptr m e = Some c"
    have new: "RemDelete r \<in> set (ths[i := RemDelete r])" using i by (rule set_update_memI)
    have u: "member_ok m l (ths[i := RemDelete r]) xs" using th by (intro member_ok_update [OF coreD(7) [OF core]]) auto
    show "c \<in> set (remove1 (rm_cnt r) l) \<or> (\<exists>g. RegList g \<in> set (ths[i := RemDelete r]) \<and> g_elem g = e)
        \<or> (\<exists>r'. RemDelete r' \<in> set (ths[i := RemDelete r]) \<and> rm_elem r' = e)"
    proof (cases "c = rm_cnt r")
      case True
      then have "rm_elem r = e" using removal_okD(6) [OF r] pool_okD(3) [OF ok e(1)] e(2) by simp
      then show ?thesis using new by blast
    next
      case False
      then show ?thesis using member_okD [OF u e] in_set_remove1 [OF False] by blast
    qed
  qed
qed

text \<open>An element is deleted by the goroutine \<open>i\<close>.\<close>

lemma core_delete:
  assumes core: "core m l cep ths xs" and i: "i < length ths" and e: "elem_of (ths ! i) = Some e" "fresh_elem (ths ! i) = None"
    and m': "pool_ok m' (members_without e xs)" "nextContainer m' = nextContainer m" "nextElem (connPool m') = nextElem (connPool m)"
      "\<forall>x. x \<noteq> e \<longrightarrow> cptr m' x = cptr m x" "cptr m' e \<in> {cptr m e, None}"
    and th': "thread_ok m' (members_without e xs) l th'" "fresh_elem th' = None" "elem_of th' = None"
    and gone: "\<And>c. e \<in> set xs \<Longrightarrow> cptr m e = Some c \<Longrightarrow> c \<in> set l \<Longrightarrow> \<exists>cl. th' = DropRemove cl (Some c)"
  shows "core m' l cep (ths[i := th']) (members_without e xs)"
proof (rule coreI [OF m'(1) coreD(2) [OF core]])
  note ok = coreD(1) [OF core]
  have set: "set (members_without e xs) = set xs - {e}" using pool_okD(2) [OF ok] by (rule members_without_set)
  show "x < nextElem (connPool m') \<and> c2l cep k = Some 0" if "c2e cep k = Some x" for k x
    using coreD(3) [OF core that] m'(3) by simp
  have fresh: "fresh_elem t \<noteq> Some e" if t: "t \<in> set ths" for t
  proof -
    obtain j where j: "j < length ths" "t = ths ! j" using t by (auto simp: in_set_conv_nth)
    then show ?thesis using e unshared_elsewhere [OF coreD(5) [OF core] j(1) i, of e] by (cases "j = i") auto
  qed
  show "thread_ok m' (members_without e xs) l t" if "t \<in> set (ths[i := th'])" for t
    using set_updateD [OF that] th'(1) thread_ok_delete [OF coreD(4) [OF core] ok fresh m'(2-5)] by blast
  show "unshared cep (ths[i := th'])" using th'(2,3) by (intro unshared_update [OF coreD(5) [OF core] i]) auto
  show "listed_ok m' l (ths[i := th']) (members_without e xs)"
  proof (rule listed_okI)
    fix c assume c: "c \<in> set l"
    have i_th: "ths ! i \<noteq> DropRemove cl (Some c)" for cl using e by auto
    have new: "th' \<in> set (ths[i := th'])" using i by (rule set_update_memI)
    from listed_okD(2) [OF coreD(6) [OF core] c]
    have "(\<exists>x \<in> set xs. x \<noteq> e \<and> cptr m x = Some c) \<or> (\<exists>cl. DropRemove cl (Some c) \<in> set (ths[i := th']))"
    proof (elim disjE bexE exE)
      fix x assume x: "x \<in> set xs" "cptr m x = Some c"
      show ?thesis using x gone [OF _ _ c] new by (cases "x = e") auto
    qed (use i_th set_update_other [of _ ths i th'] in metis)
    then show "c < nextContainer m' \<and> ((\<exists>x \<in> set (members_without e xs). cptr m' x = Some c)
        \<or> (\<exists>cl. DropRemove cl (Some c) \<in> set (ths[i := th'])))"
      using set m'(2,4) listed_okD(1) [OF coreD(6) [OF core] c] by auto
  qed
  show "member_ok m' l (ths[i := th']) (members_without e xs)"
  proof (rule member_okI)
    fix x c assume "x \<in> set (members_without e xs)" "cptr m' x = Some c"
    then have x: "x \<in> set xs" "x \<noteq> e" "cptr m x = Some c" using set m'(4) by auto
    have "RegList g \<noteq> ths ! i" for g using e(2) by (metis fresh_elem.simps(1) option.distinct(1))
    moreover have "RemDelete r \<noteq> ths ! i" if "rm_elem r = x" for r
      using that e(1) x(2) by (metis elem_of.simps(5) option.inject)
    ultimately show "c \<in> set l \<or> (\<exists>g. RegList g \<in> set (ths[i := th']) \<and> g_elem g = x)
        \<or> (\<exists>r. RemDelete r \<in> set (ths[i := th']) \<and> rm_elem r = x)"
      using member_okD [OF coreD(7) [OF core] x(1,3)] set_update_other [of _ ths i th'] by metis
  qed
qed

lemma drop_remove_ok:
  assumes ok: "pool_ok m xs" and cont: "case cont of None \<Rightarrow> e \<notin> set xs | Some c \<Rightarrow> removal_ok m (elem_cnt e c)"
    and eq: "nextContainer m' = nextContainer m" "\<forall>x. x \<noteq> e \<longrightarrow> cptr m' x = cptr m x"
  shows "\<forall>c. cont = Some c \<longrightarrow> c < nextContainer m' \<and> (\<forall>x \<in> set (members_without e xs). cptr m' x \<noteq> Some c)"
proof (intro allI impI)
  fix c assume "cont = Some c"
  then have r: "removal_ok m (elem_cnt e c)" using cont by simp
  have "cptr m' x \<noteq> Some c" if "x \<in> set (members_without e xs)" for x
  proof -
    have x: "x \<in> set xs" "x \<noteq> e" using that members_without_set [OF pool_okD(2) [OF ok]] by auto
    then have "cptr m x \<noteq> Some c" using removal_okD(6) [OF r] pool_okD(3) [OF ok x(1)] by auto
    then show ?thesis using eq(2) x(2) by simp
  qed
  then show "c < nextContainer m' \<and> (\<forall>x \<in> set (members_without e xs). cptr m' x \<noteq> Some c)"
    using removal_okD(4) [OF r] eq(1) by simp
qed

lemma core_removed:
  assumes core: "core m l cep ths xs" and i: "i < length ths" and th: "ths ! i = DropRemove cl (Some c)"
  shows "core m (remove1 c l) cep (ths[i := RegEnd]) xs"
proof (rule coreI [OF coreD(1) [OF core] _ coreD(3) [OF core]])
  have c: "\<forall>e \<in> set xs. cptr m e \<noteq> Some c" using core_thread [OF core i] th by simp
  show "distinct (remove1 c l)" using coreD(2) [OF core] by simp
  show "thread_ok m xs (remove1 c l) t" if "t \<in> set (ths[i := RegEnd])" for t
    using set_updateD [OF that] thread_ok_remove [OF coreD(4) [OF core] set_remove1_subset] by auto
  show "unshared cep (ths[i := RegEnd])" by (intro unshared_update [OF coreD(5) [OF core] i]) auto
  show "listed_ok m (remove1 c l) (ths[i := RegEnd]) xs"
    using th coreD(2) [OF core] by (intro listed_ok_update [OF coreD(6) [OF core] set_remove1_subset]) auto
  have "member_ok m l (ths[i := RegEnd]) xs" using th by (intro member_ok_update [OF coreD(7) [OF core]]) auto
  then show "member_ok m (remove1 c l) (ths[i := RegEnd]) xs"
    using c coreD(2) [OF core] unfolding member_ok_def by (metis in_set_remove1)
qed

text \<open>Lookups and expiries of flows change neither containers nor members; a drop starts with no effect on them.\<close>

lemma thread_ok_quiet:
  assumes "thread_ok m xs l th" and eq: "cptr m' = cptr m" "nextContainer m' = nextContainer m" "nextElem (connPool m') = nextElem (connPool m)"
  shows "thread_ok m' xs l th"
proof -
  have c: "cptr m' x = cptr m x" for x using eq(1) by (rule fun_cong)
  have "removal_ok m' r = removal_ok m r" for r unfolding removal_ok_def c eq(2,3) ..
  moreover have "reg_ok m' xs g = reg_ok m xs g" for g unfolding reg_ok_def c ..
  ultimately show ?thesis using assms(1) by (cases th) (simp_all add: c eq split: option.splits)
qed

lemma core_quiet:
  assumes core: "core m l cep ths xs" and inv: "c2c_inv m' xs"
    and eq: "cptr m' = cptr m" "nextContainer m' = nextContainer m" "nextElem (connPool m') = nextElem (connPool m)"
  shows "core m' l cep ths xs"
proof (rule coreI [OF _ coreD(2) [OF core] _ _ coreD(5) [OF core]])
  have c: "cptr m' x = cptr m x" for x using eq(1) by (rule fun_cong)
  show "pool_ok m' xs"
    by (rule pool_ok_agree [OF agree_cong [OF coreD(1) [OF core, unfolded pool_ok_def] inv eq]])
  show "e < nextElem (connPool m') \<and> c2l cep i = Some 0" if "c2e cep i = Some e" for i e
    using coreD(3) [OF core that] eq(3) by simp
  show "thread_ok m' xs l t" if "t \<in> set ths" for t using thread_ok_quiet [OF coreD(4) [OF core that] eq] .
  show "listed_ok m' l ths xs" "member_ok m' l ths xs"
    using coreD(6,7) [OF core] unfolding listed_ok_def member_ok_def c eq(2) .
qed

lemma core_drop:
  assumes core: "core m l cep ths xs" and cep: "c2e cep' = c2e cep" "c2l cep' = c2l cep"
  shows "core m l cep' (ths @ [DropFind k]) xs"
proof (rule coreI [OF coreD(1,2) [OF core]])
  show "e < nextElem (connPool m) \<and> c2l cep' i = Some 0" if "c2e cep' i = Some e" for i e
    using coreD(3) [OF core, of i e] that unfolding cep .
  show "thread_ok m xs l t" if "t \<in> set (ths @ [DropFind k])" for t using that coreD(4) [OF core] by auto
  have "unshared cep (ths @ [DropFind k])" by (rule unshared_append [OF coreD(5) [OF core]]) auto
  then show "unshared cep' (ths @ [DropFind k])" unfolding unshared_def cep .
  show "listed_ok m l (ths @ [DropFind k]) xs" using coreD(6) [OF core] unfolding listed_ok_def by auto
  show "member_ok m l (ths @ [DropFind k]) xs" using coreD(7) [OF core] unfolding member_ok_def by simp
qed

lemma core_forget:
  assumes core: "core m l cep ths xs" and sub: "\<And>i e. c2e cep' i = Some e \<Longrightarrow> c2e cep i = Some e" and "c2l cep' = c2l cep"
  shows "core m l cep' ths xs"
proof (rule coreI [OF coreD(1,2) [OF core] _ coreD(4) [OF core] _ coreD(6,7) [OF core]])
  show "e < nextElem (connPool m) \<and> c2l cep' i = Some 0" if "c2e cep' i = Some e" for i e
    using coreD(3) [OF core sub [OF that]] assms(3) by simp
  show "unshared cep' ths" using coreD(5) [OF core] sub unfolding unshared_def by blast
qed

subsection \<open>All interleavings\<close>

definition reg_inv :: "rsys \<Rightarrow> ptr list \<Rightarrow> bool" where
  "reg_inv s xs \<longleftrightarrow> core (w_maps (r_world s) 0) (lst (w_lists (r_world s) 0)) (w_ceps (r_world s) 0) (r_threads s) xs
     \<and> w_cil (r_world s) = [''nat'' \<mapsto> \<lparr>cntPool = 0, cntLst = 0, maxFluxes = 10\<rparr>] \<and> a2c (w_a2c (r_world s)) = [''nat'' \<mapsto> 0]"

lemma not_lone:
  assumes "pool_ok (w_maps w 0) xs" and "\<not> only_member e w"
  shows "xs \<noteq> [e]"
  using pool_okD(1) [OF assms(1)] assms(2) by (auto simp: only_member_def c2c_inv_def ring_def links_def)

lemma reg_add_inv:
  assumes inv: "reg_inv s xs" and add: "reg_add GM dial buff n (r_world s) = Ret tw"
  shows "reg_inv (spawn tw s) (xs @ [nextElem (connPool (w_maps (r_world s) 0))])"
proof -
  let ?w = "r_world s" let ?m = "w_maps ?w 0" let ?e = "nextElem (connPool ?m)"
  have core: "core ?m (lst (w_lists ?w 0)) (w_ceps ?w 0) (r_threads s) xs" using inv by (simp add: reg_inv_def)
  obtain t ci where t: "GM (take n buff) = Ret t" and ci: "w_cil ?w (trimActionName (n_Name t)) = Some ci"
    using add by (auto simp: reg_add_def Let_def split: if_splits)
  then have nat: "trimActionName (n_Name t) = ''nat''" "ci = \<lparr>cntPool = 0, cntLst = 0, maxFluxes = 10\<rparr>"
    using inv by (auto simp: reg_inv_def split: if_splits)
  define ip where "ip = IPv4 (n_Addr t ! 0) (n_Addr t ! 1) (n_Addr t ! 2) (n_Addr t ! 3)"
  define cnt where "cnt = \<lparr>c_Addr = ip, c_Port = n_Port t, c_Fluxes = 0, c_Id = n_CntId t, c_Repl = n_Repl t, c_MaxFluxes = 10\<rparr>"
  define g where "g = \<lparr>g_name = ''nat'', g_info = ci, g_id = n_CntId t, g_cnt = nextContainer ?m, g_elem = ?e\<rparr>"
  obtain m' where m': "register (UDPConnFactory dial ip (n_Port t)) cnt ?m = Ret ((nextContainer ?m, ?e), m')"
    "pool_ok m' (xs @ [?e])" "nextContainer m' = Suc (nextContainer ?m)" "nextElem (connPool m') = Suc ?e"
    "\<forall>x. cptr m' x = (if x = ?e then Some (nextContainer ?m) else cptr ?m x)"
    using pool_ok_register [OF coreD(1) [OF core]] by blast
  have tw: "tw = (RegList g, ?w\<lparr>w_maps := (w_maps ?w)(0 := m')\<rparr>)"
    using add t ci nat m'(1) by (auto simp: reg_add_def Let_def ip_def cnt_def g_def split: if_splits)
  have "reg_ok m' (xs @ [?e]) g" using m'(5) nat(2) by (simp add: reg_ok_def g_def)
  then have "core m' (lst (w_lists ?w 0)) (w_ceps ?w 0) (r_threads s @ [RegList g]) (xs @ [?e])"
    using m'(5) by (intro core_register [OF core m'(2,3,4)]) (simp_all add: g_def)
  then show ?thesis using inv unfolding tw by (simp add: reg_inv_def spawn_def)
qed

text \<open>
  The sections of the goroutines, one by one: each returns and keeps the invariant.
\<close>

definition section_good :: "(u16 list \<Rightarrow> u16 list) \<Rightarrow> nat \<Rightarrow> rsys \<Rightarrow> bool" where
  "section_good rng i s \<longleftrightarrow> (\<exists>tw ys. reg_section rng (r_threads s ! i) (r_world s) = Ret tw \<and> reg_inv (resume i tw s) ys)"

lemma reg_invD:
  assumes "reg_inv s xs"
  shows "core (w_maps (r_world s) 0) (lst (w_lists (r_world s) 0)) (w_ceps (r_world s) 0) (r_threads s) xs"
    and "w_cil (r_world s) = [''nat'' \<mapsto> \<lparr>cntPool = 0, cntLst = 0, maxFluxes = 10\<rparr>]" and "a2c (w_a2c (r_world s)) = [''nat'' \<mapsto> 0]"
    and "pool_ok (w_maps (r_world s) 0) xs"
    and "i < length (r_threads s) \<Longrightarrow> thread_ok (w_maps (r_world s) 0) xs (lst (w_lists (r_world s) 0)) (r_threads s ! i)"
    and "RemoveContainer c (w_lists (r_world s) 0) = Ret ((w_lists (r_world s) 0)\<lparr>lst := remove1 c (lst (w_lists (r_world s) 0))\<rparr>)"
proof -
  show core: "core (w_maps (r_world s) 0) (lst (w_lists (r_world s) 0)) (w_ceps (r_world s) 0) (r_threads s) xs"
    and "w_cil (r_world s) = [''nat'' \<mapsto> \<lparr>cntPool = 0, cntLst = 0, maxFluxes = 10\<rparr>]" "a2c (w_a2c (r_world s)) = [''nat'' \<mapsto> 0]"
    using assms by (simp_all add: reg_inv_def)
  show "pool_ok (w_maps (r_world s) 0) xs" using coreD(1) [OF core] .
  show "i < length (r_threads s) \<Longrightarrow> thread_ok (w_maps (r_world s) 0) xs (lst (w_lists (r_world s) 0)) (r_threads s ! i)"
    using core_thread [OF core] .
  show "RemoveContainer c (w_lists (r_world s) 0) = Ret ((w_lists (r_world s) 0)\<lparr>lst := remove1 c (lst (w_lists (r_world s) 0))\<rparr>)"
    by (rule RemoveContainer_remove1 [OF coreD(2) [OF core]])
qed

lemma section_goodI:
  assumes "reg_inv s xs" and "reg_section rng (r_threads s ! i) (r_world s) = Ret (th', w')"
    and "core (w_maps w' 0) (lst (w_lists w' 0)) (w_ceps w' 0) ((r_threads s)[i := th']) ys"
    and "w_cil w' = w_cil (r_world s)" and "w_a2c w' = w_a2c (r_world s)"
  shows "section_good rng i s"
proof -
  have "reg_inv (resume i (th', w') s) ys" using assms(1,3-5) by (simp add: reg_inv_def resume_def)
  then show ?thesis using assms(2) unfolding section_good_def by blast
qed

lemma section_register:
  assumes inv: "reg_inv s xs" and i: "i < length (r_threads s)" and th: "r_threads s ! i = RegList g \<or> r_threads s ! i = RegCep g"
  shows "section_good rng i s"
proof -
  let ?w = "r_world s"
  have g: "g_info g = \<lparr>cntPool = 0, cntLst = 0, maxFluxes = 10\<rparr>" "g_name g = ''nat''"
    using reg_invD(5) [OF inv i] th by (auto simp: reg_ok_def)
  from th show ?thesis
  proof
    assume th: "r_threads s ! i = RegList g"
    show ?thesis
      using core_add [OF reg_invD(1) [OF inv] i th] g(1)
      by (intro section_goodI [OF inv, of rng i "RegCep g" "?w\<lparr>w_lists := (w_lists ?w)(0 := AddContainer (g_cnt g) (w_lists ?w 0))\<rparr>" xs])
        (simp_all add: th AddContainer_def Let_def)
  next
    assume th: "r_threads s ! i = RegCep g"
    show ?thesis
      using core_publish [OF reg_invD(1) [OF inv] i th] g reg_invD(3) [OF inv]
      by (intro section_goodI [OF inv, of rng i "RemStart (reg_removal g)" "?w\<lparr>w_ceps := (w_ceps ?w)(0 :=
          AddConnElem (g_id g) (g_elem g) 0 (w_ceps ?w 0)), w_removals := w_removals ?w @ [reg_removal g]\<rparr>" xs])
        (simp_all add: th Action2Cep_Get_def)
  qed
qed

lemma section_removal:
  assumes inv: "reg_inv s xs" and i: "i < length (r_threads s)"
  shows "r_threads s ! i = RemStart r \<Longrightarrow> cptr (w_maps (r_world s) 0) (rm_elem r) \<noteq> None \<Longrightarrow> section_good rng i s"
    and "r_threads s ! i = RemWait r \<Longrightarrow> section_good rng i s"
proof -
  let ?w = "r_world s"
  note core = reg_invD(1) [OF inv]
  show "section_good rng i s" if th: "r_threads s ! i = RemStart r" and c: "cptr (w_maps ?w 0) (rm_elem r) \<noteq> None"
  proof -
    have r: "rm_map r = 0" "removal_ok (w_maps ?w 0) r" using reg_invD(5) [OF inv i] th removal_okD(1) by auto
    have "core (w_maps ?w 0) (lst (w_lists ?w 0)) (w_ceps ?w 0) ((r_threads s)[i := RemWait r]) xs"
      using th r(2) by (intro core_move [OF core i]) auto
    then show ?thesis
      using c r(1) by (intro section_goodI [OF inv, of rng i "RemWait r" ?w xs]) (auto simp: th ConnPoolElem_GetContainer_def)
  qed
  show "section_good rng i s" if th: "r_threads s ! i = RemWait r"
  proof -
    have "rm_list r = 0" using reg_invD(5) [OF inv i] th removal_okD(2) by auto
    then show ?thesis
      using core_unlist [OF core i th] reg_invD(6) [OF inv, of "rm_cnt r"]
      by (intro section_goodI [OF inv, of rng i "RemDelete r" "?w\<lparr>w_lists := (w_lists ?w)(0 :=
          (w_lists ?w 0)\<lparr>lst := remove1 (rm_cnt r) (lst (w_lists ?w 0))\<rparr>)\<rparr>" xs]) (simp_all add: th)
  qed
qed

lemma section_rem_delete:
  assumes inv: "reg_inv s xs" and i: "i < length (r_threads s)" and th: "r_threads s ! i = RemDelete r"
    and lone: "\<not> only_member (rm_elem r) (r_world s)" and rng: "range_order rng"
  shows "section_good rng i s"
proof -
  let ?w = "r_world s" let ?m = "w_maps ?w 0" let ?e = "rm_elem r"
  have r: "removal_ok ?m r" "rm_cnt r \<notin> set (lst (w_lists ?w 0))" using reg_invD(5) [OF inv i] th by auto
  obtain m' where m': "Delete rng ?e ?m = Ret m'" "pool_ok m' (members_without ?e xs)"
    "nextContainer m' = nextContainer ?m" "nextElem (connPool m') = nextElem (connPool ?m)"
    "\<forall>x. x \<noteq> ?e \<longrightarrow> cptr m' x = cptr ?m x" "cptr m' ?e \<in> {cptr ?m ?e, None}"
    using pool_ok_delete [OF reg_invD(4) [OF inv] removal_okD(3) [OF r(1)] not_lone [OF reg_invD(4) [OF inv] lone] rng] by blast
  have "core m' (lst (w_lists ?w 0)) (w_ceps ?w 0) ((r_threads s)[i := RegEnd]) (members_without ?e xs)"
    by (rule core_delete [OF reg_invD(1) [OF inv] i _ _ m'(2-6)]) (use th r removal_okD(5) [OF r(1)] in auto)
  then show ?thesis
    using m'(1) removal_okD(1) [OF r(1)]
    by (intro section_goodI [OF inv, of rng i RegEnd "?w\<lparr>w_maps := (w_maps ?w)(0 := m'), w_removals := remove1 r (w_removals ?w)\<rparr>"])
      (simp_all add: th)
qed

lemma section_drop_read:
  assumes inv: "reg_inv s xs" and i: "i < length (r_threads s)"
  shows "r_threads s ! i = DropFind k \<Longrightarrow> c2e (w_ceps (r_world s) 0) k \<noteq> None \<Longrightarrow> section_good rng i s"
    and "r_threads s ! i = DropRead e cl \<Longrightarrow> section_good rng i s"
proof -
  let ?w = "r_world s" let ?m = "w_maps ?w 0"
  note core = reg_invD(1) [OF inv] and ok = reg_invD(4) [OF inv]
  show "section_good rng i s" if th: "r_threads s ! i = DropFind k" and "c2e (w_ceps ?w 0) k \<noteq> None"
  proof -
    obtain e where e: "c2e (w_ceps ?w 0) k = Some e" using \<open>c2e _ k \<noteq> None\<close> by blast
    have "core ?m (lst (w_lists ?w 0)) (w_ceps ?w 0) ((r_threads s)[i := DropRead e (c2l (w_ceps ?w 0) k)]) xs"
      using coreD(3) [OF core e] e th by (intro core_move [OF core i]) auto
    then show ?thesis
      using e by (intro section_goodI [OF inv, of rng i "DropRead e (c2l (w_ceps ?w 0) k)" ?w xs]) (simp_all add: th GetConnElem_def)
  qed
  show "section_good rng i s" if th: "r_threads s ! i = DropRead e cl"
  proof -
    have e: "e < nextElem (connPool ?m)" "cl = Some 0" using reg_invD(5) [OF inv i] th by auto
    have "removal_ok ?m (elem_cnt e c)" if "cptr ?m e = Some c" for c
      unfolding removal_ok_def removal.simps
      using pool_okD(6) [OF ok e(1) that] by (intro conjI refl e(1) pool_okD(5) [OF ok e(1) that]) (auto simp: that)
    then have "thread_ok ?m xs (lst (w_lists ?w 0)) (DropDelete e cl (cptr ?m e))"
      using e pool_okD(4) [OF ok, of e] by (auto split: option.split)
    then have "core ?m (lst (w_lists ?w 0)) (w_ceps ?w 0) ((r_threads s)[i := DropDelete e cl (cptr ?m e)]) xs"
      using th by (intro core_move [OF core i]) auto
    then show ?thesis
      by (intro section_goodI [OF inv, of rng i "DropDelete e cl (cptr ?m e)" ?w xs]) (simp_all add: th ConnPoolElem_GetContainer_def)
  qed
qed

lemma section_drop_delete:
  assumes inv: "reg_inv s xs" and i: "i < length (r_threads s)" and th: "r_threads s ! i = DropDelete e cl cont"
    and lone: "\<not> only_member e (r_world s)" and rng: "range_order rng"
  shows "section_good rng i s"
proof -
  let ?w = "r_world s" let ?m = "w_maps ?w 0"
  note ok = reg_invD(4) [OF inv]
  have e: "e < nextElem (connPool ?m)" "cl = Some 0" and cont: "case cont of None \<Rightarrow> e \<notin> set xs | Some c \<Rightarrow> removal_ok ?m (elem_cnt e c)"
    using reg_invD(5) [OF inv i] th by auto
  obtain m' where m': "Delete rng e ?m = Ret m'" "pool_ok m' (members_without e xs)"
    "nextContainer m' = nextContainer ?m" "nextElem (connPool m') = nextElem (connPool ?m)"
    "\<forall>x. x \<noteq> e \<longrightarrow> cptr m' x = cptr ?m x" "cptr m' e \<in> {cptr ?m e, None}"
    using pool_ok_delete [OF ok e(1) not_lone [OF ok lone] rng] by blast
  have th': "thread_ok m' (members_without e xs) (lst (w_lists ?w 0)) (DropRemove cl cont)"
    using e(2) drop_remove_ok [OF ok cont m'(3,5)] by simp
  have "core m' (lst (w_lists ?w 0)) (w_ceps ?w 0) ((r_threads s)[i := DropRemove cl cont]) (members_without e xs)"
  proof (rule core_delete [OF reg_invD(1) [OF inv] i _ _ m'(2-6) th'])
    show "\<exists>cl'. DropRemove cl cont = DropRemove cl' (Some c)" if "e \<in> set xs" "cptr ?m e = Some c" for c
      using that cont removal_okD(5) [of ?m "elem_cnt e _"] by (cases cont) fastforce+
  qed (use th in auto)
  then show ?thesis
    using m'(1) by (intro section_goodI [OF inv, of rng i "DropRemove cl cont" "?w\<lparr>w_maps := (w_maps ?w)(0 := m')\<rparr>"]) (simp_all add: th)
qed

lemma section_drop_remove:
  assumes inv: "reg_inv s xs" and i: "i < length (r_threads s)" and th: "r_threads s ! i = DropRemove cl cont"
  shows "section_good rng i s"
proof (cases cont)
  let ?w = "r_world s"
  have cl: "cl = Some 0" using reg_invD(5) [OF inv i] th by simp
  case None
  then have "core (w_maps ?w 0) (lst (w_lists ?w 0)) (w_ceps ?w 0) ((r_threads s)[i := RegEnd]) xs"
    using th by (intro core_move [OF reg_invD(1) [OF inv] i]) auto
  then show ?thesis using None cl by (intro section_goodI [OF inv, of rng i RegEnd ?w xs]) (simp_all add: th)
next
  let ?w = "r_world s"
  have cl: "cl = Some 0" using reg_invD(5) [OF inv i] th by simp
  case (Some c)
  then show ?thesis
    using core_removed [OF reg_invD(1) [OF inv] i, of cl c] th cl reg_invD(6) [OF inv, of c]
    by (intro section_goodI [OF inv, of rng i RegEnd "?w\<lparr>w_lists := (w_lists ?w)(0 :=
        (w_lists ?w 0)\<lparr>lst := remove1 c (lst (w_lists ?w 0))\<rparr>)\<rparr>" xs]) simp_all
qed

text \<open>
  The two places where a goroutine dereferences a nil pointer: the removal goroutine when the element has
  lost its container before it starts, a drop when the container is not registered or has been forgotten.
\<close>

fun nil_read :: "rthread \<Rightarrow> world \<Rightarrow> bool" where
  "nil_read (RemStart r) w \<longleftrightarrow> cptr (w_maps w 0) (rm_elem r) = None"
| "nil_read (DropFind k) w \<longleftrightarrow> c2e (w_ceps w 0) k = None"
| "nil_read _ w \<longleftrightarrow> False"

lemma section_progress:
  assumes inv: "reg_inv s xs" and i: "i < length (r_threads s)" and lone: "\<not> lone_delete (r_threads s ! i) (r_world s)"
    and rng: "range_order rng" and more: "r_threads s ! i \<noteq> RegEnd" "\<not> nil_read (r_threads s ! i) (r_world s)"
  shows "section_good rng i s"
proof (cases "r_threads s ! i")
  case (RemDelete r)
  then show ?thesis using section_rem_delete [OF inv i _ _ rng] lone by simp
next
  case (DropDelete e cl cont)
  then show ?thesis using section_drop_delete [OF inv i _ _ rng] lone by simp
qed (use more section_register [OF inv i] section_removal [OF inv i] section_drop_read [OF inv i] section_drop_remove [OF inv i] in auto)

lemma nil_read_panics:
  assumes inv: "reg_inv s xs" and i: "i < length (r_threads s)" and nil: "nil_read (r_threads s ! i) (r_world s)"
  shows "reg_section rng (r_threads s ! i) (r_world s) = Panic NilDereference"
  using nil reg_invD(5) [OF inv i] removal_okD(1)
  by (cases "r_threads s ! i") (auto simp: ConnPoolElem_GetContainer_def GetConnElem_def)

lemma section_inv:
  assumes inv: "reg_inv s xs" and i: "i < length (r_threads s)" and lone: "\<not> lone_delete (r_threads s ! i) (r_world s)"
    and rng: "range_order rng" and sec: "reg_section rng (r_threads s ! i) (r_world s) = Ret tw"
  shows "\<exists>ys. reg_inv (resume i tw s) ys"
proof -
  have "r_threads s ! i \<noteq> RegEnd" using sec by auto
  moreover have "\<not> nil_read (r_threads s ! i) (r_world s)" using nil_read_panics [OF inv i] sec by auto
  ultimately show ?thesis using section_progress [OF inv i lone rng] sec by (auto simp: section_good_def)
qed

lemma stopped_inv:
  assumes inv: "reg_inv s xs" and i: "i < length (r_threads s)" and th: "r_threads s ! i = RemWait r"
    and stop: "reg_stopped r (r_world s) = Some w"
  shows "reg_inv (resume i (RegEnd, w) s) xs"
proof -
  have "core (w_maps (r_world s) 0) (lst (w_lists (r_world s) 0)) (w_ceps (r_world s) 0) ((r_threads s)[i := RegEnd]) xs"
    using th by (intro core_move [OF reg_invD(1) [OF inv] i]) auto
  moreover have "w = (r_world s)\<lparr>w_removals := remove1 r (w_removals (r_world s))\<rparr>" using stop by (simp add: reg_stopped_def split: if_splits)
  ultimately show ?thesis using inv by (simp add: reg_inv_def resume_def)
qed

lemma in_map_inv:
  assumes inv: "reg_inv s xs" and m: "c2c_inv m xs" "cptr m = cptr (w_maps (r_world s) 0)"
    "nextContainer m = nextContainer (w_maps (r_world s) 0)" "nextElem (connPool m) = nextElem (connPool (w_maps (r_world s) 0))"
  shows "reg_inv (in_map m s) xs"
  using core_quiet [OF reg_invD(1) [OF inv] m] inv by (simp add: reg_inv_def in_map_def)

lemma drop_start_inv:
  assumes "reg_inv s xs"
  shows "reg_inv (spawn (drop_start k (r_world s)) s) xs"
  using core_drop [OF reg_invD(1) [OF assms], of "RemoveInstance k (w_ceps (r_world s) 0)" k] assms
  by (simp add: reg_inv_def spawn_def drop_start_def RemoveInstance_def)

text \<open>A visit of the scale-down loop returns, and takes at most the entry away.\<close>

lemma alive_member:
  assumes "pool_ok m xs" and "e < nextElem (connPool m)"
  shows "IsAlive e (connPool m) \<Longrightarrow> e \<in> set xs"
  using pool_okD(1) [OF assms(1)] assms(2) by (auto simp: c2c_inv_def ring_def dead_def IsAlive_def)

lemma scale_visit_inv:
  assumes inv: "reg_inv s xs"
  shows "\<exists>w. scale_visit no_chan k (r_world s) = Ret w \<and> reg_inv (s\<lparr>r_world := w\<rparr>) xs"
proof (cases "c2e (w_ceps (r_world s) 0) k")
  case None
  then show ?thesis using inv by (simp add: scale_visit_def)
next
  case (Some e)
  let ?w = "r_world s"
  let ?f = "?w\<lparr>w_ceps := (w_ceps ?w)(0 := RemoveConnElem k (w_ceps ?w 0))\<rparr>"
  have "core (w_maps ?w 0) (lst (w_lists ?w 0)) (RemoveConnElem k (w_ceps ?w 0)) (r_threads s) xs"
    by (rule core_forget [OF reg_invD(1) [OF inv]]) (auto simp: RemoveConnElem_def split: if_splits)
  then have forget: "reg_inv (s\<lparr>r_world := ?f\<rparr>) xs" using inv by (simp add: reg_inv_def)
  have e: "e < nextElem (connPool (w_maps ?w 0))" using coreD(3) [OF reg_invD(1) [OF inv] Some] by blast
  have "\<exists>c. cptr (w_maps ?w 0) e = Some c" if "IsAlive e (connPool (w_maps ?w 0))"
    using pool_okD(4) [OF reg_invD(4) [OF inv] alive_member [OF reg_invD(4) [OF inv] e that]] .
  then have "scale_visit no_chan k ?w = Ret ?w \<or> scale_visit no_chan k ?w = Ret ?f"
    using Some by (auto simp: scale_visit_def Let_def IsRepl_def split: option.splits)
  then show ?thesis using forget inv by auto
qed

lemma announce_inv:
  assumes "reg_inv s xs"
  shows "reg_inv (s\<lparr>r_world := (r_world s)\<lparr>w_ceps := (w_ceps (r_world s))(0 := AddInstance k i (w_ceps (r_world s) 0))\<rparr>\<rparr>) xs"
  using core_forget [OF reg_invD(1) [OF assms], of "AddInstance k i (w_ceps (r_world s) 0)"] assms
  by (simp add: reg_inv_def AddInstance_def)

definition reg_state_ok :: "(u16 list \<Rightarrow> u16 list) \<Rightarrow> rsys \<Rightarrow> bool" where
  "reg_state_ok rng s \<longleftrightarrow> range_order rng \<and> (\<exists>xs. reg_inv s xs)"

interpretation registering: moving_system "reg_move GM rng" "reg_state_ok rng" for GM rng
proof
  fix s s' m
  assume "reg_state_ok rng s" and m: "reg_move GM rng m s = Some s'"
  then obtain xs where rng: "range_order rng" and inv: "reg_inv s xs" by (auto simp: reg_state_ok_def)
  have pool: "c2c_inv (w_maps (r_world s) 0) xs" using pool_okD(1) [OF reg_invD(4) [OF inv]] .
  have "\<exists>ys. reg_inv s' ys"
  proof (cases m)
    case (Register dial buff n)
    then obtain tw where "reg_add GM dial buff n (r_world s) = Ret tw" "s' = spawn tw s" using m by (auto split: go.splits)
    then show ?thesis using reg_add_inv [OF inv] by blast
  next
    case (Drop k)
    then show ?thesis using m drop_start_inv [OF inv, of k] by auto
  next
    case (Section i)
    then show ?thesis using m section_inv [OF inv _ _ rng] by (auto split: if_splits go.splits)
  next
    case (StopSeen i)
    then show ?thesis using m stopped_inv [OF inv] by (auto split: if_splits rthread.splits)
  next
    case (FlowGet crc now)
    then obtain res s1 where g: "Get crc now (w_maps (r_world s) 0) = Ret (res, s1)" "s' = in_map s1 s" using m by (auto split: go.splits)
    have "c2c_inv s1 xs" using g(1) Get_inv [OF pool, of crc now] Get_empty [of "w_maps (r_world s) 0"] pool by (cases "xs = []") auto
    then show ?thesis using in_map_inv [OF inv _ Get_cptr [OF g(1)]] g(2) by blast
  next
    case (FlowTick now t)
    then obtain b s1 where g: "flux_tick now t (w_maps (r_world s) 0) = Ret (b, s1)" "s' = in_map s1 s" using m by (auto split: go.splits)
    then show ?thesis using in_map_inv [OF inv flux_tick_inv [OF pool g(1)] flux_tick_cptr [OF g(1)]] by blast
  next
    case (Announce k i)
    then show ?thesis using m announce_inv [OF inv, of k i] by auto
  next
    case (ScaleVisit no_chan k)
    then show ?thesis using m scale_visit_inv [OF inv, of no_chan k] by (auto split: go.splits)
  qed
  then show "reg_state_ok rng s'" using rng by (simp add: reg_state_ok_def)
qed

lemma reg_inv_start: "reg_inv reg_start []"
proof -
  have "pool_ok (w_maps InitRuleMap_world 0) []" using pool_ok_agree [OF world_invD(1) [OF world_inv_init]] .
  then show ?thesis
    by (auto simp: reg_inv_def reg_start_def core_def unshared_def listed_ok_def member_ok_def InitRuleMap_world_def
        NewContainerList_def NewConnElemProvisioner_def Action2Cep_Set_def NewAction2Cep_def)
qed

lemma run_reg_inv:
  assumes "run_moves (reg_move GM rng) ms reg_start = Some s" and "range_order rng"
  obtains xs where "reg_inv s xs"
  using registering.inv_run [of rng reg_start GM ms s] assms reg_inv_start by (auto simp: reg_state_ok_def)

section \<open>Properties\<close>

text \<open>A goroutine that is not in the middle of changing one of the two views.\<close>

fun at_rest :: "rthread \<Rightarrow> bool" where
  "at_rest (RegList g) \<longleftrightarrow> False"
| "at_rest (RemDelete r) \<longleftrightarrow> False"
| "at_rest (DropRemove cl cont) \<longleftrightarrow> False"
| "at_rest _ \<longleftrightarrow> True"

lemma at_rest_agree:
  assumes inv: "reg_inv s xs" and rest: "list_all at_rest (r_threads s)"
  shows "set (lst (w_lists (r_world s) 0)) = {c. \<exists>e \<in> set xs. cptr (w_maps (r_world s) 0) e = Some c}"
proof -
  have none: "RegList g \<notin> set (r_threads s)" "RemDelete r \<notin> set (r_threads s)" "DropRemove cl cont \<notin> set (r_threads s)" for g r cl cont
    using rest by (auto simp: list_all_iff)
  show ?thesis
    using listed_okD(2) [OF coreD(6) [OF reg_invD(1) [OF inv]]] member_okD [OF coreD(7) [OF reg_invD(1) [OF inv]]] none by blast
qed


text \<open>Two registrations, the second of which has not listed its container yet.\<close>

definition reg_moves_ex :: "rmove list" where
  "reg_moves_ex = [Register (\<lambda>_ _. Some 1) [1] 1, Section 0, Section 0, Section 0, Register (\<lambda>_ _. Some 2) [2] 1]"

lemma reg_moves_ex_run: "run_moves (reg_move GM_ex id) reg_moves_ex reg_start \<noteq> None"
  by code_simp



text \<open>
  The second container is dropped after it has been published and before its removal goroutine has run.
\<close>

definition late_start_ex :: "rmove list" where
  "late_start_ex = reg_moves_ex @ [Section 1, Section 1, Drop 2, Section 2, Section 2, Section 2]"

definition late_start_state :: rsys where
  "late_start_state = (case run_moves (reg_move GM_ex id) late_start_ex reg_start of Some s \<Rightarrow> s | None \<Rightarrow> reg_start)"

lemma late_start_run: "run_moves (reg_move GM_ex id) late_start_ex reg_start = Some late_start_state"
proof -
  have "run_moves (reg_move GM_ex id) late_start_ex reg_start \<noteq> None" by code_simp
  then show ?thesis by (auto simp: late_start_state_def)
qed

lemma late_start_thread:
  "length (r_threads late_start_state) = 3"
  "case r_threads late_start_state ! 1 of RemStart r \<Rightarrow> nil_read (RemStart r) (r_world late_start_state) | _ \<Rightarrow> False"
  by code_simp+


text \<open>
  A drop that the scale-down loop overtakes: the instance is forgotten first, so the loop, which finds a
  live element without an instance, deletes the entry that the drop is about to read.
\<close>

definition overtaken_ex :: "rmove list" where
  "overtaken_ex = reg_moves_ex @ [Announce 2 0, Section 1, Section 1, Drop 2, ScaleVisit (\<lambda>_. False) 2]"

lemma overtaken_drop_panics:
  "case run_moves (reg_move GM_ex id) overtaken_ex reg_start of
     Some s \<Rightarrow> (case reg_section id (r_threads s ! 2) (r_world s) of Panic p \<Rightarrow> p = NilDereference | _ \<Rightarrow> False)
   | None \<Rightarrow> False"
  by code_simp


end
