(* ===== verification/Handler_Threads.thy ===== *)
theory Handler_Threads
  imports Gateway_Main Move_Runs
begin

text \<open>
  The goroutines that the readers of the interfaces start for the packets: \<open>HandleIncomingRequestsFromIPv4\<close> of
  \<open>src/udp/udp_handler.go\<close> cut into its lookup, the acquisition of the flow's semaphore, the write and the
  release. Between two sections the other handlers and the goroutines that expire flows may move.

  The semaphore is the package's, a parameter: \<open>held w\<close> is the weight in use, \<open>cap\<close> the weight it was made with.
\<close>

section \<open>Definitions\<close>

datatype hthread =
    HLookup bytes
  | HAcquire conn "sem option" bytes
  | HWrite conn "sem option" bytes
  | HRelease "sem option"
  | HDone

text \<open>The calls the handler makes of other packages.\<close>

record 'w henv =
  h_ck :: "bytes \<Rightarrow> u16"
  h_Acquire :: "'w \<Rightarrow> 'w go"
  h_Release :: "'w \<Rightarrow> 'w go"
  h_order :: "(ptr \<times> rule \<times> ptr) list \<Rightarrow> (ptr \<times> rule \<times> ptr) list"

fun handler_section :: "'w henv \<Rightarrow> RuleMap \<Rightarrow> int \<Rightarrow> hthread \<Rightarrow> 'w gw_state \<Rightarrow> (hthread \<times> 'w gw_state) go" where
  "handler_section E rl now (HLookup pktBuff) g =
     go_bind (GetChan (h_ck E) (h_order E) rl pktBuff now (gw_maps g)) (\<lambda>((outChan, lock), maps).
     Ret (case outChan of None \<Rightarrow> HDone | Some conn \<Rightarrow> HAcquire conn lock pktBuff, g\<lparr>gw_maps := maps\<rparr>))"
| "handler_section E rl now (HAcquire conn lock pktBuff) g =
     go_bind (sem_call (h_Acquire E) lock g) (\<lambda>g. Ret (HWrite conn lock pktBuff, g))"
| "handler_section E rl now (HWrite conn lock pktBuff) g = Ret (HRelease lock, SendToContainer3 pktBuff conn g)"
| "handler_section E rl now (HRelease lock) g =
     go_bind (sem_call (h_Release E) lock g) (\<lambda>g. Ret (HDone, g))"
| "handler_section E rl now HDone g = Block"

record 'w hsys =
  h_gw :: "'w gw_state"
  h_threads :: "hthread list"

datatype hmove = HRun nat int | HExpire int flux_timer

text \<open>The flows of the map \<open>m\<close> are what the rule of \<open>InitRuleMap\<close> leads to.\<close>

fun handler_move :: "'w henv \<Rightarrow> ptr \<Rightarrow> hmove \<Rightarrow> 'w hsys \<Rightarrow> 'w hsys option" where
  "handler_move E m (HRun i now) y =
     (if i < length (h_threads y)
      then case handler_section E (nat_rules m) now (h_threads y ! i) (h_gw y) of
             Ret (th, g) \<Rightarrow> Some (y\<lparr>h_gw := g, h_threads := (h_threads y)[i := th]\<rparr>)
           | _ \<Rightarrow> None
      else None)"
| "handler_move E m (HExpire now t) y =
     (case flux_tick now t (gw_maps (h_gw y) m) of
        Ret (b, s) \<Rightarrow> Some (y\<lparr>h_gw := (h_gw y)\<lparr>gw_maps := (gw_maps (h_gw y))(m := s)\<rparr>\<rparr>)
      | _ \<Rightarrow> None)"

definition handlers_start :: "bytes list \<Rightarrow> 'w gw_state \<Rightarrow> 'w hsys" where
  "handlers_start pkts g = \<lparr>h_gw = g, h_threads = map HLookup pkts\<rparr>"

text \<open>What the package documents of a weighted semaphore, for calls of weight one.\<close>

definition sem_counts :: "'w henv \<Rightarrow> ('w \<Rightarrow> nat) \<Rightarrow> nat \<Rightarrow> bool" where
  "sem_counts E held cap \<longleftrightarrow> 0 < cap
     \<and> (\<forall>w. if held w < cap then \<exists>w'. h_Acquire E w = Ret w' \<and> held w' = Suc (held w) else h_Acquire E w = Block)
     \<and> (\<forall>w. if 0 < held w then \<exists>w'. h_Release E w = Ret w' \<and> Suc (held w') = held w else h_Release E w = Panic Panicked)"

section \<open>Lemmas\<close>

text \<open>A handler that is not interrupted is the call.\<close>

lemma solo_handler:
  "udp_HandleIncomingRequestsFromIPv4 (h_ck E) (h_Acquire E) (h_Release E) (h_order E) pkt rl now g =
     go_bind (handler_section E rl now (HLookup pkt) g) (\<lambda>(th, g).
     if th = HDone then Ret g
     else go_bind (handler_section E rl now th g) (\<lambda>(th, g).
          go_bind (handler_section E rl now th g) (\<lambda>(th, g).
          go_bind (handler_section E rl now th g) (\<lambda>(th, g). Ret g))))"
proof (cases "GetChan (h_ck E) (h_order E) rl pkt now (gw_maps g)")
  case (Ret x)
  then show ?thesis by (cases x) (auto simp: udp_HandleIncomingRequestsFromIPv4_def Let_def split: option.split)
qed (simp_all add: udp_HandleIncomingRequestsFromIPv4_def)

lemma sem_countsD:
  assumes "sem_counts E held cap"
  shows "h_Acquire E w = Ret w' \<Longrightarrow> held w' = Suc (held w)" and "h_Release E w = Ret w' \<Longrightarrow> Suc (held w') = held w"
    and "returns (h_Acquire E w) \<or> h_Acquire E w = Block \<and> cap \<le> held w" and "0 < held w \<Longrightarrow> returns (h_Release E w)"
    and "0 < cap"
proof -
  have A: "if held w < cap then \<exists>w'. h_Acquire E w = Ret w' \<and> held w' = Suc (held w) else h_Acquire E w = Block"
    and R: "if 0 < held w then \<exists>w'. h_Release E w = Ret w' \<and> Suc (held w') = held w else h_Release E w = Panic Panicked"
    using assms unfolding sem_counts_def by blast+
  show "h_Acquire E w = Ret w' \<Longrightarrow> held w' = Suc (held w)"
    and "returns (h_Acquire E w) \<or> h_Acquire E w = Block \<and> cap \<le> held w" using A by (auto simp: returns_def split: if_splits)
  show "h_Release E w = Ret w' \<Longrightarrow> Suc (held w') = held w" and "0 < held w \<Longrightarrow> returns (h_Release E w)"
    using R by (auto simp: returns_def split: if_splits)
  show "0 < cap" using assms by (simp add: sem_counts_def)
qed

subsection \<open>What is held and what is pending\<close>

fun holds :: "sem \<Rightarrow> hthread \<Rightarrow> bool" where
  "holds l (HWrite conn lock pkt) \<longleftrightarrow> lock = Some l"
| "holds l (HRelease lock) \<longleftrightarrow> lock = Some l"
| "holds l _ \<longleftrightarrow> False"

fun unwritten :: "hthread \<Rightarrow> bytes multiset" where
  "unwritten (HLookup pkt) = (if dns pkt then {#} else {#pkt#})"
| "unwritten (HAcquire conn lock pkt) = {#pkt#}"
| "unwritten (HWrite conn lock pkt) = {#pkt#}"
| "unwritten _ = {#}"

fun steps_left :: "hthread \<Rightarrow> nat" where
  "steps_left (HLookup pkt) = 4"
| "steps_left (HAcquire conn lock pkt) = 3"
| "steps_left (HWrite conn lock pkt) = 2"
| "steps_left (HRelease lock) = 1"
| "steps_left HDone = 0"

fun hthread_ok :: "hthread \<Rightarrow> bool" where
  "hthread_ok (HLookup pkt) \<longleftrightarrow> 24 \<le> length pkt"
| "hthread_ok (HAcquire conn lock pkt) \<longleftrightarrow> lock \<noteq> None"
| "hthread_ok (HWrite conn lock pkt) \<longleftrightarrow> lock \<noteq> None"
| "hthread_ok (HRelease lock) \<longleftrightarrow> lock \<noteq> None"
| "hthread_ok HDone \<longleftrightarrow> True"

text \<open>The pool has members, and all of them have a connection.\<close>

definition served :: "Crc2ConnMap \<Rightarrow> bool" where
  "served s \<longleftrightarrow> (\<exists>xs. c2c_inv s xs \<and> xs \<noteq> [] \<and> (\<forall>e \<in> set xs. e_conn (elems (connPool s) e) \<noteq> None))"

definition handlers_inv :: "'w henv \<Rightarrow> ('w \<Rightarrow> nat) \<Rightarrow> nat \<Rightarrow> ptr \<Rightarrow> bytes multiset \<Rightarrow> 'w hsys \<Rightarrow> bool" where
  "handlers_inv E held cap m P y \<longleftrightarrow> sem_counts E held cap \<and> rule_order (h_order E) \<and> served (gw_maps (h_gw y) m)
     \<and> (\<forall>th \<in> set (h_threads y). hthread_ok th)
     \<and> (\<forall>l. held (gw_sem (h_gw y) l) = length (filter (holds l) (h_threads y)))
     \<and> mset (map snd (gw_out (h_gw y))) + sum_list (map unwritten (h_threads y)) = P"

lemma filter_update:
  assumes "i < length xs"
  shows "length (filter P (xs[i := y])) + (if P (xs ! i) then 1 else 0) = length (filter P xs) + (if P y then 1 else 0)"
proof -
  have xs: "xs = take i xs @ xs ! i # drop (Suc i) xs" using assms by (rule id_take_nth_drop)
  have u: "xs[i := y] = take i xs @ y # drop (Suc i) xs" using assms by (rule upd_conv_take_nth_drop)
  show ?thesis unfolding u by (subst (4) xs) simp
qed

lemma sum_list_update:
  fixes f :: "'a \<Rightarrow> 'b :: comm_monoid_add"
  assumes "i < length xs"
  shows "sum_list (map f (xs[i := y])) + f (xs ! i) = sum_list (map f xs) + f y"
proof -
  have xs: "xs = take i xs @ xs ! i # drop (Suc i) xs" using assms by (rule id_take_nth_drop)
  have u: "xs[i := y] = take i xs @ y # drop (Suc i) xs" using assms by (rule upd_conv_take_nth_drop)
  show ?thesis unfolding u by (subst (4) xs) (simp add: ac_simps)
qed

lemma exchange_sums:
  fixes a b s s' t t' :: "'a multiset"
  assumes "a + t' = b + t" and "s' + t = s + t'"
  shows "a + s' = b + s"
proof -
  have "(a + s') + (t + t') = (b + s) + (t + t')"
    using arg_cong2 [OF assms, of "(+)"] by (simp only: ac_simps)
  then show ?thesis by (simp only: add_right_cancel)
qed

subsection \<open>One section\<close>

lemma served_Get:
  assumes "served s"
  obtains conn lk s' where "Get crc now s = Ret ((Some conn, Some lk), s')" and "served s'"
proof -
  obtain xs where xs: "c2c_inv s xs" "xs \<noteq> []" "\<forall>e \<in> set xs. e_conn (elems (connPool s) e) \<noteq> None"
    using assms by (auto simp: served_def)
  obtain cn lk s' where G: "Get crc now s = Ret ((cn, Some lk), s')" "c2c_inv s' xs"
    using Get_inv [OF xs(1,2)] by blast
  have conns: "\<forall>e \<in> set xs. e_conn (elems (connPool s') e) \<noteq> None" using xs(3) Get_e_conn [OF G(1)] by simp
  have "owned s' xs" "crc2conn s' crc = Some cn" using G(2) Get_stores [OF G(1)] by (auto simp: c2c_inv_def)
  then obtain e where "e \<in> set xs" "e_conn (elems (connPool s') e) = cn" by (rule ownedE)
  then obtain conn where "cn = Some conn" using conns by auto
  moreover have "served s'" using G(2) xs(2) conns by (auto simp: served_def)
  ultimately show ?thesis using G(1) by (intro that) auto
qed

lemma served_tick:
  assumes "served s" and "flux_tick now t s = Ret (b, s')"
  shows "served s'"
proof -
  have "e_conn (elems (connPool s') e) = e_conn (elems (connPool s) e)" for e
    using assms(2) by (auto simp: flux_tick_def Let_def split: option.splits if_splits)
  then show ?thesis using assms(1) flux_tick_inv [OF _ assms(2)] by (auto simp: served_def)
qed

lemma lookup_section:
  assumes "rule_order (h_order E)" and "24 \<le> length pkt" and "served (gw_maps g m)"
  obtains th g' where "handler_section E (nat_rules m) now (HLookup pkt) g = Ret (th, g')"
    and "served (gw_maps g' m)" and "gw_sem g' = gw_sem g" and "gw_out g' = gw_out g"
    and "if dns pkt then th = HDone else \<exists>conn lk. th = HAcquire conn (Some lk) pkt"
proof (cases "dns pkt")
  case True
  then show ?thesis using assms that [of HDone g] by (simp add: GetChan_nat dns_def)
next
  case False
  obtain conn lk s' where "Get (h_ck E (hash_input pkt)) now (gw_maps g m) = Ret ((Some conn, Some lk), s')" "served s'"
    using served_Get [OF assms(3)] by blast
  then show ?thesis
    using assms False that [of "HAcquire conn (Some (m, lk)) pkt" "g\<lparr>gw_maps := (gw_maps g)(m := s')\<rparr>"]
    by (simp add: GetChan_nat dns_def)
qed

lemma section_effect:
  assumes "sem_counts E held cap" and "rule_order (h_order E)" and "served (gw_maps g m)" and "hthread_ok th"
    and "handler_section E (nat_rules m) now th g = Ret (th', g')"
  shows "served (gw_maps g' m) \<and> hthread_ok th' \<and> steps_left th' < steps_left th
    \<and> mset (map snd (gw_out g')) + unwritten th' = mset (map snd (gw_out g)) + unwritten th
    \<and> (\<forall>l. held (gw_sem g' l) + (if holds l th then 1 else 0) = held (gw_sem g l) + (if holds l th' then 1 else 0))"
proof (cases th)
  case (HLookup pkt)
  with assms(4) have "24 \<le> length pkt" by simp
  from lookup_section [OF assms(2) this assms(3), where now = now] obtain th1 g1 where
    "handler_section E (nat_rules m) now (HLookup pkt) g = Ret (th1, g1)" "served (gw_maps g1 m)"
    "gw_sem g1 = gw_sem g" "gw_out g1 = gw_out g" "if dns pkt then th1 = HDone else \<exists>conn lk. th1 = HAcquire conn (Some lk) pkt" by blast
  then show ?thesis using assms(5) HLookup by (auto split: if_splits)
next
  case (HAcquire conn lock pkt)
  then obtain l w where l: "lock = Some l" "h_Acquire E (gw_sem g l) = Ret w" "th' = HWrite conn (Some l) pkt"
    "g' = g\<lparr>gw_sem := (gw_sem g)(l := w)\<rparr>"
    using assms(4,5) by (auto simp: sem_call_def)
  moreover have "held w = Suc (held (gw_sem g l))" using sem_countsD(1) [OF assms(1) l(2)] .
  ultimately show ?thesis using HAcquire assms(3) by auto
next
  case (HWrite conn lock pkt)
  then show ?thesis using assms(3-5) by (auto simp: SendToContainer3_def)
next
  case (HRelease lock)
  then obtain l w where l: "lock = Some l" "h_Release E (gw_sem g l) = Ret w" "th' = HDone"
    "g' = g\<lparr>gw_sem := (gw_sem g)(l := w)\<rparr>"
    using assms(4,5) by (auto simp: sem_call_def)
  moreover have "Suc (held w) = held (gw_sem g l)" using sem_countsD(2) [OF assms(1) l(2)] .
  ultimately show ?thesis using HRelease assms(3) by auto
qed (use assms(5) in simp)

subsection \<open>Interleavings\<close>

lemma handlers_inv_run:
  assumes "handlers_inv E held cap m P y" and "handler_move E m (HRun i now) y = Some z"
  shows "handlers_inv E held cap m P z"
    and "sum_list (map steps_left (h_threads z)) < sum_list (map steps_left (h_threads y))"
proof -
  let ?ths = "h_threads y" and ?g = "h_gw y"
  obtain th g where i: "i < length ?ths" and sec: "handler_section E (nat_rules m) now (?ths ! i) ?g = Ret (th, g)"
    and z: "z = y\<lparr>h_gw := g, h_threads := ?ths[i := th]\<rparr>"
    using assms(2) by (auto split: if_splits go.splits)
  have inv: "sem_counts E held cap" "rule_order (h_order E)" "served (gw_maps ?g m)" "\<forall>th \<in> set ?ths. hthread_ok th"
    "\<And>l. held (gw_sem ?g l) = length (filter (holds l) ?ths)"
    "mset (map snd (gw_out ?g)) + sum_list (map unwritten ?ths) = P"
    using assms(1) unfolding handlers_inv_def by blast+
  have "hthread_ok (?ths ! i)" using inv(4) i by simp
  note eff = section_effect [OF inv(1-3) this sec]
  have "held (gw_sem g l) = length (filter (holds l) (?ths[i := th]))" for l
  proof -
    have "held (gw_sem g l) + (if holds l (?ths ! i) then 1 else 0) = held (gw_sem ?g l) + (if holds l th then 1 else 0)"
      using eff by blast
    then show ?thesis using inv(5) [of l] filter_update [OF i, of "holds l" th] by linarith
  qed
  moreover have "mset (map snd (gw_out g)) + sum_list (map unwritten (?ths[i := th])) = P"
  proof -
    let ?a = "mset (map snd (gw_out g))" and ?b = "mset (map snd (gw_out ?g))"
    have "?a + unwritten th = ?b + unwritten (?ths ! i)" using eff by blast
    then have "?a + sum_list (map unwritten (?ths[i := th])) = ?b + sum_list (map unwritten ?ths)"
      using sum_list_update [OF i, of unwritten th] by (rule exchange_sums)
    then show ?thesis using inv(6) by simp
  qed
  moreover have "\<forall>th' \<in> set (?ths[i := th]). hthread_ok th'"
    using eff inv(4) set_update_subset_insert [of ?ths i th] by blast
  ultimately show "handlers_inv E held cap m P z" using inv(1,2) eff z by (simp add: handlers_inv_def)
  show "sum_list (map steps_left (h_threads z)) < sum_list (map steps_left ?ths)"
    using eff sum_list_update [OF i, of steps_left th] z by simp
qed

lemma handlers_inv_expire:
  assumes "handlers_inv E held cap m P y" and "handler_move E m (HExpire now t) y = Some z"
  shows "handlers_inv E held cap m P z"
proof -
  obtain b s where "flux_tick now t (gw_maps (h_gw y) m) = Ret (b, s)"
    and z: "z = y\<lparr>h_gw := (h_gw y)\<lparr>gw_maps := (gw_maps (h_gw y))(m := s)\<rparr>\<rparr>"
    using assms(2) by (auto split: go.splits)
  then have "served s" using assms(1) served_tick unfolding handlers_inv_def by blast
  then show ?thesis using assms(1) z by (simp add: handlers_inv_def)
qed

definition all_done :: "'w hsys \<Rightarrow> bool" where
  "all_done y \<longleftrightarrow> set (h_threads y) \<subseteq> {HDone}"

text \<open>In an interleaving nothing panics, and the only call that ever waits is one for a semaphore all of whose weight is in use.\<close>

lemma section_enabled:
  assumes inv: "handlers_inv E held cap m P y" and i: "i < length (h_threads y)" and "h_threads y ! i \<noteq> HDone"
  shows "returns (handler_section E (nat_rules m) now (h_threads y ! i) (h_gw y))
    \<or> handler_section E (nat_rules m) now (h_threads y ! i) (h_gw y) = Block
      \<and> (\<exists>conn l pkt. h_threads y ! i = HAcquire conn (Some l) pkt \<and> cap \<le> held (gw_sem (h_gw y) l))"
proof -
  let ?ths = "h_threads y" and ?g = "h_gw y"
  have I: "sem_counts E held cap" "rule_order (h_order E)" "served (gw_maps ?g m)"
    "\<And>l. held (gw_sem ?g l) = length (filter (holds l) ?ths)" and ok: "hthread_ok (?ths ! i)"
    using inv i unfolding handlers_inv_def by (blast intro: nth_mem)+
  show ?thesis
  proof (cases "?ths ! i")
    case (HLookup pkt)
    then show ?thesis
      using lookup_section [OF I(2) _ I(3), of pkt now] ok by (metis hthread_ok.simps(1) returns_simps(1))
  next
    case (HAcquire conn lock pkt)
    then obtain l where "lock = Some l" using ok by auto
    then show ?thesis
      using HAcquire sem_countsD(3) [OF I(1), of "gw_sem ?g l"] by (auto simp: sem_call_def returns_def split: go.splits)
  next
    case (HRelease lock)
    then obtain l where l: "lock = Some l" using ok by auto
    then have "?ths ! i \<in> set (filter (holds l) ?ths)" using nth_mem [OF i] HRelease by simp
    then have "0 < held (gw_sem ?g l)" using I(4) [of l] by (metis length_pos_if_in_set)
    then show ?thesis
      using HRelease l sem_countsD(4) [OF I(1), of "gw_sem ?g l"] by (auto simp: sem_call_def returns_def split: go.splits)
  qed (use assms(3) in \<open>simp_all add: returns_def\<close>)
qed

text \<open>
  A handler that waits is not waited for in a circle: whoever holds the semaphore can write and release it, and
  when nobody holds it, it can be acquired.
\<close>

lemma handlers_not_stuck:
  assumes inv: "handlers_inv E held cap m P y" and "\<not> all_done y"
  shows "\<exists>i z. handler_move E m (HRun i now) y = Some z"
proof -
  let ?ths = "h_threads y" and ?g = "h_gw y"
  have I: "sem_counts E held cap" "\<And>l. held (gw_sem ?g l) = length (filter (holds l) ?ths)"
    using inv unfolding handlers_inv_def by blast+
  have "\<exists>th \<in> set ?ths. th \<noteq> HDone \<and> (\<forall>conn l pkt. th = HAcquire conn (Some l) pkt \<longrightarrow> held (gw_sem ?g l) = 0)"
  proof (cases "\<exists>th \<in> set ?ths. \<exists>l. holds l th")
    case True
    then show ?thesis by (metis holds.simps(2,4,5) hthread.simps(13) hthread.distinct)
  next
    case False
    then have "held (gw_sem ?g l) = 0" for l
      using I(2) [of l] by (metis filter_False list.size(3))
    then show ?thesis using assms(2) by (auto simp: all_done_def)
  qed
  then obtain i where i: "i < length ?ths" "?ths ! i \<noteq> HDone"
    and free: "\<And>conn l pkt. ?ths ! i = HAcquire conn (Some l) pkt \<Longrightarrow> held (gw_sem ?g l) = 0"
    by (metis in_set_conv_nth)
  have "returns (handler_section E (nat_rules m) now (?ths ! i) ?g)"
    using section_enabled [OF inv i, of now] free sem_countsD(5) [OF I(1)] by fastforce
  then obtain th g where "handler_section E (nat_rules m) now (?ths ! i) ?g = Ret (th, g)"
    by (auto simp: returns_def split: go.splits)
  then show ?thesis using i(1) by (intro exI [of _ i]) auto
qed

interpretation handling: moving_system "handler_move E m" "handlers_inv E held cap m P" for E m held cap P
  by unfold_locales (metis hmove.exhaust handlers_inv_run(1) handlers_inv_expire)

interpretation draining: ending_system "\<lambda>(i, now). handler_move E m (HRun i now)" "handlers_inv E held cap m P"
    "\<lambda>y. sum_list (map steps_left (h_threads y))" all_done for E m held cap P
proof unfold_locales
  fix y z :: "'a hsys" and mv :: "nat \<times> int"
  assume inv: "handlers_inv E held cap m P y" and mv: "(case mv of (i, now) \<Rightarrow> handler_move E m (HRun i now)) y = Some z"
  then show "handlers_inv E held cap m P z" by (cases mv) (use handlers_inv_run(1) in fastforce)
  show "sum_list (map steps_left (h_threads z)) < sum_list (map steps_left (h_threads y))"
    using inv mv by (cases mv) (use handlers_inv_run(2) in fastforce)
next
  fix y :: "'a hsys"
  assume "handlers_inv E held cap m P y" "\<not> all_done y"
  then obtain i z where "handler_move E m (HRun i 0) y = Some z" using handlers_not_stuck by blast
  then have "(case (i, 0) of (i, now) \<Rightarrow> handler_move E m (HRun i now)) y = Some z" by simp
  then show "\<exists>mv z. (case mv of (i, now) \<Rightarrow> handler_move E m (HRun i now)) y = Some z" by blast
qed

lemma sum_list_0_all: "\<forall>x \<in> set xs. f x = (0 :: 'b :: comm_monoid_add) \<Longrightarrow> sum_list (map f xs) = 0"
  by (induction xs) simp_all

text \<open>What stays true of the start, as far as the property needs it.\<close>

lemma handlers_inv_start:
  assumes "world_inv w xs" and "\<not> Empty (w_lists w 0)"
    and "\<forall>e < nextElem (connPool (w_maps w 0)). IsAlive e (connPool (w_maps w 0)) \<longrightarrow> e_conn (elems (connPool (w_maps w 0)) e) \<noteq> None"
    and "gw_maps g = w_maps w" and "sem_counts E held cap" and "rule_order (h_order E)"
    and "\<forall>l. held (gw_sem g l) = 0" and "\<forall>pkt \<in> set pkts. 24 \<le> length pkt"
  shows "handlers_inv E held cap 0 (mset (map snd (gw_out g)) + mset (filter (\<lambda>pkt. \<not> dns pkt) pkts)) (handlers_start pkts g)"
proof -
  note ag = world_invD(1) [OF assms(1)]
  have ne: "xs \<noteq> []" using assms(2) agreeD(2) [OF ag] by (auto simp: Empty_def)
  have c2c: "c2c_inv (gw_maps g 0) xs" using agreeD(1) [OF ag] assms(4) by simp
  then have r: "ring (connPool (w_maps w 0)) xs" using assms(4) by (simp add: c2c_inv_def)
  have "\<forall>e \<in> set xs. e_conn (elems (connPool (gw_maps g 0)) e) \<noteq> None"
    using assms(3,4) ring_IsAlive [OF r] r by (auto simp: ring_def)
  then have "served (gw_maps g 0)" using c2c ne by (auto simp: served_def)
  moreover have "sum_list (map unwritten (map HLookup pkts)) = mset (filter (\<lambda>pkt. \<not> dns pkt) pkts)"
    by (induction pkts) auto
  moreover have "filter (holds l) (map HLookup pkts) = []" for l by (induction pkts) auto
  ultimately show ?thesis using assms(5-8) by (simp add: handlers_inv_def handlers_start_def)
qed

lemma handlers_inv_done:
  assumes "handlers_inv E held cap m P y" and "all_done y"
  shows "mset (map snd (gw_out (h_gw y))) = P" and "held (gw_sem (h_gw y) l) = 0"
proof -
  have "\<forall>th \<in> set (h_threads y). unwritten th = {#} \<and> \<not> holds l th" using assms(2) by (auto simp: all_done_def)
  then have "sum_list (map unwritten (h_threads y)) = {#}" "filter (holds l) (h_threads y) = []"
    by (auto simp: filter_empty_conv intro!: sum_list_0_all)
  moreover have "held (gw_sem (h_gw y) l) = length (filter (holds l) (h_threads y))"
    "mset (map snd (gw_out (h_gw y))) + sum_list (map unwritten (h_threads y)) = P"
    using assms(1) unfolding handlers_inv_def by blast+
  ultimately show "mset (map snd (gw_out (h_gw y))) = P" "held (gw_sem (h_gw y) l) = 0" by simp_all
qed

section \<open>Properties\<close>

text \<open>
  C7: The handlers of any number of packets, interleaved with each other and with the expiry of flows, in a
  reachable world with a registered container, all of whose connections are open. At every moment each packet
  that is no DNS answer either is written, once, or is still with the handler it was given to, and the
  weight in use of a semaphore is the number of handlers between acquiring and releasing it. No handler
  panics, and one waits only for a semaphore all of whose weight is in use. Whatever has
  happened, the handlers can end: then every such packet is written exactly once, no other is, and all
  semaphores are free.
\<close>

theorem handlers_interleaved:
  assumes "world_reachable GM rng w" and "range_order rng" and "\<not> Empty (w_lists w 0)"
    and "\<forall>e < nextElem (connPool (w_maps w 0)). IsAlive e (connPool (w_maps w 0)) \<longrightarrow> e_conn (elems (connPool (w_maps w 0)) e) \<noteq> None"
    and "gw_maps g = w_maps w" and "sem_counts E held cap" and "rule_order (h_order E)"
    and "\<forall>l. held (gw_sem g l) = 0" and "\<forall>pkt \<in> set pkts. 24 \<le> length pkt"
    and "run_moves (handler_move E 0) ms (handlers_start pkts g) = Some y"
  shows "mset (map snd (gw_out (h_gw y))) + sum_list (map unwritten (h_threads y))
      = mset (map snd (gw_out g)) + mset (filter (\<lambda>pkt. \<not> dns pkt) pkts)
    \<and> (\<forall>l. held (gw_sem (h_gw y) l) = length (filter (holds l) (h_threads y)))
    \<and> (\<forall>i now. i < length (h_threads y) \<longrightarrow> h_threads y ! i \<noteq> HDone \<longrightarrow>
        returns (handler_section E (nat_rules 0) now (h_threads y ! i) (h_gw y))
        \<or> handler_section E (nat_rules 0) now (h_threads y ! i) (h_gw y) = Block
          \<and> (\<exists>conn l pkt. h_threads y ! i = HAcquire conn (Some l) pkt \<and> cap \<le> held (gw_sem (h_gw y) l)))
    \<and> (\<exists>js z. run_moves (\<lambda>(i, now). handler_move E 0 (HRun i now)) js y = Some z \<and> all_done z
        \<and> mset (map snd (gw_out (h_gw z))) = mset (map snd (gw_out g)) + mset (filter (\<lambda>pkt. \<not> dns pkt) pkts)
        \<and> (\<forall>l. held (gw_sem (h_gw z) l) = 0))"
proof -
  let ?P = "mset (map snd (gw_out g)) + mset (filter (\<lambda>pkt. \<not> dns pkt) pkts)"
  obtain xs where "world_inv w xs" using world_reachable_inv [OF assms(1,2)] by blast
  from handlers_inv_start [OF this assms(3-9)] have inv: "handlers_inv E held cap 0 ?P y"
    using assms(10) by (rule handling.inv_run)
  obtain js z where js: "run_moves (\<lambda>(i, now). handler_move E 0 (HRun i now)) js y = Some z" and "all_done z"
    using draining.finishes [OF inv] by blast
  then have "mset (map snd (gw_out (h_gw z))) = ?P \<and> (\<forall>l. held (gw_sem (h_gw z) l) = 0)"
    using handlers_inv_done [OF draining.inv_run [OF inv js]] by blast
  moreover have "mset (map snd (gw_out (h_gw y))) + sum_list (map unwritten (h_threads y)) = ?P"
    "\<forall>l. held (gw_sem (h_gw y) l) = length (filter (holds l) (h_threads y))"
    using inv unfolding handlers_inv_def by blast+
  ultimately show ?thesis using js \<open>all_done z\<close> section_enabled [OF inv] by blast
qed

text \<open>Two packets, whose handlers are both inside the semaphore when the flow expires.\<close>

definition henv_ex :: "int henv" where
  "henv_ex = \<lparr>h_ck = ck_ex, h_Acquire = (\<lambda>w. acquire_ex (max 0 w)), h_Release = release_ex, h_order = id\<rparr>"

definition hmoves_ex :: "hmove list" where
  "hmoves_ex = [HRun 0 5, HRun 1 6, HRun 1 6, HRun 0 6, HExpire 900 \<lparr>ft_crc = 0, ft_elem = 0, ft_timeout = 100, ft_from = None\<rparr>, HRun 1 901]"

definition hpkts_ex :: "bytes list" where
  "hpkts_ex = [replicate 24 2, replicate 25 2]"

theorem handlers_interleaved_witness:
  "\<exists>y js z. run_moves (handler_move henv_ex 0) hmoves_ex
        (handlers_start hpkts_ex \<lparr>gw_maps = w_maps world_ex, gw_sem = (\<lambda>_. 0), gw_out = []\<rparr>) = Some y
    \<and> run_moves (\<lambda>(i, now). handler_move henv_ex 0 (HRun i now)) js y = Some z
    \<and> all_done z \<and> mset (map snd (gw_out (h_gw z))) = mset hpkts_ex"
proof -
  let ?g = "\<lparr>gw_maps = w_maps world_ex, gw_sem = (\<lambda>_. 0 :: int), gw_out = []\<rparr>"
  have w: "world_reachable GM_ex id world_ex" by (rule world_next [OF world_init ws_register [OF world_ex]])
  have inv: "world_inv world_ex [0]"
    using addEntryToChan_inv [OF world_inv_init world_ex]
    by (simp add: InitRuleMap_world_def NewCrc2ConnMap_def NewConnPool_def)
  have ne: "\<not> Empty (w_lists world_ex 0)" by code_simp
  have e: "e_conn (elems (connPool (w_maps world_ex 0)) 0) \<noteq> None" by code_simp
  have "ring (connPool (w_maps world_ex 0)) [0]" using agreeD(1) [OF world_invD(1) [OF inv]] by (simp add: c2c_inv_def)
  then have c: "\<forall>e < nextElem (connPool (w_maps world_ex 0)). IsAlive e (connPool (w_maps world_ex 0))
      \<longrightarrow> e_conn (elems (connPool (w_maps world_ex 0)) e) \<noteq> None"
    using ring_IsAlive [of "connPool (w_maps world_ex 0)" "[0]"] e by auto
  have sem: "sem_counts henv_ex nat 1000000"
    by (auto simp: sem_counts_def henv_ex_def acquire_ex_def release_ex_def returns_def split: if_splits)
  have "run_moves (handler_move henv_ex 0) hmoves_ex (handlers_start hpkts_ex ?g) \<noteq> None" by code_simp
  then obtain y where y: "run_moves (handler_move henv_ex 0) hmoves_ex (handlers_start hpkts_ex ?g) = Some y" by blast
  have d: "filter (\<lambda>pkt. \<not> dns pkt) hpkts_ex = hpkts_ex" by code_simp
  have "\<forall>pkt \<in> set hpkts_ex. 24 \<le> length pkt" by code_simp
  moreover have "rule_order (h_order henv_ex)" using ex_laws(2) by (simp add: henv_ex_def)
  ultimately have "\<exists>js z. run_moves (\<lambda>(i, now). handler_move henv_ex 0 (HRun i now)) js y = Some z \<and> all_done z
      \<and> mset (map snd (gw_out (h_gw z))) = mset (map snd (gw_out ?g)) + mset (filter (\<lambda>pkt. \<not> dns pkt) hpkts_ex)
      \<and> (\<forall>l. nat (gw_sem (h_gw z) l) = 0)"
    using handlers_interleaved [OF w range_order_id ne c _ sem _ _ _ y] by simp
  then show ?thesis using y unfolding d by auto
qed

end
