(* ===== verification/Spec2Isabelle.thy ===== *)
theory Spec2Isabelle
  imports Packet_Crc Buffers_Pool Crc2Conn Rule_Map Container_List Registry_Maps Nat_Context Scaling
    Registration Provision Flow_Forward Openwhisk Gateway Flow_Threads Heap_Types Provision_Locks Scaling_Round
    Throughput_Tools Speed_Meter Gateway_Main Utils_Services Assign_Threads Lease_Threads Registration_Threads
    Handler_Threads
begin

text \<open>
  A verification library for NFGateway, a gateway that spreads the packets of a network interface
  over containers of virtual network functions (NAT, DHCP) which it starts on OpenWhisk.

  \<^bold>\<open>The program.\<close> \<open>main\<close> (\<open>src/gateway.go\<close>) reads frames from network interfaces and hands the UDP
  packets to the UDP handler (\<open>src/udp\<close>). The handler asks the rule map (\<open>src/utils/rulemap.go\<close>) for a
  connection: a rule chooses the flow map of an action, the flow map assigns the flow of the packet (the
  CRC of its addresses and ports) to an element of the connection pool in round-robin order and starts a
  goroutine that forgets the flow once it is idle. The packet is written to the connection of that
  element under a semaphore. A container announces itself with a registration message
  (\<open>src/cnt/handler.go\<close>): it gets an element of the pool, an entry of the container list
  (\<open>src/cnt/containerlist.go\<close>) and of the provisioner's maps, and a goroutine that deletes it before its
  run time ends; its flows then move to another element. The provisioner (\<open>src/cnt/provisioner.go\<close>)
  watches the load of the container list, asks OpenWhisk (\<open>src/openwhisk\<close>) for more containers and tells
  superfluous ones to go; for a NAT container ports are leased first (\<open>src/nat\<close>).

  \<^bold>\<open>The theories\<close>, in the order of their imports:

  \<^item> \<open>Go_Prelude\<close>: outcomes of a Go call (\<open>Ret\<close>, \<open>Panic\<close>, \<open>Exit\<close>, \<open>Block\<close>), checked indexing and slicing,
    machine integers, and the lemmas the components share. \<open>Go_Strings\<close>: the functions of \<open>strconv\<close> and
    \<open>strings\<close> in use. \<open>Go_Net\<close>: \<open>strconv.Atoi\<close> and \<open>net.ParseIP\<close>. \<open>Float64\<close>: rounding to 53 bits, NaN and
    the infinities, quotients, \<open>math.Ceil\<close>, \<open>Floor\<close>, \<open>Max\<close>. \<open>Move_Runs\<close>: goroutines under a scheduler, as
    lists of moves, with the contracts of an invariant and of termination.
  \<^item> \<open>Bytes_Utils\<close>, \<open>Buffers_Pool\<close> (\<open>src/utils/bytes_utils.go\<close>): the helpers on bytes, and the pool of
    buffers as a step relation of a client and the clean-up goroutines. Shown: the value of every helper
    (also where it is not what the name says), and, in every interleaving, that a buffer is never shared or
    lost, comes back zeroed, and that a release never waits.
  \<^item> \<open>Packet_Crc\<close> (\<open>pkt_utils.go\<close>, \<open>PktCrc16\<close>): the outcome of the flow hash for every packet length
    and which packets are one flow.
  \<^item> \<open>Conn_Pool\<close> (\<open>rulemap.go\<close>: \<open>Container\<close>, \<open>ConnPool\<close>, \<open>ConnPoolElem\<close>): the circular doubly linked
    list in a heap, with the relation \<open>ring\<close> to a list of elements. Shown: \<open>Add\<close>, \<open>Next\<close> and \<open>Delete\<close>
    refine a list with a cursor, \<open>Next\<close> is fair, the loops that count elements end.
  \<^item> \<open>Crc2Conn\<close> (\<open>rulemap.go\<close>: \<open>Crc2ConnMap\<close>, \<open>ConnPoolElem.Delete\<close>): lookup, deletion, expiry of flows.
    The invariant \<open>c2c_inv\<close> says that flows belong to live elements; it holds in all reachable states and
    gives when \<open>Get\<close> returns, that flows stay with their connection, that a deletion hands them over.
  \<^item> \<open>Flow_Threads\<close>: the same calls as threads that stop between their critical sections. Shown: a
    thread that runs alone is the call; in every interleaving in which deletions of one element do not overlap
    the ring is intact, no channel is closed twice and a finished lookup has a semaphore; and executions in
    which a lookup uses an element that was deleted meanwhile, with a crash or with a flow that stays on a
    deleted container, or in which overlapping deletions close a channel twice. \<open>Heap_Types\<close>: with no
    restriction on deletions, every pointer is nil or leads to an allocated object, and a section returns or
    panics in one of two ways.
  \<^item> \<open>Rule_Map\<close> (\<open>RuleMap\<close>, the rule of \<open>InitRuleMap\<close>, \<open>SendToContainer3\<close>, \<open>src/udp\<close>): the
    path of a packet, on every branch.
  \<^item> \<open>Container_List\<close>, \<open>Registry_Maps\<close>: the list with its in-place removal, the choice by load and the load
    itself; the maps of the provisioner and the container map.
  \<^item> \<open>Registration\<close> (\<open>handler.go\<close>): messages, \<open>addEntryToChan\<close>, the removal goroutine, and the world
    these act on. Shown: in all reachable worlds pool, container list and registries agree.
  \<^item> \<open>Scaling\<close>, \<open>Provision\<close> (\<open>provisioner.go\<close>): the scaling decision, its bounds with the program's
    constants, and the goroutines that create and drop containers, one definition for each iteration.
    \<open>Scaling_Round\<close>: both composed with the receivers; no round brings the pool below the minimum.
    \<open>Provision_Locks\<close>: the sends of the scale-down loop, which holds a lock that the receivers need,
    interleaved with these; when the loop always gets on, and when it never ends.
  \<^item> \<open>Registration_Threads\<close>: \<open>addEntryToChan\<close>, the removal goroutine and the drop cut into the sections
    between which other goroutines, lookups and the scale-down loop may move. Shown: run alone the sections are
    the calls; in every interleaving list and pool differ only by the work in hand; a section fails only
    where it reads a nil pointer, in two places, with executions that reach both.
  \<^item> \<open>Nat_Context\<close> (\<open>src/nat/context.go\<close>), \<open>Openwhisk\<close>: leases of ports, which stay disjoint; the map
    from ports to containers; the request that starts a container. \<open>Assign_Threads\<close>: the two goroutines of
    \<open>AssignPorts\<close> on the bit set they share without a lock. Shown: every interleaving returns; with disjoint
    windows all give the same lease; with the low ports used up a port can be leased twice.
    \<open>Lease_Threads\<close>: the functions that end leases, in two critical sections, and \<open>Get\<close> in two, with the clock.
    Shown: no lease is forgotten, none lasts more than two timeouts when goroutines run in time, an unexpired one
    is kept unless a \<open>Set\<close> falls into the gap, in which case it is lost.
  \<^item> \<open>Flow_Forward\<close>: the three forwarders that keep one connection for each flow, and the copies of the hash.
    \<open>Forward_Threads\<close>: their goroutines, which lock copies of the mutex, in every interleaving.
    \<open>Throughput_Tools\<close> (\<open>src/testthroughput\<close>): the programs around them, from the command line to the writes,
    the agreement of their versions and the race on the buffer of \<open>ip2ip\<close>.
  \<^item> \<open>Gateway\<close>: arguments of \<open>main\<close>, one round of the frame loop, start-up of the network functions
    (\<open>src/initnf\<close>), the TCP handler (\<open>src/tcp\<close>). \<open>Gateway_Main\<close>: \<open>main\<close> with the goroutines it starts, the
    readers of the interfaces, the accept loop of the registrations. Shown: what is served and forwarded for
    any number of frames and messages and any order of the goroutines they start. \<open>Handler_Threads\<close>: the
    handlers of the packets, cut at the semaphore. Shown: in every interleaving with each other and with expiring
    flows nothing panics, the handlers can end, and each packet is written once.
  \<^item> \<open>Speed_Meter\<close> (\<open>src/speedmeter\<close>): parameters, counters and throughput of the two meters.
  \<^item> \<open>Utils_Services\<close>: \<open>SendToEndpoint\<close>, the logger, the package variables, the stub of the flowlets
    (\<open>src/utils\<close>), the listener for mapping requests (\<open>src/nat\<close>), the packet printer (\<open>src/tools\<close>).
  \<^item> This theory: the path of a frame through all of these, from the interface to a registered container.

  \<^bold>\<open>Interfaces.\<close> \<open>round_robin\<close> (a cursor that visits every member, interpreted on \<open>ConnPool_Next\<close>),
  \<open>packet_fields\<close> (extractors of addresses and ports, interpreted on the four copies in the program),
  \<open>kv_store\<close> and its extension \<open>kv_map\<close> (interpreted on \<open>Action2Cep\<close>, \<open>ConnElemProvisioner\<close> and
  \<open>ContainerMap\<close>), \<open>flow_forwarder\<close> (interpreted on the three forwarders), \<open>goroutines\<close> (what the sections
  of a forwarder conserve, interpreted on those of \<open>eth2ip\<close> and of \<open>sendToContainerHelper\<close>), \<open>moving_system\<close>
  and its extension \<open>ending_system\<close> (an invariant of all interleavings, and their end; interpreted on the
  moves of \<open>Assign_Threads\<close>, \<open>Lease_Threads\<close>, also under restrictions of the scheduler,
  \<open>Registration_Threads\<close> and \<open>Handler_Threads\<close>).

  \<^bold>\<open>State and atomicity.\<close> Go pointers are addresses into explicit heaps wherever two parts share an object
  (pool elements, containers, flow maps, lists, address cells of the port map). In the component theories a
  call is one step, which is what its mutex makes of it where it holds one throughout. Where calls release
  and retake locks inside, lock a copy, or lock nothing, the theories \<open>Flow_Threads\<close>, \<open>Forward_Threads\<close>,
  \<open>Provision_Locks\<close>, \<open>Registration_Threads\<close>, \<open>Handler_Threads\<close>, \<open>Assign_Threads\<close> and \<open>Lease_Threads\<close> split them into sections and
  let these interleave freely; accesses inside one section are not split further, and a method of the bit set
  is one access. Goroutines that outlive the call that starts them (expiry, removal,
  clean-up, timers) are data of the state and act in steps of their own, in any order. Loops over sockets are
  functions of the list of events the socket delivers, and return what they have done when they wait for
  the next one.

  \<^bold>\<open>Parameters\<close>, for what is not part of the sources: \<open>crc16.ChecksumIBM\<close> (nothing is assumed of it), the
  weighted semaphore (\<open>semaphore_laws\<close>, \<open>sem_counts\<close>), the bit set (\<open>bitset_laws\<close>, \<open>bitset_stable\<close>), the decoders
  \<open>nflib.GetMsgFromBytes\<close>, \<open>nflib.GetStringFromPortSlice\<close>, \<open>ethernet.Frame\<close> and \<open>header.UDP\<close>, the outcomes of
  \<open>net.DialUDP\<close>, of listeners and of HTTP exchanges, the Redis client, the clock, random numbers, and
  the order in which a range over a Go map visits its keys (\<open>range_order\<close>, \<open>rule_order\<close>: some permutation). Each hypothesis on a parameter
  is met by a concrete function in the witnesses.

  \<^bold>\<open>Loops and bounds.\<close> Recursion is structural or over a measure, and no fuel is used. \<open>SizeNoLock\<close>, which
  need not end on a broken ring, is a partial function into \<open>option\<close>; it is proved to return on every ring.
  Integers have the width of the source (\<open>int8\<close> fluxes, \<open>uint16\<close> ids and ports, \<open>uint32\<close> counters,
  64 bits for \<open>int\<close>). Exponents of floats are unbounded, since the quotients in question are far from
  both ends of the range.

  \<^bold>\<open>Not modelled.\<close> The text of log lines; the ticker of \<open>main\<close> that returns memory to the system; \<open>src/src\<close>, which holds a program
  that is commented out and a sketch that does not compile; code in comments.

  \<^bold>\<open>Plan.\<close> Next: the sections of a deletion, which \<open>Flow_Threads\<close> has, inside the interleavings of
  \<open>Registration_Threads\<close>.
\<close>

section \<open>From the wire to a container\<close>



end
